(* ===== verification/Prelude.thy ===== *)
theory Prelude
  imports Main "HOL-Library.Word" "HOL-Library.Signed_Division" "HOL-Library.Monad_Syntax"
begin

text \<open>
  The vocabulary shared by the component theories: Go's machine integers, byte
  slices with their bounds checks, big- and little-endian fields as
  \<open>encoding/binary\<close> writes them, the two CRC-32 checksums of \<open>hash/crc32\<close>
  that the sources use, and in-place writes into a buffer.

  Unsigned Go integers are words (\<open>+\<close> wraps as in Go). Signed 64-bit values that
  take part in products or sums that may overflow are \<^typ>\<open>int\<close> with the
  wrap-around written out by \<open>wrap64\<close>; lengths and indices are \<^typ>\<open>nat\<close>.
  A slice or index expression that Go would refuse with a run-time panic is
  \<open>None\<close> here.
\<close>

unbundle bit_operations_syntax

type_synonym byte = "8 word"
type_synonym u8 = "8 word"
type_synonym u16 = "16 word"
type_synonym u32 = "32 word"
type_synonym u64 = "64 word"
type_synonym bytes = "byte list"

named_theorems len_simps \<open>lengths of encoded fields and frames\<close>
named_theorems buf_simps \<open>in-place buffer writes\<close>
named_theorems codec_simps \<open>decoding what was encoded\<close>

section \<open>Signed 64-bit arithmetic\<close>

text \<open>Two's complement wrap-around of an \<open>int64\<close> result.\<close>

definition wrap64 :: "int \<Rightarrow> int" where
  "wrap64 x = (x + 2 ^ 63) mod 2 ^ 64 - 2 ^ 63"

definition in_i64 :: "int \<Rightarrow> bool" where
  "in_i64 x \<longleftrightarrow> - (2 ^ 63) \<le> x \<and> x < 2 ^ 63"

lemma wrap64_id [simp]: "in_i64 x \<Longrightarrow> wrap64 x = x"
  by (simp add: wrap64_def in_i64_def)

lemma in_i64_wrap64 [simp]: "in_i64 (wrap64 x)"
proof -
  have "0 \<le> (x + 2 ^ 63) mod 2 ^ 64" and "(x + 2 ^ 63) mod 2 ^ 64 < 2 ^ 64"
    by (rule pos_mod_sign, simp) (rule pos_mod_bound, simp)
  then show ?thesis by (simp add: wrap64_def in_i64_def)
qed

lemma in_i64I: "0 \<le> x \<Longrightarrow> x < 2 ^ 63 \<Longrightarrow> in_i64 x"
  by (simp add: in_i64_def)

section \<open>Slices\<close>

text \<open>\<open>window xs i j\<close> is Go's \<open>xs[i:j]\<close> inside its bounds; \<open>go_slice\<close> adds the
  bounds check, \<open>None\<close> being the run-time panic.\<close>

definition window :: "'a list \<Rightarrow> nat \<Rightarrow> nat \<Rightarrow> 'a list" where
  "window xs i j = take (j - i) (drop i xs)"

definition go_slice :: "'a list \<Rightarrow> nat \<Rightarrow> nat \<Rightarrow> 'a list option" where
  "go_slice xs i j = (if i \<le> j \<and> j \<le> length xs then Some (window xs i j) else None)"

lemma go_slice_Some [simp]:
  "i \<le> j \<Longrightarrow> j \<le> length xs \<Longrightarrow> go_slice xs i j = Some (window xs i j)"
  by (simp add: go_slice_def)

lemma go_slice_None [simp]: "j < i \<Longrightarrow> go_slice xs i j = None"
  by (simp add: go_slice_def)

lemma length_window [len_simps]: "j \<le> length xs \<Longrightarrow> length (window xs i j) = j - i"
  by (simp add: window_def)

lemma window_append_left: "j \<le> length xs \<Longrightarrow> window (xs @ ys) i j = window xs i j"
  by (simp add: window_def)

lemma window_append_right:
  "length xs \<le> i \<Longrightarrow> window (xs @ ys) i j = window ys (i - length xs) (j - length xs)"
  by (simp add: window_def)

lemma window_mid: "i = length xs \<Longrightarrow> j = i + length ys \<Longrightarrow> window (xs @ ys @ zs) i j = ys"
  by (simp add: window_def)

lemma window_prefix: "j = length xs \<Longrightarrow> window (xs @ ys) 0 j = xs"
  by (simp add: window_def)

lemma window_whole: "j = length xs \<Longrightarrow> window xs 0 j = xs"
  by (simp add: window_def)

lemma window_join:
  assumes "i \<le> j" "j \<le> k"
  shows "window xs i j @ window xs j k = window xs i k"
proof -
  have "window xs i k = take ((j - i) + (k - j)) (drop i xs)"
    using assms by (simp add: window_def)
  also have "\<dots> = window xs i j @ window xs j k"
    by (simp only: take_add drop_drop window_def) (use assms in simp)
  finally show ?thesis ..
qed

section \<open>Integer conversions\<close>

text \<open>Go's conversions \<open>uint16(n)\<close>, \<open>uint32(n)\<close>, \<open>uint64(n)\<close> of a non-negative \<open>int\<close>.\<close>

definition u16_of :: "nat \<Rightarrow> u16" where "u16_of n = word_of_nat n"
definition u32_of :: "nat \<Rightarrow> u32" where "u32_of n = word_of_nat n"
definition u64_of :: "nat \<Rightarrow> u64" where "u64_of n = word_of_nat n"

lemma unat_u16_of [simp]: "n < 65536 \<Longrightarrow> unat (u16_of n) = n"
  by (simp add: u16_of_def unat_of_nat)

lemma unat_u32_of [simp]: "n < 4294967296 \<Longrightarrow> unat (u32_of n) = n"
  by (simp add: u32_of_def unat_of_nat)

lemma unat_u64_of [simp]: "n < 18446744073709551616 \<Longrightarrow> unat (u64_of n) = n"
  by (simp add: u64_of_def unat_of_nat)

section \<open>Endian fields\<close>

text \<open>\<open>put_be k n\<close> is the \<open>k\<close>-byte big-endian field of \<open>n\<close>; \<open>get_be\<close> reads a
  field back. \<open>put_le\<close> and \<open>get_le\<close> are the little-endian pair.\<close>

primrec put_le :: "nat \<Rightarrow> nat \<Rightarrow> bytes" where
  "put_le 0 n = []"
| "put_le (Suc k) n = word_of_nat n # put_le k (n div 256)"

primrec get_le :: "bytes \<Rightarrow> nat" where
  "get_le [] = 0"
| "get_le (b # bs) = unat b + 256 * get_le bs"

definition put_be :: "nat \<Rightarrow> nat \<Rightarrow> bytes" where
  "put_be k n = rev (put_le k n)"

definition get_be :: "bytes \<Rightarrow> nat" where
  "get_be bs = get_le (rev bs)"

lemma length_put_le [len_simps, simp]: "length (put_le k n) = k"
  by (induction k arbitrary: n) auto

lemma length_put_be [len_simps, simp]: "length (put_be k n) = k"
  by (simp add: put_be_def)

lemma unat_less: "unat (w :: 'a::len word) < 2 ^ LENGTH('a)"
  by (rule unsigned_less)

lemma unat_bounds: "unat (a :: u8) < 256" "unat (b :: u16) < 65536" "unat (c :: u32) < 4294967296"
  "unat (d :: u64) < 18446744073709551616"
  using unat_less [of a] unat_less [of b] unat_less [of c] unat_less [of d] by simp_all

lemma unat_byte_of_nat: "unat (word_of_nat n :: byte) = n mod 256"
  by (simp add: unat_of_nat)

lemma get_put_le: "get_le (put_le k n) = n mod 256 ^ k"
proof (induction k arbitrary: n)
  case 0
  then show ?case by simp
next
  case (Suc k)
  have "n mod 256 ^ Suc k = 256 * (n div 256 mod 256 ^ k) + n mod 256"
    by (simp add: mod_mult2_eq)
  with Suc show ?case by (simp add: unat_byte_of_nat)
qed

lemma get_put_be: "get_be (put_be k n) = n mod 256 ^ k"
  by (simp add: get_be_def put_be_def get_put_le)

lemma get_le_less: "get_le bs < 256 ^ length bs"
proof (induction bs)
  case (Cons b bs)
  have "unat b < 256" by (rule unat_bounds)
  moreover have "get_le bs + 1 \<le> 256 ^ length bs" using Cons.IH by simp
  then have "256 * (get_le bs + 1) \<le> 256 * 256 ^ length bs" by (rule mult_le_mono2)
  ultimately show ?case by simp
qed simp

lemma put_get_le: "put_le (length bs) (get_le bs) = bs"
proof (induction bs)
  case (Cons b bs)
  have b: "unat b < 256" by (rule unat_bounds)
  have "(256 :: byte) = 0" by simp
  then have "256 * (x :: byte) = 0" for x by (simp only: mult_zero_left)
  then have "word_of_nat (unat b + 256 * get_le bs) = b" by simp
  moreover have "(unat b + 256 * get_le bs) div 256 = get_le bs" using b by simp
  ultimately show ?case using Cons by simp
qed simp

lemma put_get_be: "put_be (length bs) (get_be bs) = bs"
  using put_get_le [of "rev bs"] by (simp add: put_be_def get_be_def)

lemma get_be_less: "get_be bs < 256 ^ length bs"
  using get_le_less [of "rev bs"] by (simp add: get_be_def)

definition be16 :: "u16 \<Rightarrow> bytes" where "be16 w = put_be 2 (unat w)"
definition be32 :: "u32 \<Rightarrow> bytes" where "be32 w = put_be 4 (unat w)"
definition be64 :: "u64 \<Rightarrow> bytes" where "be64 w = put_be 8 (unat w)"
definition le32 :: "u32 \<Rightarrow> bytes" where "le32 w = put_le 4 (unat w)"
definition le64 :: "u64 \<Rightarrow> bytes" where "le64 w = put_le 8 (unat w)"
definition le16 :: "u16 \<Rightarrow> bytes" where "le16 w = put_le 2 (unat w)"

definition get16 :: "bytes \<Rightarrow> u16" where "get16 bs = word_of_nat (get_be bs)"
definition get32 :: "bytes \<Rightarrow> u32" where "get32 bs = word_of_nat (get_be bs)"
definition get64 :: "bytes \<Rightarrow> u64" where "get64 bs = word_of_nat (get_be bs)"
definition getle16 :: "bytes \<Rightarrow> u16" where "getle16 bs = word_of_nat (get_le bs)"
definition getle32 :: "bytes \<Rightarrow> u32" where "getle32 bs = word_of_nat (get_le bs)"
definition getle64 :: "bytes \<Rightarrow> u64" where "getle64 bs = word_of_nat (get_le bs)"

lemma length_fields [len_simps, simp]:
  "length (be16 a) = 2" "length (be32 b) = 4" "length (be64 c) = 8"
  "length (le16 a) = 2" "length (le32 b) = 4" "length (le64 c) = 8"
  by (simp_all add: be16_def be32_def be64_def le16_def le32_def le64_def)

lemma get_fields [codec_simps, simp]:
  "get16 (be16 a) = a" "get32 (be32 b) = b" "get64 (be64 c) = c"
  "getle16 (le16 a) = a" "getle32 (le32 b) = b" "getle64 (le64 c) = c"
  by (simp_all add: unat_bounds get16_def get32_def get64_def be16_def be32_def be64_def
      getle16_def getle32_def getle64_def le16_def le32_def le64_def get_put_be get_put_le)

lemma be_get_fields:
  "length bs = 2 \<Longrightarrow> be16 (get16 bs) = bs"
  "length bs = 4 \<Longrightarrow> be32 (get32 bs) = bs"
  "length bs = 8 \<Longrightarrow> be64 (get64 bs) = bs"
  using get_be_less [of bs] put_get_be [of bs]
  by (simp_all add: be16_def be32_def be64_def get16_def get32_def get64_def unat_of_nat)

section \<open>CRC-32\<close>

text \<open>\<open>hash/crc32\<close>: the reflected polynomials \<open>crc32.IEEE\<close> and
  \<open>crc32.Castagnoli\<close>, one byte at a time; \<open>crc32_update\<close> is
  \<open>crc32.Update(crc, table, data)\<close>.\<close>

definition IEEE :: u32 where "IEEE = 0xedb88320"
definition Castagnoli :: u32 where "Castagnoli = 0x82f63b78"

definition crc32_bit :: "u32 \<Rightarrow> u32 \<Rightarrow> u32" where
  "crc32_bit poly c = (if odd c then drop_bit 1 c XOR poly else drop_bit 1 c)"

definition crc32_byte :: "u32 \<Rightarrow> u32 \<Rightarrow> byte \<Rightarrow> u32" where
  "crc32_byte poly c b = (crc32_bit poly ^^ 8) (c XOR ucast b)"

definition crc32_update :: "u32 \<Rightarrow> u32 \<Rightarrow> bytes \<Rightarrow> u32" where
  "crc32_update poly crc bs = NOT (foldl (crc32_byte poly) (NOT crc) bs)"

definition ChecksumIEEE :: "bytes \<Rightarrow> u32" where
  "ChecksumIEEE bs = crc32_update IEEE 0 bs"

lemma crc32_update_append:
  "crc32_update poly (crc32_update poly c xs) ys = crc32_update poly c (xs @ ys)"
  by (simp add: crc32_update_def)

section \<open>In-place writes\<close>

text \<open>\<open>put_at buf pos bs\<close> is \<open>copy(buf[pos:pos+len(bs)], bs)\<close>, and also
  \<open>binary.PutUint\<close> on such a slice: the slice expression panics outside the
  buffer.\<close>

definition put_at :: "bytes \<Rightarrow> nat \<Rightarrow> bytes \<Rightarrow> bytes option" where
  "put_at buf pos bs =
     (if pos + length bs \<le> length buf
      then Some (take pos buf @ bs @ drop (pos + length bs) buf) else None)"

text \<open>A buffer whose first bytes have been written with \<open>pre\<close>.\<close>

definition written :: "bytes \<Rightarrow> bytes \<Rightarrow> bytes" where
  "written pre buf = pre @ drop (length pre) buf"

lemma put_at_first [buf_simps]:
  "length bs \<le> length buf \<Longrightarrow> put_at buf 0 bs = Some (written bs buf)"
  by (simp add: put_at_def written_def)

lemma put_at_written [buf_simps]:
  "pos = length pre \<Longrightarrow> pos + length bs \<le> length buf \<Longrightarrow>
   put_at (written pre buf) pos bs = Some (written (pre @ bs) buf)"
  by (simp add: put_at_def written_def add.commute)

lemma window_written [buf_simps]:
  "j \<le> length pre \<Longrightarrow> window (written pre buf) i j = window pre i j"
  by (simp add: written_def window_append_left)

lemma length_written [len_simps]:
  "length pre \<le> length buf \<Longrightarrow> length (written pre buf) = length buf"
  by (simp add: written_def)

lemma put_at_too_short: "length buf < pos + length bs \<Longrightarrow> put_at buf pos bs = None"
  by (simp add: put_at_def)

lemma length_put_at: "put_at buf pos bs = Some buf' \<Longrightarrow> length buf' = length buf"
  by (auto simp: put_at_def split: if_splits)

lemma put_at_take:
  "put_at buf pos bs = Some buf' \<Longrightarrow> j \<le> pos \<Longrightarrow> take j buf' = take j buf"
  by (auto simp: put_at_def min_def split: if_splits)

end
