(* ===== verification/BrokerWire.thy ===== *)
theory BrokerWire
  imports Prelude
begin

text \<open>
  The broker's wire format (\<open>src/pkg/broker/protocol/protocol.go\<close> and
  \<open>offset.go\<close>): length-prefixed frames with a CRC-32 trailer, the request and
  response bodies, and the packed batch of messages that one frame can carry.

  A frame buffer passed to an encoder is the list of its bytes; the encoders
  write it in place, field by field, and return the written prefix, or \<open>None\<close>
  when a slice expression panics because the buffer is too short. A decoder's
  result is \<open>Inl\<close> of an error; the error \<open>Panic\<close> is Go's run-time panic of an
  out-of-range slice expression. A stream (\<open>io.Reader\<close>) is the list of bytes
  still to be read, a connection the list of chunks its successive \<open>Read\<close> calls
  deliver, the empty list being end of file.
\<close>

section \<open>Commands and frames\<close>

definition CmdProduce :: u16 where "CmdProduce = 1"
definition CmdFetch :: u16 where "CmdFetch = 2"
definition CmdProduceBatch :: u16 where "CmdProduceBatch = 3"
definition CmdRegisterTopic :: u16 where "CmdRegisterTopic = 4"
definition CmdCommitOffset :: u16 where "CmdCommitOffset = 5"
definition CmdCommittedOffset :: u16 where "CmdCommittedOffset = 6"
definition CmdProduceResp :: u16 where "CmdProduceResp = 101"
definition CmdFetchResp :: u16 where "CmdFetchResp = 102"
definition CmdProduceBatchResp :: u16 where "CmdProduceBatchResp = 103"
definition CmdRegisterTopicResp :: u16 where "CmdRegisterTopicResp = 104"
definition CmdCommitOffsetResp :: u16 where "CmdCommitOffsetResp = 105"
definition CmdCommittedOffsetResp :: u16 where "CmdCommittedOffsetResp = 106"

definition FetchRespMetaLen :: nat where "FetchRespMetaLen = 13"
definition ProduceBatchRespMetaLen :: nat where "ProduceBatchRespMetaLen = 13"
definition CommitOffsetRespMetaLen :: nat where "CommitOffsetRespMetaLen = 9"
definition CommittedOffsetRespMetaLen :: nat where "CommittedOffsetRespMetaLen = 9"

text \<open>The commands \<open>parseFrame\<close> lets through.\<close>

definition known_cmd :: "u16 \<Rightarrow> bool" where
  "known_cmd cmd \<longleftrightarrow>
     cmd \<in> {CmdProduce, CmdFetch, CmdProduceBatch, CmdRegisterTopic,
            CmdCommitOffset, CmdCommittedOffset,
            CmdProduceResp, CmdFetchResp, CmdProduceBatchResp, CmdRegisterTopicResp,
            CmdCommitOffsetResp, CmdCommittedOffsetResp}"

lemmas cmd_defs = CmdProduce_def CmdFetch_def CmdProduceBatch_def CmdRegisterTopic_def
  CmdCommitOffset_def CmdCommittedOffset_def CmdProduceResp_def CmdFetchResp_def
  CmdProduceBatchResp_def CmdRegisterTopicResp_def CmdCommitOffsetResp_def
  CmdCommittedOffsetResp_def

datatype proto_error =
    FrameTooShort | ChecksumMismatch | UnknownCommand | BufferTooSmall
  | EndOfFile | UnexpectedEOF | Malformed | LengthOutOfBounds | Panic

definition parseFrame :: "bytes \<Rightarrow> u32 \<Rightarrow> proto_error + (u16 \<times> u64 \<times> bytes)" where
  "parseFrame readBuf len =
     (if unat len < 14 then Inl FrameTooShort
      else let cmd = get16 (window readBuf 0 2);
               seq = get64 (window readBuf 2 10);
               payload = window readBuf 10 (unat len - 4);
               expected = get32 (window readBuf (unat len - 4) (unat len));
               calculated = ChecksumIEEE payload
           in if calculated \<noteq> expected then Inl ChecksumMismatch
              else if \<not> known_cmd cmd then Inl UnknownCommand
              else Inr (cmd, seq, payload))"

text \<open>\<open>io.ReadFull\<close> of \<open>n\<close> bytes.\<close>

definition ReadFull :: "nat \<Rightarrow> bytes \<Rightarrow> proto_error + (bytes \<times> bytes)" where
  "ReadFull n s =
     (if n \<le> length s then Inr (take n s, drop n s)
      else if s = [] then Inl EndOfFile else Inl UnexpectedEOF)"

text \<open>\<open>buf\<close> is the caller's scratch buffer; only its length matters.\<close>

definition ReadFrame ::
  "bytes \<Rightarrow> nat \<Rightarrow> proto_error + ((u16 \<times> u64 \<times> bytes) \<times> bytes)" where
  "ReadFrame r buflen =
     (case ReadFull 4 r of Inl e \<Rightarrow> Inl e
      | Inr (lenBuf, r1) \<Rightarrow>
          (let len = get32 lenBuf in
           if buflen < unat len then Inl BufferTooSmall
           else case ReadFull (unat len) r1 of Inl e \<Rightarrow> Inl e
                | Inr (readBuf, r2) \<Rightarrow>
                    (case parseFrame readBuf len of Inl e \<Rightarrow> Inl e | Inr f \<Rightarrow> Inr (f, r2))))"

text \<open>The read loop over a connection: a chunk may end anywhere, a \<open>Read\<close> that
  returns no bytes is an unexpected end.\<close>

fun readFullTCPLoop :: "nat \<Rightarrow> bytes list \<Rightarrow> proto_error + (bytes \<times> bytes list)" where
  "readFullTCPLoop 0 conn = Inr ([], conn)"
| "readFullTCPLoop (Suc k) [] = Inl UnexpectedEOF"
| "readFullTCPLoop (Suc k) ([] # cs) = Inl UnexpectedEOF"
| "readFullTCPLoop (Suc k) ((b # c) # cs) =
     (let nn = min (Suc k) (length (b # c));
          conn' = (if nn < length (b # c) then drop nn (b # c) # cs else cs)
      in case readFullTCPLoop (Suc k - nn) conn' of Inl e \<Rightarrow> Inl e
         | Inr (got, conn'') \<Rightarrow> Inr (take nn (b # c) @ got, conn''))"

definition ReadFrameTCP ::
  "bytes list \<Rightarrow> nat \<Rightarrow> proto_error + ((u16 \<times> u64 \<times> bytes) \<times> bytes list)" where
  "ReadFrameTCP c buflen =
     (case readFullTCPLoop 4 c of Inl e \<Rightarrow> Inl e
      | Inr (lenBuf, c1) \<Rightarrow>
          (let len = get32 lenBuf in
           if buflen < unat len then Inl BufferTooSmall
           else case readFullTCPLoop (unat len) c1 of Inl e \<Rightarrow> Inl e
                | Inr (readBuf, c2) \<Rightarrow>
                    (case parseFrame readBuf len of Inl e \<Rightarrow> Inl e | Inr f \<Rightarrow> Inr (f, c2))))"

text \<open>The buffered reader runs the same loop over the chunks \<open>bufio\<close> hands out.\<close>

definition readFullBufio :: "nat \<Rightarrow> bytes list \<Rightarrow> proto_error + (bytes \<times> bytes list)" where
  "readFullBufio n br = readFullTCPLoop n br"

definition ReadFrameBufio ::
  "bytes list \<Rightarrow> nat \<Rightarrow> proto_error + ((u16 \<times> u64 \<times> bytes) \<times> bytes list)" where
  "ReadFrameBufio br buflen =
     (case readFullBufio 4 br of Inl e \<Rightarrow> Inl e
      | Inr (lenBuf, b1) \<Rightarrow>
          (let len = get32 lenBuf in
           if buflen < unat len then Inl BufferTooSmall
           else case readFullBufio (unat len) b1 of Inl e \<Rightarrow> Inl e
                | Inr (readBuf, b2) \<Rightarrow>
                    (case parseFrame readBuf len of Inl e \<Rightarrow> Inl e | Inr f \<Rightarrow> Inr (f, b2))))"

section \<open>Request encoders\<close>

definition EncodeProduceRequest ::
  "bytes \<Rightarrow> u64 \<Rightarrow> bytes \<Rightarrow> u16 \<Rightarrow> bytes \<Rightarrow> bytes option" where
  "EncodeProduceRequest buf seq topic part payload =
     (let topicLen = length topic;
          payloadLen = length payload;
          framePayloadLen = 2 + topicLen + 2 + payloadLen;
          totalLen = u32_of (2 + 8 + framePayloadLen + 4)
      in do {
        b1 \<leftarrow> put_at buf 0 (be32 totalLen);
        b2 \<leftarrow> put_at b1 4 (be16 CmdProduce);
        b3 \<leftarrow> put_at b2 6 (be64 seq);
        b4 \<leftarrow> put_at b3 14 (be16 (u16_of topicLen));
        b5 \<leftarrow> put_at b4 16 topic;
        b6 \<leftarrow> put_at b5 (16 + topicLen) (be16 part);
        b7 \<leftarrow> put_at b6 (16 + topicLen + 2) payload;
        payloadSlice \<leftarrow> go_slice b7 14 (14 + framePayloadLen);
        b8 \<leftarrow> put_at b7 (14 + framePayloadLen) (be32 (ChecksumIEEE payloadSlice));
        go_slice b8 0 (4 + 2 + 8 + framePayloadLen + 4)
      })"

definition EncodeFetchRequest ::
  "bytes \<Rightarrow> u64 \<Rightarrow> bytes \<Rightarrow> u16 \<Rightarrow> u64 \<Rightarrow> u32 \<Rightarrow> bytes option" where
  "EncodeFetchRequest buf seq topic part startOffset maxBytes =
     (let topicLen = length topic;
          framePayloadLen = 2 + topicLen + 2 + 8 + 4;
          totalLen = u32_of (2 + 8 + framePayloadLen + 4)
      in do {
        b1 \<leftarrow> put_at buf 0 (be32 totalLen);
        b2 \<leftarrow> put_at b1 4 (be16 CmdFetch);
        b3 \<leftarrow> put_at b2 6 (be64 seq);
        b4 \<leftarrow> put_at b3 14 (be16 (u16_of topicLen));
        b5 \<leftarrow> put_at b4 16 topic;
        b6 \<leftarrow> put_at b5 (16 + topicLen) (be16 part);
        b7 \<leftarrow> put_at b6 (16 + topicLen + 2) (be64 startOffset);
        b8 \<leftarrow> put_at b7 (16 + topicLen + 10) (be32 maxBytes);
        payloadSlice \<leftarrow> go_slice b8 14 (14 + framePayloadLen);
        b9 \<leftarrow> put_at b8 (14 + framePayloadLen) (be32 (ChecksumIEEE payloadSlice));
        go_slice b9 0 (4 + 2 + 8 + framePayloadLen + 4)
      })"

definition EncodeRegisterTopicRequest :: "bytes \<Rightarrow> u64 \<Rightarrow> bytes \<Rightarrow> bytes option" where
  "EncodeRegisterTopicRequest buf seq topic =
     (let topicLen = length topic;
          framePayloadLen = 2 + topicLen;
          totalLen = u32_of (2 + 8 + framePayloadLen + 4)
      in do {
        b1 \<leftarrow> put_at buf 0 (be32 totalLen);
        b2 \<leftarrow> put_at b1 4 (be16 CmdRegisterTopic);
        b3 \<leftarrow> put_at b2 6 (be64 seq);
        b4 \<leftarrow> put_at b3 14 (be16 (u16_of topicLen));
        b5 \<leftarrow> put_at b4 16 topic;
        payloadSlice \<leftarrow> go_slice b5 14 (14 + framePayloadLen);
        b6 \<leftarrow> put_at b5 (14 + framePayloadLen) (be32 (ChecksumIEEE payloadSlice));
        go_slice b6 0 (4 + 2 + 8 + framePayloadLen + 4)
      })"

definition EncodeProduceBatchRequest :: "bytes \<Rightarrow> u64 \<Rightarrow> bytes \<Rightarrow> bytes option" where
  "EncodeProduceBatchRequest buf seq batchPayload =
     (let framePayloadLen = length batchPayload;
          totalLen = u32_of (2 + 8 + framePayloadLen + 4)
      in do {
        b1 \<leftarrow> put_at buf 0 (be32 totalLen);
        b2 \<leftarrow> put_at b1 4 (be16 CmdProduceBatch);
        b3 \<leftarrow> put_at b2 6 (be64 seq);
        b4 \<leftarrow> put_at b3 14 batchPayload;
        payloadSlice \<leftarrow> go_slice b4 14 (14 + framePayloadLen);
        b5 \<leftarrow> put_at b4 (14 + framePayloadLen) (be32 (ChecksumIEEE payloadSlice));
        go_slice b5 0 (4 + 2 + 8 + framePayloadLen + 4)
      })"

definition EncodeCommitOffsetRequest ::
  "bytes \<Rightarrow> u64 \<Rightarrow> bytes \<Rightarrow> u16 \<Rightarrow> bytes \<Rightarrow> u64 \<Rightarrow> bytes option" where
  "EncodeCommitOffsetRequest buf seq topic part grp offset =
     (let framePayloadLen = 2 + length topic + 2 + 2 + length grp + 8;
          totalLen = u32_of (2 + 8 + framePayloadLen + 4);
          pos = 16 + length topic
      in do {
        b1 \<leftarrow> put_at buf 0 (be32 totalLen);
        b2 \<leftarrow> put_at b1 4 (be16 CmdCommitOffset);
        b3 \<leftarrow> put_at b2 6 (be64 seq);
        b4 \<leftarrow> put_at b3 14 (be16 (u16_of (length topic)));
        b5 \<leftarrow> put_at b4 16 topic;
        b6 \<leftarrow> put_at b5 pos (be16 part);
        b7 \<leftarrow> put_at b6 (pos + 2) (be16 (u16_of (length grp)));
        b8 \<leftarrow> put_at b7 (pos + 4) grp;
        b9 \<leftarrow> put_at b8 (pos + 4 + length grp) (be64 offset);
        payloadSlice \<leftarrow> go_slice b9 14 (14 + framePayloadLen);
        b10 \<leftarrow> put_at b9 (14 + framePayloadLen) (be32 (ChecksumIEEE payloadSlice));
        go_slice b10 0 (4 + 2 + 8 + framePayloadLen + 4)
      })"

definition EncodeCommittedOffsetRequest ::
  "bytes \<Rightarrow> u64 \<Rightarrow> bytes \<Rightarrow> u16 \<Rightarrow> bytes \<Rightarrow> bytes option" where
  "EncodeCommittedOffsetRequest buf seq topic part grp =
     (let framePayloadLen = 2 + length topic + 2 + 2 + length grp;
          totalLen = u32_of (2 + 8 + framePayloadLen + 4);
          pos = 16 + length topic
      in do {
        b1 \<leftarrow> put_at buf 0 (be32 totalLen);
        b2 \<leftarrow> put_at b1 4 (be16 CmdCommittedOffset);
        b3 \<leftarrow> put_at b2 6 (be64 seq);
        b4 \<leftarrow> put_at b3 14 (be16 (u16_of (length topic)));
        b5 \<leftarrow> put_at b4 16 topic;
        b6 \<leftarrow> put_at b5 pos (be16 part);
        b7 \<leftarrow> put_at b6 (pos + 2) (be16 (u16_of (length grp)));
        b8 \<leftarrow> put_at b7 (pos + 4) grp;
        payloadSlice \<leftarrow> go_slice b8 14 (14 + framePayloadLen);
        b9 \<leftarrow> put_at b8 (14 + framePayloadLen) (be32 (ChecksumIEEE payloadSlice));
        go_slice b9 0 (4 + 2 + 8 + framePayloadLen + 4)
      })"

section \<open>Response encoders\<close>

definition EncodeProduceResponse :: "bytes \<Rightarrow> u64 \<Rightarrow> byte \<Rightarrow> u64 \<Rightarrow> bytes option" where
  "EncodeProduceResponse buf seq status offset =
     do {
       b1 \<leftarrow> put_at buf 0 (be32 23);
       b2 \<leftarrow> put_at b1 4 (be16 CmdProduceResp);
       b3 \<leftarrow> put_at b2 6 (be64 seq);
       b4 \<leftarrow> put_at b3 14 [status];
       b5 \<leftarrow> put_at b4 15 (be64 offset);
       body \<leftarrow> go_slice b5 14 23;
       b6 \<leftarrow> put_at b5 23 (be32 (ChecksumIEEE body));
       go_slice b6 0 27
     }"

definition EncodeFetchResponseHeader ::
  "bytes \<Rightarrow> u64 \<Rightarrow> byte \<Rightarrow> u32 \<Rightarrow> u32 \<Rightarrow> u64 \<Rightarrow> bytes option" where
  "EncodeFetchResponseHeader headerBuf seq status msgCount msgBytes highWatermark =
     (let totalLen = 2 + 8 + u32_of FetchRespMetaLen + msgBytes + 4
      in do {
        b1 \<leftarrow> put_at headerBuf 0 (be32 totalLen);
        b2 \<leftarrow> put_at b1 4 (be16 CmdFetchResp);
        b3 \<leftarrow> put_at b2 6 (be64 seq);
        b4 \<leftarrow> put_at b3 14 [status];
        b5 \<leftarrow> put_at b4 15 (be32 msgCount);
        b6 \<leftarrow> put_at b5 19 (be64 highWatermark);
        go_slice b6 0 27
      })"

definition EncodeFetchResponse ::
  "bytes \<Rightarrow> u64 \<Rightarrow> byte \<Rightarrow> u32 \<Rightarrow> u32 \<Rightarrow> u64 \<Rightarrow> bytes \<Rightarrow> bytes option" where
  "EncodeFetchResponse frameBuf seq status msgCount msgBytes highWatermark data =
     (let payloadLen = FetchRespMetaLen + length data;
          totalLen = u32_of (2 + 8 + payloadLen + 4)
      in do {
        b1 \<leftarrow> put_at frameBuf 0 (be32 totalLen);
        b2 \<leftarrow> put_at b1 4 (be16 CmdFetchResp);
        b3 \<leftarrow> put_at b2 6 (be64 seq);
        b4 \<leftarrow> put_at b3 14 [status];
        b5 \<leftarrow> put_at b4 15 (be32 msgCount);
        b6 \<leftarrow> put_at b5 19 (be64 highWatermark);
        b7 \<leftarrow> (if data \<noteq> [] then put_at b6 27 data else Some b6);
        meta \<leftarrow> go_slice b7 14 27;
        checksum \<leftarrow> Some (if data \<noteq> [] then crc32_update IEEE (ChecksumIEEE meta) data
                          else ChecksumIEEE meta);
        b8 \<leftarrow> put_at b7 (14 + payloadLen) (be32 checksum);
        go_slice b8 0 (unat (4 + totalLen))
      })"

definition EncodeProduceBatchResponse ::
  "bytes \<Rightarrow> u64 \<Rightarrow> byte \<Rightarrow> u64 \<Rightarrow> u32 \<Rightarrow> bytes option" where
  "EncodeProduceBatchResponse buf seq status offset committedCount =
     (let payloadLen = ProduceBatchRespMetaLen;
          totalLen = u32_of (2 + 8 + payloadLen + 4)
      in do {
        b1 \<leftarrow> put_at buf 0 (be32 totalLen);
        b2 \<leftarrow> put_at b1 4 (be16 CmdProduceBatchResp);
        b3 \<leftarrow> put_at b2 6 (be64 seq);
        b4 \<leftarrow> put_at b3 14 [status];
        b5 \<leftarrow> put_at b4 15 (be64 offset);
        b6 \<leftarrow> put_at b5 23 (be32 committedCount);
        body \<leftarrow> go_slice b6 14 (14 + payloadLen);
        b7 \<leftarrow> put_at b6 27 (be32 (ChecksumIEEE body));
        go_slice b7 0 31
      })"

definition EncodeRegisterTopicResponse :: "bytes \<Rightarrow> u64 \<Rightarrow> byte \<Rightarrow> u16 \<Rightarrow> bytes option" where
  "EncodeRegisterTopicResponse buf seq status topicID =
     do {
       b1 \<leftarrow> put_at buf 0 (be32 17);
       b2 \<leftarrow> put_at b1 4 (be16 CmdRegisterTopicResp);
       b3 \<leftarrow> put_at b2 6 (be64 seq);
       b4 \<leftarrow> put_at b3 14 [status];
       b5 \<leftarrow> put_at b4 15 (be16 topicID);
       body \<leftarrow> go_slice b5 14 17;
       b6 \<leftarrow> put_at b5 17 (be32 (ChecksumIEEE body));
       go_slice b6 0 21
     }"

text \<open>\<open>EncodeCommitOffsetResponse\<close> and \<open>EncodeCommittedOffsetResponse\<close> differ in
  their command only.\<close>

definition EncodeOffsetResponse :: "u16 \<Rightarrow> bytes \<Rightarrow> u64 \<Rightarrow> byte \<Rightarrow> u64 \<Rightarrow> bytes option" where
  "EncodeOffsetResponse cmd buf seq status offset =
     do {
       b1 \<leftarrow> put_at buf 0 (be32 23);
       b2 \<leftarrow> put_at b1 4 (be16 cmd);
       b3 \<leftarrow> put_at b2 6 (be64 seq);
       b4 \<leftarrow> put_at b3 14 [status];
       b5 \<leftarrow> put_at b4 15 (be64 offset);
       body \<leftarrow> go_slice b5 14 23;
       b6 \<leftarrow> put_at b5 23 (be32 (ChecksumIEEE body));
       go_slice b6 0 27
     }"

definition EncodeCommitOffsetResponse :: "bytes \<Rightarrow> u64 \<Rightarrow> byte \<Rightarrow> u64 \<Rightarrow> bytes option" where
  "EncodeCommitOffsetResponse = EncodeOffsetResponse CmdCommitOffsetResp"

definition EncodeCommittedOffsetResponse :: "bytes \<Rightarrow> u64 \<Rightarrow> byte \<Rightarrow> u64 \<Rightarrow> bytes option" where
  "EncodeCommittedOffsetResponse = EncodeOffsetResponse CmdCommittedOffsetResp"

section \<open>Decoders\<close>

text \<open>In \<open>DecodeProduceRequest\<close> the slice bounds \<open>2+topicLen\<close> are computed in
  \<open>uint16\<close>, so they wrap; the guard above them is computed in \<open>int\<close>.\<close>

definition DecodeProduceRequest :: "bytes \<Rightarrow> proto_error + (bytes \<times> u16 \<times> bytes)" where
  "DecodeProduceRequest payload =
     (if length payload < 4 then Inl Malformed
      else let topicLen = get16 (window payload 0 2)
           in if length payload < 2 + unat topicLen + 2 then Inl LengthOutOfBounds
              else case go_slice payload 2 (unat (2 + topicLen)) of None \<Rightarrow> Inl Panic
                   | Some topic \<Rightarrow>
                       (case go_slice payload (unat (2 + topicLen)) (unat (2 + topicLen + 2)) of
                          None \<Rightarrow> Inl Panic
                        | Some p \<Rightarrow>
                            (case go_slice payload (unat (2 + topicLen + 2)) (length payload) of
                               None \<Rightarrow> Inl Panic
                             | Some msgPayload \<Rightarrow> Inr (topic, get16 p, msgPayload))))"

definition DecodeFetchRequest :: "bytes \<Rightarrow> proto_error + (bytes \<times> u16 \<times> u64 \<times> u32)" where
  "DecodeFetchRequest payload =
     (if length payload < 16 then Inl Malformed
      else let topicLen = get16 (window payload 0 2)
           in if length payload < 2 + unat topicLen + 2 + 12 then Inl LengthOutOfBounds
              else case go_slice payload 2 (unat (2 + topicLen)) of None \<Rightarrow> Inl Panic
                   | Some topic \<Rightarrow>
                       (let pos = 2 + unat topicLen;
                            part = get16 (window payload pos (pos + 2));
                            pos2 = pos + 2;
                            offset = get64 (window payload pos2 (pos2 + 8));
                            maxBytes = get32 (window payload (pos2 + 8) (pos2 + 12))
                        in Inr (topic, part, offset, maxBytes)))"

definition DecodeRegisterTopicRequest :: "bytes \<Rightarrow> proto_error + bytes" where
  "DecodeRegisterTopicRequest payload =
     (if length payload < 2 then Inl Malformed
      else let topicLen = get16 (window payload 0 2)
           in if length payload < 2 + unat topicLen then Inl LengthOutOfBounds
              else case go_slice payload 2 (unat (2 + topicLen)) of None \<Rightarrow> Inl Panic
                   | Some topic \<Rightarrow> Inr topic)"

definition DecodeFetchResponseMeta :: "bytes \<Rightarrow> proto_error + (byte \<times> u32 \<times> u64)" where
  "DecodeFetchResponseMeta payload =
     (if length payload < FetchRespMetaLen then Inl Malformed
      else Inr (payload ! 0, get32 (window payload 1 5), get64 (window payload 5 13)))"

definition DecodeProduceBatchResponse :: "bytes \<Rightarrow> proto_error + (byte \<times> u64 \<times> u32)" where
  "DecodeProduceBatchResponse payload =
     (if length payload < ProduceBatchRespMetaLen then Inl Malformed
      else Inr (payload ! 0, get64 (window payload 1 9), get32 (window payload 9 13)))"

definition DecodeRegisterTopicResponse :: "bytes \<Rightarrow> proto_error + (byte \<times> u16)" where
  "DecodeRegisterTopicResponse payload =
     (if length payload < 3 then Inl Malformed
      else Inr (payload ! 0, get16 (window payload 1 3)))"

definition DecodeOffsetKeyRequest :: "bytes \<Rightarrow> proto_error + (bytes \<times> u16 \<times> bytes)" where
  "DecodeOffsetKeyRequest payload =
     (if length payload < 6 then Inl Malformed
      else let topicLen = unat (get16 (window payload 0 2))
           in if length payload < 2 + topicLen + 2 + 2 then Inl LengthOutOfBounds
              else let topic = window payload 2 (2 + topicLen);
                       pos = 2 + topicLen;
                       part = get16 (window payload pos (pos + 2));
                       groupLen = unat (get16 (window payload (pos + 2) (pos + 4)))
                   in if length payload < pos + 4 + groupLen then Inl LengthOutOfBounds
                      else Inr (topic, part, window payload (pos + 4) (pos + 4 + groupLen)))"

definition DecodeCommitOffsetRequest ::
  "bytes \<Rightarrow> proto_error + (bytes \<times> u16 \<times> bytes \<times> u64)" where
  "DecodeCommitOffsetRequest payload =
     (case DecodeOffsetKeyRequest payload of Inl e \<Rightarrow> Inl e
      | Inr (topic, part, grp) \<Rightarrow>
          (let keyLen = 2 + length topic + 2 + 2 + length grp
           in if length payload < keyLen + 8 then Inl Malformed
              else Inr (topic, part, grp, get64 (window payload keyLen (keyLen + 8)))))"

definition DecodeCommitOffsetResponse :: "bytes \<Rightarrow> proto_error + (byte \<times> u64)" where
  "DecodeCommitOffsetResponse payload =
     (if length payload < CommitOffsetRespMetaLen then Inl Malformed
      else Inr (payload ! 0, get64 (window payload 1 9)))"

definition DecodeCommittedOffsetResponse :: "bytes \<Rightarrow> proto_error + (byte \<times> u64)" where
  "DecodeCommittedOffsetResponse payload =
     (if length payload < CommittedOffsetRespMetaLen then Inl Malformed
      else Inr (payload ! 0, get64 (window payload 1 9)))"

section \<open>Batches\<close>

text \<open>
  A batch packs messages behind 8-byte headers laid out by the compiler for
  \<open>BatchMsgHeader\<close>: the topic id in bytes 0 and 1, two bytes of padding that are
  never written, the payload length in bytes 4 to 7, little-endian on the
  platforms the broker runs on. \<open>AppendBatchMessage\<close> takes the slice's bytes and
  the spare capacity behind them.
\<close>

definition AppendBatchMessage :: "bytes \<times> bytes \<Rightarrow> u16 \<Rightarrow> bytes \<Rightarrow> bytes \<times> bytes" where
  "AppendBatchMessage sl topicID payload =
     (let (buf, spare) = sl;
          start = length buf;
          newLen = start + 8 + length payload;
          grown = (if start + length spare < newLen
                   then (buf @ replicate (8 + length payload) 0, replicate newLen 0)
                   else (buf @ take (8 + length payload) spare,
                         drop (8 + length payload) spare));
          region = drop start (fst grown);
          hdr = le16 topicID @ take 2 (drop 2 region) @ le32 (u32_of (length payload))
      in (take start (fst grown) @ hdr @ payload, snd grown))"

record batch_iter =
  it_rest :: bytes
  it_topic :: u16
  it_payload :: bytes

definition NewBatchIterator :: "bytes \<Rightarrow> batch_iter" where
  "NewBatchIterator payload = \<lparr>it_rest = payload, it_topic = 0, it_payload = []\<rparr>"

text \<open>\<open>it_rest\<close> is the memory between the iterator's \<open>ptr\<close> and \<open>end\<close>.\<close>

definition iter_Next :: "batch_iter \<Rightarrow> bool \<times> batch_iter" where
  "iter_Next it =
     (if it_rest it = [] then (False, it)
      else let remaining = length (it_rest it)
           in if remaining < 8 then (False, it\<lparr>it_rest := []\<rparr>)
              else let payloadLen = unat (getle32 (window (it_rest it) 4 8));
                       totalSize = 8 + payloadLen
                   in if remaining < totalSize then (False, it\<lparr>it_rest := []\<rparr>)
                      else (True, \<lparr>it_rest = drop totalSize (it_rest it),
                                   it_topic = getle16 (window (it_rest it) 0 2),
                                   it_payload = window (it_rest it) 8 totalSize\<rparr>))"

lemma iter_Next_less:
  "iter_Next it = (True, it') \<Longrightarrow> length (it_rest it') < length (it_rest it)"
  by (auto simp: iter_Next_def Let_def split: if_splits)

text \<open>The consumer's loop \<open>for it.Next() { ... }\<close>, collecting what it sees.\<close>

function iter_all :: "batch_iter \<Rightarrow> (u16 \<times> bytes) list" where
  "iter_all it =
     (case iter_Next it of (False, _) \<Rightarrow> []
      | (True, it') \<Rightarrow> (it_topic it', it_payload it') # iter_all it')"
  by pat_completeness auto
termination
  by (relation "measure (\<lambda>it. length (it_rest it))") (auto dest: iter_Next_less [OF sym])

declare iter_all.simps [simp del]

section \<open>Frames are what parseFrame accepts\<close>

definition frame_bytes :: "u16 \<Rightarrow> u64 \<Rightarrow> bytes \<Rightarrow> bytes" where
  "frame_bytes cmd seq payload = be16 cmd @ be64 seq @ payload @ be32 (ChecksumIEEE payload)"

lemma length_frame_bytes [len_simps]: "length (frame_bytes cmd seq p) = 14 + length p"
  by (simp add: frame_bytes_def)

lemma window_frame_bytes:
  "window (frame_bytes cmd seq p) 0 2 = be16 cmd"
  "window (frame_bytes cmd seq p) 2 10 = be64 seq"
  "window (frame_bytes cmd seq p) 10 (10 + length p) = p"
  "window (frame_bytes cmd seq p) (10 + length p) (14 + length p) = be32 (ChecksumIEEE p)"
  by (simp_all add: frame_bytes_def window_def)

lemma parseFrame_frame_bytes:
  assumes "known_cmd cmd" and "unat len = 14 + length p"
  shows "parseFrame (frame_bytes cmd seq p) len = Inr (cmd, seq, p)"
  using assms by (simp add: parseFrame_def window_frame_bytes Let_def)

lemma parseFrame_iff:
  assumes "length b = unat len"
  shows "parseFrame b len = Inr (cmd, seq, p) \<longleftrightarrow> known_cmd cmd \<and> b = frame_bytes cmd seq p"
proof
  assume ok: "parseFrame b len = Inr (cmd, seq, p)"
  then have l: "14 \<le> length b" and c: "cmd = get16 (window b 0 2)"
    and s: "seq = get64 (window b 2 10)" and p: "p = window b 10 (length b - 4)"
    and k: "get32 (window b (length b - 4) (length b)) = ChecksumIEEE p" and "known_cmd cmd"
    using assms by (auto simp: parseFrame_def Let_def split: if_splits)
  have "b = window b 0 2 @ window b 2 10 @ window b 10 (length b - 4)
             @ window b (length b - 4) (length b)"
    using l by (simp add: window_join window_whole)
  moreover have "be16 cmd = window b 0 2" "be64 seq = window b 2 10"
    "be32 (ChecksumIEEE p) = window b (length b - 4) (length b)"
    unfolding c s k [symmetric] using l by (simp_all add: be_get_fields len_simps)
  ultimately have "b = be16 cmd @ be64 seq @ p @ be32 (ChecksumIEEE p)"
    using p by simp
  then show "known_cmd cmd \<and> b = frame_bytes cmd seq p"
    using \<open>known_cmd cmd\<close> by (simp add: frame_bytes_def)
next
  assume r: "known_cmd cmd \<and> b = frame_bytes cmd seq p"
  then have "unat len = 14 + length p" using assms by (simp add: len_simps)
  then show "parseFrame b len = Inr (cmd, seq, p)" using r parseFrame_frame_bytes by simp
qed

lemma ReadFull_append: "length xs = n \<Longrightarrow> ReadFull n (xs @ ys) = Inr (xs, ys)"
  by (simp add: ReadFull_def)

definition frame :: "u16 \<Rightarrow> u64 \<Rightarrow> bytes \<Rightarrow> bytes" where
  "frame cmd seq payload = be32 (u32_of (14 + length payload)) @ frame_bytes cmd seq payload"

lemma ReadFrame_frame:
  assumes "known_cmd cmd" and "14 + length p < 2 ^ 32" and "14 + length p \<le> buflen"
  shows "ReadFrame (frame cmd seq p @ rest) buflen = Inr ((cmd, seq, p), rest)"
proof -
  have "unat (u32_of (14 + length p)) = 14 + length p" using assms(2) by simp
  with assms show ?thesis
    by (simp add: ReadFrame_def frame_def ReadFull_append parseFrame_frame_bytes Let_def len_simps)
qed


section \<open>The encoders write frames\<close>

definition produce_body :: "bytes \<Rightarrow> u16 \<Rightarrow> bytes \<Rightarrow> bytes" where
  "produce_body topic part payload = be16 (u16_of (length topic)) @ topic @ be16 part @ payload"

definition fetch_body :: "bytes \<Rightarrow> u16 \<Rightarrow> u64 \<Rightarrow> u32 \<Rightarrow> bytes" where
  "fetch_body topic part off maxBytes =
     be16 (u16_of (length topic)) @ topic @ be16 part @ be64 off @ be32 maxBytes"

definition topic_body :: "bytes \<Rightarrow> bytes" where
  "topic_body topic = be16 (u16_of (length topic)) @ topic"

definition offset_body :: "bytes \<Rightarrow> u16 \<Rightarrow> bytes \<Rightarrow> bytes" where
  "offset_body topic part grp =
     be16 (u16_of (length topic)) @ topic @ be16 part @ be16 (u16_of (length grp)) @ grp"

lemmas body_defs = produce_body_def fetch_body_def topic_body_def offset_body_def


lemma EncodeProduceRequest_eq:
  assumes "22 + length topic + length payload \<le> length buf"
  shows "EncodeProduceRequest buf seq topic part payload
           = Some (frame CmdProduce seq (produce_body topic part payload))"
  using assms
  by (simp add: EncodeProduceRequest_def Let_def buf_simps len_simps)
    (simp add: window_def frame_def frame_bytes_def produce_body_def)

lemma EncodeFetchRequest_eq:
  assumes "34 + length topic \<le> length buf"
  shows "EncodeFetchRequest buf seq topic part off maxBytes
           = Some (frame CmdFetch seq (fetch_body topic part off maxBytes))"
  using assms
  by (simp add: EncodeFetchRequest_def Let_def buf_simps len_simps)
    (simp add: window_def frame_def frame_bytes_def fetch_body_def)

lemma EncodeRegisterTopicRequest_eq:
  assumes "20 + length topic \<le> length buf"
  shows "EncodeRegisterTopicRequest buf seq topic
           = Some (frame CmdRegisterTopic seq (topic_body topic))"
  using assms
  by (simp add: EncodeRegisterTopicRequest_def Let_def buf_simps len_simps)
    (simp add: window_def frame_def frame_bytes_def topic_body_def)

lemma EncodeProduceBatchRequest_eq:
  assumes "18 + length batch \<le> length buf"
  shows "EncodeProduceBatchRequest buf seq batch = Some (frame CmdProduceBatch seq batch)"
  using assms
  by (simp add: EncodeProduceBatchRequest_def Let_def buf_simps len_simps)
    (simp add: window_def frame_def frame_bytes_def)

lemma EncodeCommitOffsetRequest_eq:
  assumes "32 + length topic + length grp \<le> length buf"
  shows "EncodeCommitOffsetRequest buf seq topic part grp off
           = Some (frame CmdCommitOffset seq (offset_body topic part grp @ be64 off))"
  using assms
  by (simp add: EncodeCommitOffsetRequest_def Let_def buf_simps len_simps)
    (simp add: window_def frame_def frame_bytes_def offset_body_def)

lemma EncodeCommittedOffsetRequest_eq:
  assumes "24 + length topic + length grp \<le> length buf"
  shows "EncodeCommittedOffsetRequest buf seq topic part grp
           = Some (frame CmdCommittedOffset seq (offset_body topic part grp))"
  using assms
  by (simp add: EncodeCommittedOffsetRequest_def Let_def buf_simps len_simps)
    (simp add: window_def frame_def frame_bytes_def offset_body_def)

lemma EncodeOffsetResponse_eq:
  assumes "27 \<le> length buf"
  shows "EncodeOffsetResponse cmd buf seq status off = Some (frame cmd seq (status # be64 off))"
  using assms
  by (simp add: EncodeOffsetResponse_def Let_def buf_simps len_simps)
    (simp add: window_def frame_def frame_bytes_def u32_of_def)

lemma EncodeProduceResponse_eq:
  assumes "27 \<le> length buf"
  shows "EncodeProduceResponse buf seq status off
           = Some (frame CmdProduceResp seq (status # be64 off))"
  using assms
  by (simp add: EncodeProduceResponse_def Let_def buf_simps len_simps)
    (simp add: window_def frame_def frame_bytes_def u32_of_def)

lemma EncodeRegisterTopicResponse_eq:
  assumes "21 \<le> length buf"
  shows "EncodeRegisterTopicResponse buf seq status tid
           = Some (frame CmdRegisterTopicResp seq (status # be16 tid))"
  using assms
  by (simp add: EncodeRegisterTopicResponse_def Let_def buf_simps len_simps)
    (simp add: window_def frame_def frame_bytes_def u32_of_def)

lemma EncodeProduceBatchResponse_eq:
  assumes "31 \<le> length buf"
  shows "EncodeProduceBatchResponse buf seq status off n
           = Some (frame CmdProduceBatchResp seq (status # be64 off @ be32 n))"
  using assms
  by (simp add: EncodeProduceBatchResponse_def Let_def buf_simps len_simps ProduceBatchRespMetaLen_def)
    (simp add: window_def frame_def frame_bytes_def u32_of_def)

lemma EncodeFetchResponse_eq:
  assumes "31 + length data \<le> length buf" and "31 + length data < 2 ^ 32"
  shows "EncodeFetchResponse buf seq status cnt nbytes hwm data
           = Some (frame CmdFetchResp seq (status # be32 cnt @ be64 hwm @ data))"
proof -
  have t: "unat (4 + u32_of (27 + length data)) = 31 + length data"
    using assms(2) by (simp add: unat_word_ariths)
  show ?thesis
  proof (cases "data = []")
    case True
    with assms t show ?thesis
      by (simp add: EncodeFetchResponse_def Let_def buf_simps len_simps FetchRespMetaLen_def)
        (simp add: window_def frame_def frame_bytes_def)
  next
    case False
    with assms t show ?thesis
      by (simp add: EncodeFetchResponse_def Let_def buf_simps len_simps FetchRespMetaLen_def)
        (simp add: window_def frame_def frame_bytes_def ChecksumIEEE_def crc32_update_append)
  qed
qed

section \<open>The decoders invert the bodies\<close>

lemma DecodeProduceRequest_body:
  assumes "length topic \<le> 65531"
  shows "DecodeProduceRequest (produce_body topic part payload) = Inr (topic, part, payload)"
proof -
  have u: "unat (2 + u16_of (length topic)) = 2 + length topic"
    "unat (4 + u16_of (length topic)) = 4 + length topic"
    using assms by (simp_all add: unat_word_ariths)
  have t: "window (produce_body topic part payload) 0 2 = be16 (u16_of (length topic))"
    by (simp add: produce_body_def window_def)
  show ?thesis using assms u
    by (simp add: DecodeProduceRequest_def t Let_def)
      (simp add: produce_body_def window_def)
qed

lemma DecodeFetchRequest_body:
  assumes "length topic \<le> 65533"
  shows "DecodeFetchRequest (fetch_body topic part off maxBytes) = Inr (topic, part, off, maxBytes)"
proof -
  have u: "unat (2 + u16_of (length topic)) = 2 + length topic"
    using assms by (simp add: unat_word_ariths)
  have t: "window (fetch_body topic part off maxBytes) 0 2 = be16 (u16_of (length topic))"
    by (simp add: fetch_body_def window_def)
  show ?thesis using assms u
    by (simp add: DecodeFetchRequest_def t Let_def) (simp add: fetch_body_def window_def)
qed

lemma DecodeRegisterTopicRequest_body:
  assumes "length topic \<le> 65533"
  shows "DecodeRegisterTopicRequest (topic_body topic) = Inr topic"
proof -
  have u: "unat (2 + u16_of (length topic)) = 2 + length topic"
    using assms by (simp add: unat_word_ariths)
  have t: "window (topic_body topic) 0 2 = be16 (u16_of (length topic))"
    by (simp add: topic_body_def window_def)
  show ?thesis using assms u
    by (simp add: DecodeRegisterTopicRequest_def t Let_def) (simp add: topic_body_def window_def)
qed

lemma DecodeOffsetKeyRequest_body:
  assumes "length topic < 65536" and "length grp < 65536"
  shows "DecodeOffsetKeyRequest (offset_body topic part grp @ rest) = Inr (topic, part, grp)"
proof -
  define b where "b = offset_body topic part grp @ rest"
  have t: "unat (get16 (window b 0 2)) = length topic"
    "window b 2 (2 + length topic) = topic"
    "get16 (window b (2 + length topic) (2 + length topic + 2)) = part"
    "unat (get16 (window b (2 + length topic + 2) (2 + length topic + 4))) = length grp"
    "window b (2 + length topic + 4) (2 + length topic + 4 + length grp) = grp"
    using assms by (simp_all add: b_def offset_body_def window_def)
  have len: "length b = 6 + length topic + length grp + length rest"
    by (simp add: b_def offset_body_def)
  show ?thesis unfolding b_def [symmetric]
    by (simp only: DecodeOffsetKeyRequest_def t Let_def) (simp add: len)
qed

lemma DecodeCommitOffsetRequest_body:
  assumes "length topic < 65536" and "length grp < 65536"
  shows "DecodeCommitOffsetRequest (offset_body topic part grp @ be64 off) = Inr (topic, part, grp, off)"
  using assms
  by (simp add: DecodeCommitOffsetRequest_def DecodeOffsetKeyRequest_body Let_def)
    (simp add: offset_body_def window_def)

lemma response_decoders:
  "DecodeFetchResponseMeta (status # be32 cnt @ be64 off @ data) = Inr (status, cnt, off)"
  "DecodeProduceBatchResponse (status # be64 off @ be32 cnt) = Inr (status, off, cnt)"
  "DecodeRegisterTopicResponse (status # be16 tid) = Inr (status, tid)"
  "DecodeCommitOffsetResponse (status # be64 off) = Inr (status, off)"
  "DecodeCommittedOffsetResponse (status # be64 off) = Inr (status, off)"
  by (simp_all add: DecodeFetchResponseMeta_def DecodeProduceBatchResponse_def
      DecodeRegisterTopicResponse_def DecodeCommitOffsetResponse_def
      DecodeCommittedOffsetResponse_def FetchRespMetaLen_def ProduceBatchRespMetaLen_def
      CommitOffsetRespMetaLen_def CommittedOffsetRespMetaLen_def window_def)

lemma unat_u16_wrap2: "unat (2 + (n :: u16)) = (2 + unat n) mod 65536"
  by (simp add: unat_word_ariths)

lemma unat_u16_wrap4: "unat (4 + (n :: u16)) = (4 + unat n) mod 65536"
  by (simp add: unat_word_ariths)

lemma DecodeProduceRequest_panic:
  "DecodeProduceRequest payload = Inl Panic \<longleftrightarrow>
     4 \<le> length payload \<and> 65532 \<le> unat (get16 (window payload 0 2))
     \<and> unat (get16 (window payload 0 2)) + 4 \<le> length payload"
proof -
  define n where "n = get16 (window payload 0 2)"
  have nb: "unat n < 65536" by (rule unat_bounds)
  consider "unat n < 65532" | "unat n = 65532" | "unat n = 65533" | "unat n = 65534" | "unat n = 65535"
    using nb by linarith
  then show ?thesis
    unfolding DecodeProduceRequest_def Let_def n_def [symmetric]
    by cases (auto simp: go_slice_def unat_u16_wrap2 unat_u16_wrap4 split: option.splits)
qed

section \<open>Reading from a connection\<close>

lemma readFullTCPLoop_ok:
  assumes "[] \<notin> set conn" and "n \<le> length (concat conn)"
  shows "\<exists>conn'. readFullTCPLoop n conn = Inr (take n (concat conn), conn')
                 \<and> [] \<notin> set conn' \<and> concat conn' = drop n (concat conn)"
  using assms
proof (induction n conn rule: readFullTCPLoop.induct)
  case (4 k b c cs)
  define nn where "nn = min (Suc k) (length (b # c))"
  define conn1 where "conn1 = (if nn < length (b # c) then drop nn (b # c) # cs else cs)"
  have cc: "concat conn1 = drop nn (concat ((b # c) # cs))"
    by (auto simp: conn1_def nn_def min_def)
  have "[] \<notin> set conn1" using "4.prems"(1) by (auto simp: conn1_def)
  moreover have "Suc k - nn \<le> length (concat conn1)" using "4.prems"(2) by (simp add: cc nn_def)
  ultimately obtain conn' where c': "readFullTCPLoop (Suc k - nn) conn1
      = Inr (take (Suc k - nn) (concat conn1), conn')" "[] \<notin> set conn'"
      "concat conn' = drop (Suc k - nn) (concat conn1)"
    using "4.IH" [OF nn_def conn1_def] by blast
  have le: "nn \<le> Suc k" "nn \<le> length (b # c)" by (simp_all add: nn_def)
  have "take (Suc k) (concat ((b # c) # cs)) = take nn (concat ((b # c) # cs))
      @ take (Suc k - nn) (concat conn1)"
    using le by (metis cc le_add_diff_inverse take_add)
  then have "take nn (b # c) @ take (Suc k - nn) (concat conn1) = take (Suc k) (concat ((b # c) # cs))"
    using le(2) by (simp only: concat.simps take_append) simp
  then have "readFullTCPLoop (Suc k) ((b # c) # cs) = Inr (take (Suc k) (concat ((b # c) # cs)), conn')"
    unfolding readFullTCPLoop.simps(4) Let_def nn_def [symmetric] conn1_def [symmetric] c'(1)
    by (simp only: sum.case prod.case)
  moreover have "concat conn' = drop (Suc k) (concat ((b # c) # cs))"
    using le by (simp only: c'(3) cc drop_drop) simp
  ultimately show ?case using c'(2) by blast
qed auto

lemma readFullTCPLoop_short:
  assumes "[] \<notin> set conn" and "length (concat conn) < n"
  shows "readFullTCPLoop n conn = Inl UnexpectedEOF"
  using assms
proof (induction n conn rule: readFullTCPLoop.induct)
  case (4 k b c cs)
  define nn where "nn = min (Suc k) (length (b # c))"
  define conn1 where "conn1 = (if nn < length (b # c) then drop nn (b # c) # cs else cs)"
  have "[] \<notin> set conn1" using "4.prems"(1) by (auto simp: conn1_def)
  moreover have "length (concat conn1) < Suc k - nn"
    using "4.prems"(2) by (simp add: conn1_def nn_def min_def)
  ultimately have "readFullTCPLoop (Suc k - nn) conn1 = Inl UnexpectedEOF"
    using "4.IH" [OF nn_def conn1_def] by blast
  then show ?case
    unfolding readFullTCPLoop.simps(4) Let_def nn_def [symmetric] conn1_def [symmetric] by simp
qed auto

section \<open>Batches round-trip\<close>

lemma AppendBatchMessage_bytes:
  "\<exists>p q spare'. AppendBatchMessage (buf, spare) t m
     = (buf @ (le16 t @ [p, q] @ le32 (u32_of (length m)) @ m), spare')"
proof -
  have two: "2 \<le> length xs \<Longrightarrow> \<exists>p q. take 2 xs = [p, q]" for xs :: bytes
    by (cases xs; cases "tl xs") (auto simp: numeral_2_eq_2)
  define r where "r = (if length buf + length spare < length buf + 8 + length m
     then replicate (8 + length m) 0 else take (8 + length m) spare)"
  have "6 \<le> length (drop 2 r)" by (simp add: r_def)
  then obtain p q where "take 2 (drop 2 r) = [p, q]" using two [of "drop 2 r"] by auto
  then show ?thesis
    by (auto simp: AppendBatchMessage_def Let_def r_def split: if_splits)
qed

lemma drop_exact: "length xs = n \<Longrightarrow> drop n (xs @ ys) = ys"
  by simp

lemma iter_all_step:
  assumes "length m < 2 ^ 32"
  shows "iter_all \<lparr>it_rest = (le16 t @ [p, q] @ le32 (u32_of (length m)) @ m) @ rest,
                   it_topic = t0, it_payload = p0\<rparr>
       = (t, m) # iter_all \<lparr>it_rest = rest, it_topic = t, it_payload = m\<rparr>"
proof -
  define b where "b = (le16 t @ [p, q] @ le32 (u32_of (length m)) @ m) @ rest"
  have w: "unat (getle32 (window b 4 8)) = length m" "getle16 (window b 0 2) = t"
    "window b 8 (8 + length m) = m"
    using assms by (simp_all add: b_def window_def)
  have d: "drop (8 + length m) b = rest" unfolding b_def by (rule drop_exact) simp
  have len: "length b = 8 + length m + length rest" by (simp add: b_def)
  then have "b \<noteq> []" by auto
  then have "iter_Next \<lparr>it_rest = b, it_topic = t0, it_payload = p0\<rparr>
      = (True, \<lparr>it_rest = rest, it_topic = t, it_payload = m\<rparr>)"
    using len by (simp add: iter_Next_def w d Let_def)
  then show ?thesis unfolding b_def [symmetric] by (simp add: iter_all.simps)
qed

lemma readFullTCPLoop_ReadFull:
  assumes "[] \<notin> set conn"
  shows "case ReadFull n (concat conn) of
           Inl e \<Rightarrow> readFullTCPLoop n conn = Inl UnexpectedEOF \<and> e \<in> {EndOfFile, UnexpectedEOF}
         | Inr (got, rest) \<Rightarrow>
             (\<exists>conn'. readFullTCPLoop n conn = Inr (got, conn')
                     \<and> [] \<notin> set conn' \<and> concat conn' = rest)"
  using readFullTCPLoop_ok [OF assms, of n] readFullTCPLoop_short [OF assms, of n]
  by (auto simp: ReadFull_def)

section \<open>Messages over a connection\<close>

lemma length_bodies [len_simps]:
  "length (produce_body topic part payload) = 4 + length topic + length payload"
  "length (fetch_body topic part off maxBytes) = 16 + length topic"
  "length (topic_body topic) = 2 + length topic"
  "length (offset_body topic part grp) = 6 + length topic + length grp"
  by (simp_all add: body_defs)

lemma length_frame [len_simps]: "length (frame cmd seq p) = 18 + length p"
  by (simp add: frame_def len_simps)

lemma frame_not_Nil [simp]: "frame cmd seq p \<noteq> []" "[] \<noteq> frame cmd seq p"
  using length_frame [of cmd seq p] by auto

text \<open>
  What a request or response type promises: its encoder writes the frame of its
  body, its decoder reads the body back. A message that keeps the promise
  survives any way the network cuts the stream.
\<close>

locale wire_message =
  fixes cmd :: u16
    and enc :: "bytes \<Rightarrow> u64 \<Rightarrow> 'a \<Rightarrow> bytes option"
    and dec :: "bytes \<Rightarrow> proto_error + 'a"
    and body :: "'a \<Rightarrow> bytes"
    and ok :: "'a \<Rightarrow> bool"
  assumes known: "known_cmd cmd"
    and enc_frame: "ok x \<Longrightarrow> 14 + length (body x) < 2 ^ 32 \<Longrightarrow> 18 + length (body x) \<le> length buf
                      \<Longrightarrow> enc buf seq x = Some (frame cmd seq (body x))"
    and dec_body: "ok x \<Longrightarrow> dec (body x) = Inr x"
begin

lemma over_stream:
  assumes "ok x" and "14 + length (body x) < 2 ^ 32" and "18 + length (body x) \<le> length buf"
    and "14 + length (body x) \<le> buflen"
  shows "\<exists>wire. enc buf seq x = Some wire
           \<and> ReadFrame (wire @ rest) buflen = Inr ((cmd, seq, body x), rest)
           \<and> dec (body x) = Inr x"
  using assms enc_frame ReadFrame_frame [OF known] dec_body by blast

lemma over_tcp:
  assumes "ok x" and "14 + length (body x) < 2 ^ 32" and "18 + length (body x) \<le> length buf"
    and "14 + length (body x) \<le> buflen"
    and "enc buf seq x = Some wire" and "concat conn = wire @ rest" and "[] \<notin> set conn"
  shows "\<exists>b conn'. ReadFrameTCP conn buflen = Inr ((cmd, seq, b), conn')
           \<and> concat conn' = rest \<and> dec b = Inr x"
proof -
  let ?n = "14 + length (body x)"
  have u: "unat (u32_of ?n) = ?n" using assms(2) by simp
  have w: "concat conn = be32 (u32_of ?n) @ frame_bytes cmd seq (body x) @ rest"
    using assms(5,6) enc_frame [OF assms(1-3)] by (simp add: frame_def)
  obtain c1 where c1: "readFullTCPLoop 4 conn = Inr (be32 (u32_of ?n), c1)" "[] \<notin> set c1"
      "concat c1 = frame_bytes cmd seq (body x) @ rest"
    using readFullTCPLoop_ReadFull [OF assms(7), of 4] w by (auto simp: ReadFull_append)
  obtain c2 where c2: "readFullTCPLoop ?n c1 = Inr (frame_bytes cmd seq (body x), c2)"
      "concat c2 = rest"
    using readFullTCPLoop_ReadFull [OF c1(2), of ?n] c1(3)
    by (auto simp: ReadFull_append length_frame_bytes)
  have "ReadFrameTCP conn buflen = Inr ((cmd, seq, body x), c2)"
    using assms(4) u known
    by (simp add: ReadFrameTCP_def c1(1) c2(1) [simplified] parseFrame_frame_bytes)
  then show ?thesis using c2(2) dec_body [OF assms(1)] by blast
qed

end

interpretation produce: wire_message CmdProduce
  "\<lambda>buf seq (topic, part, payload). EncodeProduceRequest buf seq topic part payload"
  DecodeProduceRequest "\<lambda>(topic, part, payload). produce_body topic part payload"
  "\<lambda>(topic, part, payload). length topic \<le> 65531"
  by unfold_locales
    (auto simp: known_cmd_def EncodeProduceRequest_eq DecodeProduceRequest_body len_simps)

interpretation fetch: wire_message CmdFetch
  "\<lambda>buf seq (topic, part, off, maxBytes). EncodeFetchRequest buf seq topic part off maxBytes"
  DecodeFetchRequest "\<lambda>(topic, part, off, maxBytes). fetch_body topic part off maxBytes"
  "\<lambda>(topic, part, off, maxBytes). length topic \<le> 65533"
  by unfold_locales
    (auto simp: known_cmd_def EncodeFetchRequest_eq DecodeFetchRequest_body len_simps)

interpretation register: wire_message CmdRegisterTopic
  EncodeRegisterTopicRequest DecodeRegisterTopicRequest topic_body "\<lambda>topic. length topic \<le> 65533"
  by unfold_locales
    (auto simp: known_cmd_def EncodeRegisterTopicRequest_eq DecodeRegisterTopicRequest_body len_simps)

interpretation commit: wire_message CmdCommitOffset
  "\<lambda>buf seq (topic, part, grp, off). EncodeCommitOffsetRequest buf seq topic part grp off"
  DecodeCommitOffsetRequest "\<lambda>(topic, part, grp, off). offset_body topic part grp @ be64 off"
  "\<lambda>(topic, part, grp, off). length topic < 65536 \<and> length grp < 65536"
  by unfold_locales
    (auto simp: known_cmd_def EncodeCommitOffsetRequest_eq DecodeCommitOffsetRequest_body len_simps)

interpretation committed: wire_message CmdCommittedOffset
  "\<lambda>buf seq (topic, part, grp). EncodeCommittedOffsetRequest buf seq topic part grp"
  DecodeOffsetKeyRequest "\<lambda>(topic, part, grp). offset_body topic part grp"
  "\<lambda>(topic, part, grp). length topic < 65536 \<and> length grp < 65536"
  by unfold_locales
    (auto simp: known_cmd_def EncodeCommittedOffsetRequest_eq
      DecodeOffsetKeyRequest_body [where rest = "[]", simplified] len_simps)

interpretation batch_resp: wire_message CmdProduceBatchResp
  "\<lambda>buf seq (status, off, n). EncodeProduceBatchResponse buf seq status off n"
  DecodeProduceBatchResponse "\<lambda>(status, off, n). status # be64 off @ be32 n" "\<lambda>_. True"
  by unfold_locales
    (auto simp: known_cmd_def EncodeProduceBatchResponse_eq response_decoders)

interpretation register_resp: wire_message CmdRegisterTopicResp
  "\<lambda>buf seq (status, tid). EncodeRegisterTopicResponse buf seq status tid"
  DecodeRegisterTopicResponse "\<lambda>(status, tid). status # be16 tid" "\<lambda>_. True"
  by unfold_locales
    (auto simp: known_cmd_def EncodeRegisterTopicResponse_eq response_decoders)

interpretation commit_resp: wire_message CmdCommitOffsetResp
  "\<lambda>buf seq (status, off). EncodeCommitOffsetResponse buf seq status off"
  DecodeCommitOffsetResponse "\<lambda>(status, off). status # be64 off" "\<lambda>_. True"
  by unfold_locales
    (auto simp: known_cmd_def EncodeCommitOffsetResponse_def EncodeOffsetResponse_eq response_decoders)

interpretation committed_resp: wire_message CmdCommittedOffsetResp
  "\<lambda>buf seq (status, off). EncodeCommittedOffsetResponse buf seq status off"
  DecodeCommittedOffsetResponse "\<lambda>(status, off). status # be64 off" "\<lambda>_. True"
  by unfold_locales
    (auto simp: known_cmd_def EncodeCommittedOffsetResponse_def EncodeOffsetResponse_eq response_decoders)

lemma batch_append_iter:
  assumes "\<forall>(t, m) \<in> set msgs. length m < 2 ^ 32"
  shows "\<exists>d spare'. foldl (\<lambda>s (t, m). AppendBatchMessage s t m) (buf, spare) msgs = (buf @ d, spare')
       \<and> (\<forall>rest t0 p0. iter_all \<lparr>it_rest = d @ rest, it_topic = t0, it_payload = p0\<rparr>
            = msgs @ iter_all \<lparr>it_rest = rest, it_topic = fst (last ((t0, p0) # msgs)),
                              it_payload = snd (last ((t0, p0) # msgs))\<rparr>)"
  using assms
proof (induction msgs arbitrary: buf spare)
  case Nil
  show ?case by (intro exI [of _ "[]"] exI [of _ spare]) simp
next
  case (Cons tm msgs)
  obtain t m where tm: "tm = (t, m)" by (cases tm)
  obtain p q s1 where a: "AppendBatchMessage (buf, spare) t m
      = (buf @ (le16 t @ [p, q] @ le32 (u32_of (length m)) @ m), s1)"
    using AppendBatchMessage_bytes by blast
  let ?h = "le16 t @ [p, q] @ le32 (u32_of (length m)) @ m"
  obtain d s2 where d: "foldl (\<lambda>s (t, m). AppendBatchMessage s t m) (buf @ ?h, s1) msgs
       = ((buf @ ?h) @ d, s2)"
    "\<forall>rest t0 p0. iter_all \<lparr>it_rest = d @ rest, it_topic = t0, it_payload = p0\<rparr>
       = msgs @ iter_all \<lparr>it_rest = rest, it_topic = fst (last ((t0, p0) # msgs)),
                         it_payload = snd (last ((t0, p0) # msgs))\<rparr>"
    using Cons.IH [of "buf @ ?h" s1] Cons.prems by (metis list.set_intros(2))
  have m: "length m < 2 ^ 32" using Cons.prems tm by auto
  have "iter_all \<lparr>it_rest = (?h @ d) @ rest, it_topic = t0, it_payload = p0\<rparr>
      = (tm # msgs) @ iter_all \<lparr>it_rest = rest, it_topic = fst (last ((t0, p0) # tm # msgs)),
                         it_payload = snd (last ((t0, p0) # tm # msgs))\<rparr>" for rest t0 p0
    using iter_all_step [OF m, of t p q "d @ rest" t0 p0] d(2) [rule_format, of rest t m] tm
    by simp
  then show ?case using a d(1) tm
    by (intro exI [of _ "?h @ d"] exI [of _ s2]) simp
qed

lemma iter_all_empty: "iter_all \<lparr>it_rest = [], it_topic = t0, it_payload = p0\<rparr> = []"
  by (simp add: iter_all.simps iter_Next_def)

lemma parseFrame_not_eof: "parseFrame b len \<noteq> Inl EndOfFile"
  by (simp add: parseFrame_def Let_def)

section \<open>Properties of the wire protocol\<close>

text \<open>C5. A produce request crosses a TCP connection unchanged, however the network cuts
  the stream into reads: what \<open>EncodeProduceRequest\<close> wrote, \<open>ReadFrameTCP\<close> takes off the
  connection leaving exactly the bytes behind it, and \<open>DecodeProduceRequest\<close> returns the
  topic, partition and message, for every topic shorter than the 65532 bytes at which the
  decoder's 16-bit arithmetic wraps.\<close>

theorem produce_request_over_tcp:
  assumes "length topic \<le> 65531" and "18 + length topic + length payload < 2 ^ 32"
    and "22 + length topic + length payload \<le> length buf"
    and "18 + length topic + length payload \<le> buflen"
    and "EncodeProduceRequest buf seq topic part payload = Some wire"
    and "concat conn = wire @ rest" and "[] \<notin> set conn"
  shows "\<exists>b conn'. ReadFrameTCP conn buflen = Inr ((CmdProduce, seq, b), conn')
           \<and> concat conn' = rest \<and> DecodeProduceRequest b = Inr (topic, part, payload)"
  using produce.over_tcp [of "(topic, part, payload)" buf buflen seq wire conn rest] assms
  by (simp add: len_simps)

theorem produce_request_over_tcp_witness:
  "\<exists>b conn'. ReadFrameTCP [take 3 (frame CmdProduce 9 (produce_body [97, 100] 1 [1, 2, 3])),
                         drop 3 (frame CmdProduce 9 (produce_body [97, 100] 1 [1, 2, 3])) @ [7]] 64
               = Inr ((CmdProduce, 9, b), conn')
           \<and> concat conn' = [7] \<and> DecodeProduceRequest b = Inr ([97, 100], 1, [1, 2, 3])"
  by (rule produce_request_over_tcp [where buf = "replicate 64 0"
        and wire = "frame CmdProduce 9 (produce_body [97, 100] 1 [1, 2, 3])"])
    (simp_all add: EncodeProduceRequest_eq len_simps)

text \<open>C12. The reader over a connection returns what the reader over a plain byte stream
  returns on the concatenated reads, the same frame with the same bytes left, and the same
  error except that the connection reader has one error for a stream that ends.\<close>

theorem ReadFrameTCP_refines_ReadFrame:
  assumes "[] \<notin> set conn"
  shows "case ReadFrame (concat conn) buflen of
           Inl e \<Rightarrow> ReadFrameTCP conn buflen = Inl (if e = EndOfFile then UnexpectedEOF else e)
         | Inr (f, rest) \<Rightarrow> (\<exists>conn'. ReadFrameTCP conn buflen = Inr (f, conn')
                                      \<and> [] \<notin> set conn' \<and> concat conn' = rest)"
proof (cases "ReadFull 4 (concat conn)")
  case (Inl e)
  then show ?thesis using readFullTCPLoop_ReadFull [OF assms, of 4]
    by (auto simp: ReadFrame_def ReadFrameTCP_def)
next
  case (Inr lr)
  obtain lenBuf r1 where lr: "lr = (lenBuf, r1)" by (cases lr)
  obtain c1 where c1: "readFullTCPLoop 4 conn = Inr (lenBuf, c1)" "[] \<notin> set c1" "concat c1 = r1"
    using readFullTCPLoop_ReadFull [OF assms, of 4] Inr lr by auto
  show ?thesis
    using readFullTCPLoop_ReadFull [OF c1(2), of "unat (get32 lenBuf)"] parseFrame_not_eof Inr lr c1
    by (auto simp: ReadFrame_def ReadFrameTCP_def Let_def split: sum.splits prod.splits)
qed

theorem ReadFrameTCP_refines_ReadFrame_witness:
  "case ReadFrame (concat [[0, 0], [0, 3], [1, 2]]) 16 of
     Inl e \<Rightarrow> ReadFrameTCP [[0, 0], [0, 3], [1, 2]] 16
               = Inl (if e = EndOfFile then UnexpectedEOF else e)
   | Inr (f, rest) \<Rightarrow> (\<exists>conn'. ReadFrameTCP [[0, 0], [0, 3], [1, 2]] 16 = Inr (f, conn')
                                \<and> [] \<notin> set conn' \<and> concat conn' = rest)"
  by (rule ReadFrameTCP_refines_ReadFrame) simp

text \<open>C22. \<open>parseFrame\<close> accepts exactly the frames of known commands: a frame body is
  accepted if and only if it is the command, the sequence number, the payload and the
  payload's CRC-32, byte for byte.\<close>

theorem parseFrame_accepts_exactly_frames:
  assumes "length b = unat len"
  shows "parseFrame b len = Inr (cmd, seq, p)
           \<longleftrightarrow> known_cmd cmd \<and> b = be16 cmd @ be64 seq @ p @ be32 (ChecksumIEEE p)"
  using parseFrame_iff [OF assms] by (simp add: frame_bytes_def)

theorem parseFrame_accepts_exactly_frames_witness:
  "parseFrame (be16 CmdFetch @ be64 5 @ [1, 2] @ be32 (ChecksumIEEE [1, 2])) 16
     = Inr (CmdFetch, 5, [1, 2])"
  using parseFrame_accepts_exactly_frames
    [of "be16 CmdFetch @ be64 5 @ [1, 2] @ be32 (ChecksumIEEE [1, 2])" 16 CmdFetch 5 "[1, 2]"]
  by (simp add: known_cmd_def)

text \<open>C27. \<open>DecodeProduceRequest\<close> panics exactly on the payloads whose topic length field is
  65532 or more and which are long enough to pass its length check: the check computes in
  \<open>int\<close>, the slice bounds behind it in \<open>uint16\<close>, where they wrap.\<close>

theorem DecodeProduceRequest_panics_iff:
  "DecodeProduceRequest payload = Inl Panic \<longleftrightarrow>
     4 \<le> length payload \<and> 65532 \<le> unat (get16 (window payload 0 2))
     \<and> unat (get16 (window payload 0 2)) + 4 \<le> length payload"
  by (rule DecodeProduceRequest_panic)

text \<open>C23. A batch built with \<open>AppendBatchMessage\<close>, in whatever buffer and with whatever
  reallocation on the way, iterates back to its messages in order.\<close>

theorem batch_roundtrip:
  assumes "\<forall>(t, m) \<in> set msgs. length m < 2 ^ 32"
  shows "iter_all (NewBatchIterator
           (fst (foldl (\<lambda>s (t, m). AppendBatchMessage s t m) ([], spare) msgs))) = msgs"
  using batch_append_iter [OF assms, of "[]" spare] iter_all_empty
  by (auto simp: NewBatchIterator_def) (metis append.right_neutral)

theorem batch_roundtrip_witness:
  "iter_all (NewBatchIterator
     (fst (foldl (\<lambda>s (t, m). AppendBatchMessage s t m) ([], [9, 9, 9, 9, 9, 9, 9, 9, 9, 9])
             [(3, [65]), (4, []), (3, [66, 67])]))) = [(3, [65]), (4, []), (3, [66, 67])]"
  by (rule batch_roundtrip) simp

text \<open>A commit-offset request crosses a connection unchanged, for every topic and
  consumer group whose length fits the 16-bit length field.\<close>

theorem commit_offset_over_tcp:
  assumes "length topic < 65536" and "length grp < 65536"
    and "32 + length topic + length grp \<le> length buf"
    and "28 + length topic + length grp \<le> buflen"
    and "EncodeCommitOffsetRequest buf seq topic part grp off = Some wire"
    and "concat conn = wire @ rest" and "[] \<notin> set conn"
  shows "\<exists>b conn'. ReadFrameTCP conn buflen = Inr ((CmdCommitOffset, seq, b), conn')
           \<and> concat conn' = rest \<and> DecodeCommitOffsetRequest b = Inr (topic, part, grp, off)"
  using commit.over_tcp [of "(topic, part, grp, off)" buf buflen seq wire conn rest] assms
  by (simp add: len_simps)

theorem commit_offset_over_tcp_witness:
  "\<exists>b conn'. ReadFrameTCP [frame CmdCommitOffset 2 (offset_body [97] 0 [103] @ be64 77)] 64
               = Inr ((CmdCommitOffset, 2, b), conn')
           \<and> concat conn' = [] \<and> DecodeCommitOffsetRequest b = Inr ([97], 0, [103], 77)"
  by (rule commit_offset_over_tcp [where buf = "replicate 64 0"
        and wire = "frame CmdCommitOffset 2 (offset_body [97] 0 [103] @ be64 77)"])
    (simp_all add: EncodeCommitOffsetRequest_eq len_simps)

end
