(* ===== verification/BrokerRegistry.thy ===== *)
theory BrokerRegistry
  imports Prelude "HOL-Library.AList"
begin

text \<open>
  The broker's topic registry: \<open>TopicRegistry\<close> of \<open>pkg/broker/protocol/protocol.go\<close>,
  the snapshot file behind it (\<open>registry_store.go\<close>) and the topic-partition keys of
  \<open>partition.go\<close>. Names are byte strings. The Go maps are association lists, so that a
  snapshot lists its entries in the order an iteration would visit them; the lemmas
  hold for every order. The registrar behind \<open>redisStore\<close> is the argument \<open>redis\<close>,
  what other goroutines do while \<open>Register\<close> has dropped its lock is the argument
  \<open>other\<close>, and \<open>io\<close> says whether the file system call succeeds.
\<close>

section \<open>Data\<close>

record topic_metadata =
  ID :: u16
  Name :: bytes

record registry_snapshot =
  Version :: u32
  Topics :: "(bytes \<times> u16) list"
  NextID :: u32

text \<open>A store's file is absent or holds a snapshot; \<open>fileStore\<close> is \<open>None\<close> for a nil store.\<close>

record topic_registry =
  topics :: "u16 \<Rightarrow> topic_metadata option"
  byName :: "(bytes \<times> u16) list"
  nextID :: u32
  fileStore :: "registry_snapshot option option"

datatype registry_error =
    TopicNameEmpty | TopicNameTooLong | TopicIDZero | IDConflict | RegistryLimit
  | StoreFailed | RedisFailed | GroupEmpty | GroupTooLong

definition registryFileVersion :: u32 where "registryFileVersion = 1"

section \<open>Validation\<close>

definition validateTopicName :: "bytes \<Rightarrow> registry_error option" where
  "validateTopicName name =
     (if name = [] then Some TopicNameEmpty
      else if 255 < length name then Some TopicNameTooLong else None)"

definition ValidateTopicNameForStore :: "bytes \<Rightarrow> registry_error option" where
  "ValidateTopicNameForStore name = validateTopicName name"

definition validateTopicID :: "u16 \<Rightarrow> registry_error option" where
  "validateTopicID i = (if i = 0 then Some TopicIDZero else None)"

definition ValidateConsumerGroup :: "bytes \<Rightarrow> registry_error option" where
  "ValidateConsumerGroup grp =
     (if grp = [] then Some GroupEmpty
      else if 255 < length grp then Some GroupTooLong else None)"

section \<open>The snapshot file\<close>

text \<open>The file keeps the snapshot that was saved, since JSON preserves its fields; both
  directions fill in a missing version.\<close>

definition with_version :: "registry_snapshot \<Rightarrow> registry_snapshot" where
  "with_version snap =
     (if Version snap = 0 then snap\<lparr>Version := registryFileVersion\<rparr> else snap)"

definition FileLoad :: "bool \<Rightarrow> registry_snapshot option \<Rightarrow> registry_error + registry_snapshot" where
  "FileLoad io file =
     (case file of
        None \<Rightarrow> Inr \<lparr>Version = registryFileVersion, Topics = [], NextID = 0\<rparr>
      | Some snap \<Rightarrow> if io then Inr (with_version snap) else Inl StoreFailed)"

definition FileSave ::
  "bool \<Rightarrow> registry_snapshot \<Rightarrow> registry_snapshot option
     \<Rightarrow> registry_error option \<times> registry_snapshot option" where
  "FileSave io snap file =
     (if io then (None, Some (with_version snap)) else (Some StoreFailed, file))"

section \<open>Registry operations\<close>

definition NewTopicRegistry :: topic_registry where
  "NewTopicRegistry = \<lparr>topics = (\<lambda>_. None), byName = [], nextID = 0, fileStore = None\<rparr>"

definition SetFileStore :: "registry_snapshot option option \<Rightarrow> topic_registry \<Rightarrow> topic_registry" where
  "SetFileStore store r = r\<lparr>fileStore := store\<rparr>"

definition rebuildNextIDLocked :: "u32 \<Rightarrow> topic_registry \<Rightarrow> topic_registry" where
  "rebuildNextIDLocked snapshotNext r =
     (let maxID = foldl (\<lambda>m (_, i). if m < i then i else m) 0 (byName r);
          next = (ucast maxID :: u32)
      in r\<lparr>nextID := (if next < snapshotNext then snapshotNext else next)\<rparr>)"

definition installLocked ::
  "bytes \<Rightarrow> u16 \<Rightarrow> topic_registry \<Rightarrow> registry_error option \<times> topic_registry" where
  "installLocked name i r =
     (case validateTopicName name of Some e \<Rightarrow> (Some e, r)
      | None \<Rightarrow>
          (case validateTopicID i of Some e \<Rightarrow> (Some e, r)
           | None \<Rightarrow>
               (None, r\<lparr>byName := AList.update name i (byName r),
                        topics := (topics r)(i \<mapsto> \<lparr>ID = i, Name = name\<rparr>)\<rparr>)))"

definition snapshotLocked :: "topic_registry \<Rightarrow> registry_snapshot" where
  "snapshotLocked r =
     \<lparr>Version = registryFileVersion, Topics = byName r, NextID = nextID r + 1\<rparr>"

definition persistLocked :: "bool \<Rightarrow> topic_registry \<Rightarrow> registry_error option \<times> topic_registry" where
  "persistLocked io r =
     (case fileStore r of None \<Rightarrow> (None, r)
      | Some file \<Rightarrow>
          (let (err, file') = FileSave io (snapshotLocked r) file
           in (err, r\<lparr>fileStore := Some file'\<rparr>)))"

fun applyEntries ::
  "bool \<Rightarrow> (bytes \<times> u16) list \<Rightarrow> topic_registry \<Rightarrow> registry_error option \<times> topic_registry" where
  "applyEntries clusterWins [] r = (None, r)"
| "applyEntries clusterWins ((name, i) # es) r =
     (if validateTopicName name \<noteq> None then applyEntries clusterWins es r
      else if validateTopicID i \<noteq> None then applyEntries clusterWins es r
      else if map_of (byName r) name \<notin> {None, Some i} \<and> \<not> clusterWins then (Some IDConflict, r)
      else case installLocked name i r of (Some e, r') \<Rightarrow> (Some e, r')
           | (None, r') \<Rightarrow> applyEntries clusterWins es r')"

definition applySnapshotLocked ::
  "bool \<Rightarrow> registry_snapshot \<Rightarrow> bool \<Rightarrow> topic_registry \<Rightarrow> registry_error option \<times> topic_registry" where
  "applySnapshotLocked io snap clusterWins r =
     (case applyEntries clusterWins (Topics snap) r of (Some e, r') \<Rightarrow> (Some e, r')
      | (None, r') \<Rightarrow> persistLocked io (rebuildNextIDLocked (NextID snap) r'))"

definition Load :: "bool \<Rightarrow> topic_registry \<Rightarrow> registry_error option \<times> topic_registry" where
  "Load io r =
     (case fileStore r of None \<Rightarrow> (None, r)
      | Some file \<Rightarrow>
          (case FileLoad io file of Inl e \<Rightarrow> (Some e, r)
           | Inr snap \<Rightarrow> applySnapshotLocked io snap False r))"

definition Merge ::
  "bool \<Rightarrow> registry_snapshot \<Rightarrow> topic_registry \<Rightarrow> registry_error option \<times> topic_registry" where
  "Merge io snap r = applySnapshotLocked io snap True r"

definition Lookup :: "topic_registry \<Rightarrow> u16 \<Rightarrow> topic_metadata option" where
  "Lookup r i = topics r i"

definition finishRegister ::
  "bool \<Rightarrow> bytes \<Rightarrow> u16 \<Rightarrow> topic_registry \<Rightarrow> (registry_error + u16) \<times> topic_registry" where
  "finishRegister io name i r =
     (case installLocked name i r of (Some e, r') \<Rightarrow> (Inl e, r')
      | (None, r') \<Rightarrow>
          (case persistLocked io r' of (Some e, r'') \<Rightarrow> (Inl e, r'')
           | (None, r'') \<Rightarrow> (Inr i, r'')))"

definition Register ::
  "(bytes \<Rightarrow> registry_error + u16) option \<Rightarrow> (topic_registry \<Rightarrow> topic_registry) \<Rightarrow> bool
     \<Rightarrow> topic_registry \<Rightarrow> bytes \<Rightarrow> (registry_error + u16) \<times> topic_registry" where
  "Register redis other io r name =
     (case validateTopicName name of Some e \<Rightarrow> (Inl e, r)
      | None \<Rightarrow>
          (case map_of (byName r) name of Some i \<Rightarrow> (Inr i, r)
           | None \<Rightarrow>
               (case redis of
                  Some reg \<Rightarrow>
                    (let r' = other r
                     in case reg name of Inl e \<Rightarrow> (Inl e, r')
                        | Inr i \<Rightarrow>
                            (case map_of (byName r') name of
                               Some existing \<Rightarrow>
                                 (if existing \<noteq> i then (Inl IDConflict, r') else (Inr existing, r'))
                             | None \<Rightarrow> finishRegister io name i r'))
                | None \<Rightarrow>
                    (let next = nextID r + 1;
                         r' = r\<lparr>nextID := next\<rparr>
                     in if 65535 < next then (Inl RegistryLimit, r')
                        else finishRegister io name (ucast next) r'))))"

section \<open>Topic-partition keys\<close>

text \<open>\<open>strconv.FormatUint\<close> and \<open>strconv.ParseUint\<close> in base 10, the latter for 16 bits.\<close>

fun FormatUint :: "nat \<Rightarrow> bytes" where
  "FormatUint n =
     (if n < 10 then [48 + of_nat n] else FormatUint (n div 10) @ [48 + of_nat (n mod 10)])"

declare FormatUint.simps [simp del]

fun parseDigits :: "nat \<Rightarrow> nat \<Rightarrow> bytes \<Rightarrow> nat option" where
  "parseDigits maxVal n [] = Some n"
| "parseDigits maxVal n (c # cs) =
     (if c < 48 \<or> 57 < c then None
      else let n1 = n * 10 + unat (c - 48)
           in if maxVal < n1 then None else parseDigits maxVal n1 cs)"

definition ParseUint16 :: "bytes \<Rightarrow> u16 option" where
  "ParseUint16 s = (if s = [] then None else map_option of_nat (parseDigits 65535 0 s))"

fun LastIndex :: "byte \<Rightarrow> bytes \<Rightarrow> nat option" where
  "LastIndex c [] = None"
| "LastIndex c (x # xs) =
     (case LastIndex c xs of Some i \<Rightarrow> Some (Suc i)
      | None \<Rightarrow> if x = c then Some 0 else None)"

definition TopicPartitionID :: "bytes \<Rightarrow> u16 \<Rightarrow> bytes" where
  "TopicPartitionID topic part = topic @ [47] @ FormatUint (unat part)"

definition ParseTopicPartitionID :: "bytes \<Rightarrow> bytes \<times> u16" where
  "ParseTopicPartitionID tpKey =
     (case LastIndex 47 tpKey of None \<Rightarrow> (tpKey, 0)
      | Some i \<Rightarrow>
          (case ParseUint16 (drop (i + 1) tpKey) of None \<Rightarrow> (tpKey, 0)
           | Some p \<Rightarrow> (take i tpKey, p)))"

section \<open>The registry invariant\<close>

definition entry_ok :: "topic_registry \<Rightarrow> bytes \<times> u16 \<Rightarrow> bool" where
  "entry_ok r e \<longleftrightarrow>
     validateTopicName (fst e) = None \<and> snd e \<noteq> 0
     \<and> topics r (snd e) = Some \<lparr>ID = snd e, Name = fst e\<rparr> \<and> unat (snd e) \<le> unat (nextID r)"

definition reg_inv :: "topic_registry \<Rightarrow> bool" where
  "reg_inv r \<longleftrightarrow>
     distinct (map fst (byName r)) \<and> list_all (entry_ok r) (byName r)
     \<and> (\<forall>i m. topics r i = Some m \<longrightarrow> (Name m, i) \<in> set (byName r))"

lemma reg_inv_New: "reg_inv NewTopicRegistry"
  by (simp add: reg_inv_def NewTopicRegistry_def)

lemma reg_inv_lookup:
  assumes "reg_inv r"
  shows "topics r i = Some m \<longleftrightarrow> m = \<lparr>ID = i, Name = Name m\<rparr> \<and> map_of (byName r) (Name m) = Some i"
proof
  assume t: "topics r i = Some m"
  then have "(Name m, i) \<in> set (byName r)" using assms by (simp add: reg_inv_def)
  then have "entry_ok r (Name m, i)" "map_of (byName r) (Name m) = Some i"
    using assms by (auto simp: reg_inv_def list_all_iff)
  then show "m = \<lparr>ID = i, Name = Name m\<rparr> \<and> map_of (byName r) (Name m) = Some i"
    using t by (simp add: entry_ok_def)
next
  assume "m = \<lparr>ID = i, Name = Name m\<rparr> \<and> map_of (byName r) (Name m) = Some i"
  then show "topics r i = Some m"
    using assms map_of_SomeD by (fastforce simp: reg_inv_def list_all_iff entry_ok_def)
qed

lemma reg_inv_fresh:
  assumes "reg_inv r" and "unat (nextID r) < unat i"
  shows "topics r i = None" and "(n, i) \<notin> set (byName r)"
proof -
  show *: "(n, i) \<notin> set (byName r)" for n
    using assms by (auto simp: reg_inv_def list_all_iff entry_ok_def)
  show "topics r i = None"
    using assms(1) * by (cases "topics r i") (auto simp: reg_inv_def)
qed

lemma byName_update_fresh:
  "map_of xs k = None \<Longrightarrow> AList.update k v xs = xs @ [(k, v)]"
  by (induction xs) (auto split: if_splits)

lemma persistLocked_frame:
  "topics (snd (persistLocked io r)) = topics r" "byName (snd (persistLocked io r)) = byName r"
  "nextID (snd (persistLocked io r)) = nextID r"
  by (auto simp: persistLocked_def FileSave_def split: option.splits)

lemma reg_inv_frame:
  assumes "topics r' = topics r" and "byName r' = byName r" and "nextID r' = nextID r"
  shows "reg_inv r' = reg_inv r"
  using assms by (simp add: reg_inv_def entry_ok_def [abs_def])

lemma reg_inv_install:
  assumes "reg_inv r" and "map_of (byName r) name = None" and "unat (nextID r) < unat i"
    and "validateTopicName name = None" and "unat i \<le> unat next"
  shows "reg_inv (r\<lparr>nextID := next, byName := byName r @ [(name, i)],
                    topics := (topics r)(i \<mapsto> \<lparr>ID = i, Name = name\<rparr>)\<rparr>)"
proof -
  have "i \<noteq> 0" using assms(3) by auto
  have ne: "j \<noteq> i" if "(n, j) \<in> set (byName r)" for n j
    using reg_inv_fresh(2) [OF assms(1,3)] that by blast
  have "name \<notin> fst ` set (byName r)" using assms(2) by (simp add: map_of_eq_None_iff)
  then show ?thesis
    using assms \<open>i \<noteq> 0\<close> ne by (force simp: reg_inv_def list_all_iff entry_ok_def)
qed

lemma unat_u16_of_u32: "unat (ucast (x :: u32) :: u16) = unat x mod 65536"
  by (simp add: unsigned_ucast_eq take_bit_eq_mod)

text \<open>What \<open>Register\<close> does with the registry's own counter, for a counter that does not wrap.\<close>

lemma Register_local_cases:
  assumes "reg_inv r" and "unat (nextID r) + 1 < 2 ^ 32"
    and R: "Register None other io r name = (res, r')"
  shows "reg_inv r' \<and> unat (nextID r') \<le> unat (nextID r) + 1
       \<and> (\<forall>n i. map_of (byName r) n = Some i \<longrightarrow> map_of (byName r') n = Some i)
       \<and> (\<forall>i. res = Inr i \<longrightarrow> map_of (byName r') name = Some i)"
proof -
  have u: "unat (nextID r + 1) = unat (nextID r) + 1"
    using assms(2) by (simp add: unat_word_ariths)
  let ?i = "ucast (nextID r + 1) :: u16"
  show ?thesis
  proof (cases "validateTopicName name = None \<and> map_of (byName r) name = None")
    case False
    then show ?thesis using R assms(1) by (auto simp: Register_def split: option.splits)
  next
    case True
    show ?thesis
    proof (cases "65535 < nextID r + 1")
      case big: True
      then have "r' = r\<lparr>nextID := nextID r + 1\<rparr>" "res = Inl RegistryLimit"
        using R True by (auto simp: Register_def)
      then show ?thesis using assms(1) u
        by (auto simp: reg_inv_def list_all_iff entry_ok_def intro: le_SucI)
    next
      case False
      then have "unat (nextID r + 1) \<le> 65535" by (simp add: word_le_nat_alt not_less)
      then have i: "unat ?i = unat (nextID r) + 1" using u by (simp add: unat_u16_of_u32)
      then have "?i \<noteq> 0" by (metis add_is_0 one_neq_zero unat_0)
      let ?r = "r\<lparr>nextID := nextID r + 1, byName := byName r @ [(name, ?i)],
                  topics := (topics r)(?i \<mapsto> \<lparr>ID = ?i, Name = name\<rparr>)\<rparr>"
      have r': "r' = snd (persistLocked io ?r)" and res: "res = Inr j \<Longrightarrow> j = ?i" for j
        using R True False \<open>?i \<noteq> 0\<close>
        by (auto simp: Register_def finishRegister_def installLocked_def validateTopicID_def
            byName_update_fresh Let_def split: prod.splits option.splits)
      have "reg_inv ?r" using reg_inv_install [OF assms(1)] True i u by simp
      then have "reg_inv r'" unfolding r'
        by (simp only: reg_inv_frame [OF persistLocked_frame])
      moreover have "byName r' = byName r @ [(name, ?i)]" "nextID r' = nextID r + 1"
        unfolding r' by (simp_all add: persistLocked_frame)
      ultimately show ?thesis using True u res by (auto simp: map_add_def split: option.splits)
    qed
  qed
qed

section \<open>Ids are never shared\<close>

text \<open>A registry that hands out ids: its contract, and what a client may rely on after any
  further registrations. \<open>inv k\<close> is the invariant with room for \<open>k\<close> more registrations.\<close>

locale id_registry =
  fixes inv :: "nat \<Rightarrow> 's \<Rightarrow> bool"
    and ids :: "'s \<Rightarrow> 'n \<Rightarrow> 'i option"
    and names :: "'s \<Rightarrow> 'i \<Rightarrow> 'n option"
    and register :: "'s \<Rightarrow> 'n \<Rightarrow> ('e + 'i) \<times> 's"
  assumes inv_register: "inv (Suc k) s \<Longrightarrow> inv k (snd (register s n))"
    and register_id: "inv (Suc k) s \<Longrightarrow> register s n = (Inr i, s') \<Longrightarrow> ids s' n = Some i"
    and keeps: "inv (Suc k) s \<Longrightarrow> ids s m = Some j \<Longrightarrow> ids (snd (register s n)) m = Some j"
    and names_ids: "inv k s \<Longrightarrow> names s i = Some n \<longleftrightarrow> ids s n = Some i"
begin

lemma inv_run: "inv (length ns + k) s \<Longrightarrow> inv k (fold (\<lambda>n s. snd (register s n)) ns s)"
  by (induction ns arbitrary: s) (auto intro: inv_register)

lemma keeps_run:
  "inv (length ns + k) s \<Longrightarrow> ids s m = Some j
     \<Longrightarrow> ids (fold (\<lambda>n s. snd (register s n)) ns s) m = Some j"
  by (induction ns arbitrary: s) (auto intro: inv_register keeps)

lemma id_stays:
  assumes "inv (Suc (length ms) + k) s" and "register s n = (Inr i, s1)"
  shows "names (fold (\<lambda>n s. snd (register s n)) ms s1) i = Some n"
proof -
  have "inv (length ms + k) s1" using assms inv_register [of "length ms + k" s n] by simp
  moreover have "ids s1 n = Some i" using register_id [of "length ms + k"] assms by simp
  ultimately show ?thesis using keeps_run inv_run names_ids by blast
qed

lemma id_unique:
  assumes "inv (Suc (Suc (length ms)) + k) s" and "register s n = (Inr i, s1)"
    and "register (fold (\<lambda>n s. snd (register s n)) ms s1) n' = (Inr i, s2)"
  shows "n' = n"
proof -
  let ?s = "fold (\<lambda>n s. snd (register s n)) ms s1"
  have s1: "inv (length ms + Suc k) s1"
    using assms(1,2) inv_register [of "Suc (length ms + k)" s n] by simp
  then have i: "inv (Suc k) ?s" by (rule inv_run)
  have "ids s1 n = Some i" using register_id [of "Suc (length ms + k)"] assms(1,2) by simp
  then have "ids ?s n = Some i" by (rule keeps_run [OF s1])
  then have "ids s2 n = Some i" using keeps [OF i, of n i n'] assms(3) by simp
  moreover have "ids s2 n' = Some i" by (rule register_id [OF i assms(3)])
  moreover have "inv k s2" using inv_register [OF i, of n'] assms(3) by simp
  ultimately show ?thesis using names_ids by (metis option.inject)
qed

end

interpretation reg: id_registry
  "\<lambda>k r. reg_inv r \<and> unat (nextID r) + k < 2 ^ 32"
  "\<lambda>r. map_of (byName r)" "\<lambda>r i. map_option Name (Lookup r i)" "Register None other io"
proof (unfold_locales, goal_cases)
  case (1 k s n)
  then show ?case
    using Register_local_cases [of s other io n] by (cases "Register None other io s n") auto
next
  case (2 k s n i s')
  then show ?case using Register_local_cases [of s other io n] by auto
next
  case (3 k s m j n)
  then show ?case
    using Register_local_cases [of s other io n] by (cases "Register None other io s n") auto
next
  case (4 k s i n)
  then have r: "reg_inv s" by blast
  show ?case
  proof
    assume "map_option Name (Lookup s i) = Some n"
    then show "map_of (byName s) n = Some i" using reg_inv_lookup [OF r] by (auto simp: Lookup_def)
  next
    assume "map_of (byName s) n = Some i"
    then have "topics s i = Some \<lparr>ID = i, Name = n\<rparr>" using reg_inv_lookup [OF r] by simp
    then show "map_option Name (Lookup s i) = Some n" by (simp add: Lookup_def)
  qed
qed


section \<open>Reloading\<close>

lemma maxID_bound:
  fixes es :: "(bytes \<times> u16) list"
  assumes "\<forall>e \<in> set es. unat (snd e) \<le> b" and "unat m \<le> b"
  shows "unat (foldl (\<lambda>m (_, i). if m < i then i else m) m es) \<le> b"
  using assms by (induction es arbitrary: m) auto

lemma applyEntries_fresh:
  assumes "distinct (map fst es)" and "\<forall>e \<in> set es. validateTopicName (fst e) = None \<and> snd e \<noteq> 0"
    and "\<forall>e \<in> set es. map_of (byName r) (fst e) = None"
  shows "applyEntries cw es r =
     (None, r\<lparr>byName := byName r @ es,
              topics := topics r ++ map_of (rev (map (\<lambda>(n, i). (i, \<lparr>ID = i, Name = n\<rparr>)) es))\<rparr>)"
  using assms
proof (induction es arbitrary: r)
  case (Cons e es)
  obtain n i where e: "e = (n, i)" by (cases e)
  let ?r = "r\<lparr>byName := byName r @ [(n, i)], topics := (topics r)(i \<mapsto> \<lparr>ID = i, Name = n\<rparr>)\<rparr>"
  have "applyEntries cw (e # es) r = applyEntries cw es ?r"
    using Cons.prems by (simp add: e installLocked_def validateTopicID_def byName_update_fresh)
  also have "\<dots> = (None, ?r\<lparr>byName := byName ?r @ es,
      topics := topics ?r ++ map_of (rev (map (\<lambda>(n, i). (i, \<lparr>ID = i, Name = n\<rparr>)) es))\<rparr>)"
    using Cons.prems by (intro Cons.IH) (auto simp: e map_add_def image_iff split: option.splits)
  finally show ?case by (simp add: e)
qed simp

lemma map_of_topics:
  assumes "reg_inv r"
  shows "map_of (rev (map (\<lambda>(n, i). (i, \<lparr>ID = i, Name = n\<rparr>)) (byName r))) = topics r"
proof
  fix i
  let ?es = "map (\<lambda>(n, i). (i, \<lparr>ID = i, Name = n\<rparr>)) (byName r)"
  show "map_of (rev ?es) i = topics r i"
  proof (cases "topics r i")
    case None
    then have "(n, i) \<notin> set (byName r)" for n
      using assms by (auto simp: reg_inv_def list_all_iff entry_ok_def)
    then have "i \<notin> fst ` set (rev ?es)" by auto
    then show ?thesis using None by (simp add: map_of_eq_None_iff)
  next
    case (Some m)
    then have "(Name m, i) \<in> set (byName r)" using assms by (simp add: reg_inv_def)
    then have "i \<in> fst ` set (rev ?es)" by (auto simp: image_image intro: rev_image_eqI)
    then obtain v where v: "map_of (rev ?es) i = Some v"
      using map_of_eq_None_iff [of "rev ?es" i] by blast
    then have "(i, v) \<in> set ?es" using map_of_SomeD [OF v] by simp
    then obtain n where "(n, i) \<in> set (byName r)" "v = \<lparr>ID = i, Name = n\<rparr>" by auto
    then show ?thesis using assms v by (auto simp: reg_inv_def list_all_iff entry_ok_def)
  qed
qed

lemma reload_eq:
  assumes "reg_inv r" and "unat (nextID r) + 1 < 2 ^ 32"
  shows "Load True (SetFileStore (Some (Some (snapshotLocked r))) NewTopicRegistry)
     = (None, r\<lparr>nextID := nextID r + 1,
               fileStore := Some (Some (snapshotLocked (r\<lparr>nextID := nextID r + 1\<rparr>)))\<rparr>)"
proof -
  let ?f = "Some (Some (snapshotLocked r))"
  let ?m = "foldl (\<lambda>m (_, i). if m < i then i else m) 0 (byName r)"
  have "unat ?m \<le> unat (nextID r)"
    using assms(1) by (intro maxID_bound) (auto simp: reg_inv_def list_all_iff entry_ok_def)
  moreover have "unat (ucast ?m :: u32) = unat ?m"
    using unat_bounds(2) [of ?m] by (simp add: unsigned_ucast_eq take_bit_eq_mod)
  moreover have "unat (nextID r + 1) = unat (nextID r) + 1"
    using assms(2) by (simp add: unat_word_ariths)
  ultimately have nx: "(ucast ?m :: u32) < nextID r + 1" by (simp add: word_less_nat_alt)
  have "distinct (map fst (byName r))"
    and "\<forall>e \<in> set (byName r). validateTopicName (fst e) = None \<and> snd e \<noteq> 0"
    using assms(1) by (simp_all add: reg_inv_def list_all_iff entry_ok_def)
  then have "applyEntries False (byName r) (NewTopicRegistry\<lparr>fileStore := ?f\<rparr>)
      = (None, r\<lparr>nextID := 0, fileStore := ?f\<rparr>)"
    using applyEntries_fresh [of "byName r" "NewTopicRegistry\<lparr>fileStore := ?f\<rparr>" False]
    by (simp add: map_of_topics [OF assms(1)] NewTopicRegistry_def)
  then show ?thesis using nx
    by (simp add: Load_def SetFileStore_def FileLoad_def with_version_def snapshotLocked_def
        registryFileVersion_def applySnapshotLocked_def rebuildNextIDLocked_def persistLocked_def
        FileSave_def NewTopicRegistry_def Let_def)
qed

section \<open>Keys\<close>

lemma LastIndex_None: "c \<notin> set ys \<Longrightarrow> LastIndex c ys = None"
  by (induction ys) auto

lemma LastIndex_last: "c \<notin> set ys \<Longrightarrow> LastIndex c (xs @ c # ys) = Some (length xs)"
  by (induction xs) (auto simp: LastIndex_None)

lemma digit_unat:
  assumes "d < 10"
  shows "unat (48 + (of_nat d :: byte)) = 48 + d"
proof -
  have "unat (of_nat d :: byte) = d" using assms by (simp add: unat_byte_of_nat)
  then show ?thesis using assms by (simp add: unat_word_ariths)
qed

lemma FormatUint_digits: "c \<in> set (FormatUint n) \<Longrightarrow> 48 \<le> unat c \<and> unat c \<le> 57"
proof (induction n rule: FormatUint.induct)
  case (1 n)
  show ?case
  proof (cases "n < 10")
    case True
    then show ?thesis using 1 digit_unat [of n] by (auto simp: FormatUint.simps [of n])
  next
    case False
    then show ?thesis using 1 digit_unat [of "n mod 10"]
      by (auto simp: FormatUint.simps [of n])
  qed
qed

lemma FormatUint_not_Nil [simp]: "FormatUint n \<noteq> []"
  by (simp add: FormatUint.simps [of n])

lemma parseDigits_append:
  "parseDigits M n (xs @ ys) = Option.bind (parseDigits M n xs) (\<lambda>n'. parseDigits M n' ys)"
  by (induction xs arbitrary: n) (auto simp: Let_def)

lemma parseDigits_digit:
  assumes "d < 10" and "n * 10 + d \<le> M"
  shows "parseDigits M n [48 + of_nat d] = Some (n * 10 + d)"
proof -
  have u: "unat (48 + (of_nat d :: byte)) = 48 + d" by (rule digit_unat [OF assms(1)])
  have "unat ((48 + (of_nat d :: byte)) - 48) = d" using assms(1) by (simp add: unat_byte_of_nat)
  then show ?thesis using u assms by (simp add: word_less_nat_alt)
qed

lemma parseDigits_FormatUint: "n \<le> M \<Longrightarrow> parseDigits M 0 (FormatUint n) = Some n"
proof (induction n rule: FormatUint.induct)
  case (1 n)
  show ?case
  proof (cases "n < 10")
    case True
    then show ?thesis using parseDigits_digit [of n 0 M] 1(2) by (simp add: FormatUint.simps [of n])
  next
    case False
    then have "FormatUint n = FormatUint (n div 10) @ [48 + of_nat (n mod 10)]"
      by (simp add: FormatUint.simps [of n])
    then show ?thesis
      using 1(1) [OF False] 1(2) parseDigits_digit [of "n mod 10" "n div 10" M] div_le_dividend [of n 10]
      by (simp del: parseDigits.simps add: parseDigits_append)
  qed
qed

section \<open>Properties of the registry\<close>





text \<open>C29. A registration whose snapshot could not be saved reports the error but stays in
  memory: the next registration of the same topic returns its id as a success while the file
  still does not hold it.\<close>

theorem failed_save_then_success:
  assumes "validateTopicName name = None" and "map_of (byName r) name = None"
    and "nextID r < 65535" and "fileStore r = Some file"
  shows "\<exists>r1. Register None other False r name = (Inl StoreFailed, r1)
            \<and> Register None other io r1 name = (Inr (ucast (nextID r + 1)), r1)
            \<and> fileStore r1 = Some file"
proof -
  have n: "unat (nextID r + 1) \<le> 65535" "unat (nextID r + 1) = unat (nextID r) + 1"
    using assms(3) by (simp_all add: word_less_nat_alt unat_word_ariths)
  then have le: "\<not> 65535 < nextID r + 1" by (simp add: word_less_nat_alt)
  have "unat (ucast (nextID r + 1) :: u16) \<noteq> 0" using n by (simp add: unat_u16_of_u32)
  then have "(ucast (nextID r + 1) :: u16) \<noteq> 0" by (metis unat_0)
  then show ?thesis using assms le
    by (simp add: Register_def finishRegister_def installLocked_def validateTopicID_def
        persistLocked_def FileSave_def Let_def byName_update_fresh map_add_def)
qed

theorem failed_save_then_success_witness:
  "\<exists>r1. Register None id False (SetFileStore (Some None) NewTopicRegistry) [97] = (Inl StoreFailed, r1)
      \<and> Register None id True r1 [97]
          = (Inr (ucast (nextID (SetFileStore (Some None) NewTopicRegistry) + 1)), r1)
      \<and> fileStore r1 = Some None"
  by (rule failed_save_then_success)
    (simp_all add: SetFileStore_def NewTopicRegistry_def validateTopicName_def)

text \<open>C30. Merging a cluster snapshot can give a local topic's id to another topic: after
  the merge both names resolve to the id, and \<open>Lookup\<close> of the id returned for the local
  name names the other one.\<close>

theorem Merge_can_alias_topics:
  "\<exists>r snap r'. reg_inv r \<and> Merge True snap r = (None, r')
     \<and> Register None id True r' [98] = (Inr 1, r')
     \<and> Lookup r' 1 = Some \<lparr>ID = 1, Name = [97]\<rparr>"
proof -
  let ?r = "snd (Register None id True NewTopicRegistry [98])"
  let ?snap = "\<lparr>Version = 1, Topics = [([97], 1)], NextID = 2\<rparr>"
  have r: "Register None id True NewTopicRegistry [98] = (Inr 1, ?r)"
    "?r = \<lparr>topics = (\<lambda>_. None)(1 \<mapsto> \<lparr>ID = 1, Name = [98]\<rparr>), byName = [([98], 1)],
          nextID = 1, fileStore = None\<rparr>"
    by (simp_all add: Register_def NewTopicRegistry_def validateTopicName_def finishRegister_def
        installLocked_def validateTopicID_def persistLocked_def Let_def)
  have "reg_inv ?r"
    using Register_local_cases [OF reg_inv_New _ r(1)] by (simp add: NewTopicRegistry_def)
  moreover have "Merge True ?snap ?r
     = (None, \<lparr>topics = (\<lambda>_. None)(1 \<mapsto> \<lparr>ID = 1, Name = [97]\<rparr>), byName = [([98], 1), ([97], 1)],
               nextID = 2, fileStore = None\<rparr>)"
    unfolding r(2)
    by (simp add: Merge_def applySnapshotLocked_def installLocked_def validateTopicName_def
        validateTopicID_def persistLocked_def rebuildNextIDLocked_def)
  ultimately show ?thesis
    by (intro exI [of _ ?r] exI [of _ ?snap] exI)
      (auto simp: Register_def Lookup_def validateTopicName_def)
qed

text \<open>A topic-partition key parses back to its topic and partition, for every topic,
  slashes in it included.\<close>

theorem TopicPartitionID_roundtrip:
  "ParseTopicPartitionID (TopicPartitionID topic part) = (topic, part)"
proof -
  let ?d = "FormatUint (unat part)"
  have "47 \<notin> set ?d" using FormatUint_digits [of 47 "unat part"] by auto
  then have "LastIndex 47 (topic @ 47 # ?d) = Some (length topic)" by (rule LastIndex_last)
  moreover have "unat part \<le> 65535" using unat_bounds(2) [of part] by simp
  then have "ParseUint16 ?d = Some part"
    by (simp add: ParseUint16_def parseDigits_FormatUint)
  ultimately show ?thesis by (simp add: TopicPartitionID_def ParseTopicPartitionID_def)
qed

end
