(* ===== verification/BrokerSegment.thy ===== *)
theory BrokerSegment
  imports Prelude
begin

text \<open>
  A segment of the broker's log (\<open>Segment\<close> in \<open>pkg/broker/log/log.go\<close>): a data file of
  length-prefixed records and a sparse index of (offset, position) pairs, both memory
  mapped. The disk maps a segment's base offset, which is its file name, to the contents
  of the two files, so that two \<open>Segment\<close> values opened on the same base share them as
  two shared mappings of one file do. \<open>dataLen\<close> and \<open>idxLen\<close> are the lengths of
  \<open>mmapData\<close> and \<open>mmapIndex\<close>. The calls into the operating system succeed.

  A record is written by three stores, kept as a list so that a crash between two of
  them can be stated.
\<close>

section \<open>Files\<close>

record seg_files =
  f_log :: bytes
  f_index :: bytes

type_synonym disk = "u64 \<Rightarrow> seg_files"

definition no_files :: seg_files where
  "no_files = \<lparr>f_log = [], f_index = []\<rparr>"

text \<open>\<open>os.File.Truncate\<close>, and a store through a shared mapping.\<close>

definition Truncate :: "nat \<Rightarrow> bytes \<Rightarrow> bytes" where
  "Truncate n f = take n f @ replicate (n - length f) 0"

definition store :: "bytes \<Rightarrow> nat \<times> bytes \<Rightarrow> bytes" where
  "store f w = take (fst w) f @ snd w @ drop (fst w + length (snd w)) f"

record segment =
  baseOffset :: u64
  logSize :: nat
  indexSize :: nat
  dataLen :: nat
  idxLen :: nat
  maxSegSize :: nat
  maxIdxSize :: nat

definition mmapData :: "disk \<Rightarrow> segment \<Rightarrow> bytes" where
  "mmapData d s = take (dataLen s) (f_log (d (baseOffset s)))"

definition mmapIndex :: "disk \<Rightarrow> segment \<Rightarrow> bytes" where
  "mmapIndex d s = take (idxLen s) (f_index (d (baseOffset s)))"

datatype log_error =
    SegmentFull | IndexFull | EOF | SegmentNotFound | StaleEpoch | ReplicationGap
  | RemoveAll

section \<open>Opening\<close>

text \<open>The entries of the index that are in order: \<open>prev\<close> is the last accepted offset.\<close>

fun scanIndex :: "bytes \<Rightarrow> u64 \<Rightarrow> nat \<Rightarrow> u64 option \<Rightarrow> nat \<Rightarrow> nat" where
  "scanIndex idxData base i prev 0 = 0"
| "scanIndex idxData base i prev (Suc n) =
     (let off = get64 (window idxData (i * 16) (i * 16 + 8));
          pos = get64 (window idxData (i * 16 + 8) (i * 16 + 16))
      in if off = 0 \<and> pos = 0 \<and> 0 < i then 0
         else if off < base then 0
         else if 2 ^ 63 \<le> unat pos then 0
         else if (case prev of None \<Rightarrow> False | Some l \<Rightarrow> off \<le> l) then 0
         else Suc (scanIndex idxData base (Suc i) (Some off) n))"

definition findActualIndexSize :: "bytes \<Rightarrow> u64 \<Rightarrow> nat" where
  "findActualIndexSize idxData base = scanIndex idxData base 0 None (length idxData div 16) * 16"

definition NewSegment ::
  "disk \<Rightarrow> u64 \<Rightarrow> nat \<Rightarrow> int \<Rightarrow> bool \<Rightarrow> disk \<times> segment" where
  "NewSegment d base maxSeg indexInterval writeable =
     (let f = d base;
          lsz = length (f_log f);
          isz0 = length (f_index f);
          isz = (if 0 < isz0 then findActualIndexSize (f_index f) base else isz0);
          interval = (if indexInterval \<le> 0 then 4096 else indexInterval);
          maxIdx = (maxSeg div nat interval + 100) * 16
      in if writeable
         then (d(base := \<lparr>f_log = (if lsz < maxSeg then Truncate maxSeg (f_log f) else f_log f),
                          f_index = (if isz < maxIdx then Truncate maxIdx (f_index f)
                                     else f_index f)\<rparr>),
               \<lparr>baseOffset = base, logSize = lsz, indexSize = isz, dataLen = maxSeg,
                idxLen = maxIdx, maxSegSize = maxSeg, maxIdxSize = maxIdx\<rparr>)
         else (d, \<lparr>baseOffset = base, logSize = lsz, indexSize = isz, dataLen = lsz,
                   idxLen = isz, maxSegSize = maxSeg, maxIdxSize = maxIdx\<rparr>))"

section \<open>Writing\<close>

definition write_stores :: "nat \<Rightarrow> u64 \<Rightarrow> bytes \<Rightarrow> (nat \<times> bytes) list" where
  "write_stores pos off payload =
     [(pos, be32 (u32_of (8 + length payload))), (pos + 4, be64 off)]
     @ (if 0 < length payload then [(pos + 12, payload)] else [])"

definition Write ::
  "disk \<Rightarrow> segment \<Rightarrow> u64 \<Rightarrow> bytes \<Rightarrow> (log_error + nat) \<times> disk \<times> segment" where
  "Write d s off payload =
     (let totalLen = 12 + length payload;
          pos = logSize s
      in if maxSegSize s < pos + totalLen then (Inl SegmentFull, d, s)
         else let f = d (baseOffset s);
                  log = foldl store (f_log f) (write_stores pos off payload)
              in (Inr pos, d(baseOffset s := f\<lparr>f_log := log\<rparr>), s\<lparr>logSize := pos + totalLen\<rparr>))"

definition WriteIndexEntry ::
  "disk \<Rightarrow> segment \<Rightarrow> u64 \<Rightarrow> nat \<Rightarrow> log_error option \<times> disk \<times> segment" where
  "WriteIndexEntry d s off pos =
     (let idxSize = indexSize s
      in if maxIdxSize s < idxSize + 16 then (Some IndexFull, d, s)
         else let f = d (baseOffset s);
                  idx = store (store (f_index f) (idxSize, be64 off)) (idxSize + 8, be64 (u64_of pos))
              in (None, d(baseOffset s := f\<lparr>f_index := idx\<rparr>), s\<lparr>indexSize := idxSize + 16\<rparr>))"

section \<open>Finding\<close>

function searchIndex :: "bytes \<Rightarrow> u64 \<Rightarrow> int \<Rightarrow> int \<Rightarrow> nat \<Rightarrow> nat" where
  "searchIndex idx off low high bestPos =
     (if low \<le> high
      then let mid = (low + high) div 2;
               m = nat mid;
               o' = get64 (window idx (m * 16) (m * 16 + 8))
           in if o' \<le> off
              then searchIndex idx off (mid + 1) high
                     (unat (get64 (window idx (m * 16 + 8) (m * 16 + 16))))
              else searchIndex idx off low (mid - 1) bestPos
      else bestPos)"
  by pat_completeness auto
termination
  by (relation "measure (\<lambda>(idx, off, low, high, bestPos). nat (high - low + 1))") auto

declare searchIndex.simps [simp del]

definition FindPosition :: "disk \<Rightarrow> segment \<Rightarrow> u64 \<Rightarrow> nat" where
  "FindPosition d s off =
     (let n = indexSize s div 16
      in if n = 0 then 0 else searchIndex (mmapIndex d s) off 0 (int n - 1) 0)"

text \<open>The loop of \<open>LocateMessages\<close>; \<open>target\<close> is \<open>None\<close> for the code's -1.\<close>

function locateLoop ::
  "bytes \<Rightarrow> nat \<Rightarrow> u64 \<Rightarrow> u32 \<Rightarrow> nat \<Rightarrow> nat option \<Rightarrow> u32 \<Rightarrow> u32
     \<Rightarrow> nat option \<times> u32 \<times> u32" where
  "locateLoop data lsz start maxBytes cur target cnt tot =
     (if lsz < cur + 12 then (target, cnt, tot)
      else let len = get32 (window data cur (cur + 4));
               off = get64 (window data (cur + 4) (cur + 12))
           in if unat len < 8 then (target, cnt, tot)
              else let recordLen = 12 + (unat len - 8)
                   in if lsz < cur + recordLen then (target, cnt, tot)
                      else if start \<le> off
                      then let target' = (case target of None \<Rightarrow> Some cur | Some t \<Rightarrow> Some t)
                           in if maxBytes < tot + u32_of recordLen \<and> 0 < cnt
                              then (target', cnt, tot)
                              else let tot' = tot + u32_of recordLen
                                   in if maxBytes \<le> tot' then (target', cnt + 1, tot')
                                      else locateLoop data lsz start maxBytes (cur + recordLen)
                                             target' (cnt + 1) tot'
                      else if target \<noteq> None \<and> maxBytes \<le> tot then (target, cnt, tot)
                      else locateLoop data lsz start maxBytes (cur + recordLen) target cnt tot)"
  by pat_completeness auto
termination
  by (relation "measure (\<lambda>(data, lsz, start, maxBytes, cur, target, cnt, tot). lsz - cur)") auto

declare locateLoop.simps [simp del]

definition LocateMessages ::
  "disk \<Rightarrow> segment \<Rightarrow> nat \<Rightarrow> u64 \<Rightarrow> u32 \<Rightarrow> log_error + (nat \<times> u32 \<times> u32)" where
  "LocateMessages d s indexPos start maxBytes =
     (case locateLoop (mmapData d s) (logSize s) start maxBytes indexPos None 0 0 of
        (None, _, _) \<Rightarrow> Inl EOF
      | (Some t, cnt, tot) \<Rightarrow> Inr (t, cnt, tot))"

section \<open>Recovery\<close>

function recoverLoop :: "bytes \<Rightarrow> u64 \<Rightarrow> nat \<Rightarrow> u64 \<times> nat" where
  "recoverLoop data curOff curPos =
     (if length data < curPos + 12 then (curOff, curPos)
      else let len = get32 (window data curPos (curPos + 4));
               off = get64 (window data (curPos + 4) (curPos + 12))
           in if len = 0 \<and> off = 0 then (curOff, curPos)
              else if unat len < 8 \<or> length data < curPos + 12 + (unat len - 8)
              then (curOff, curPos)
              else recoverLoop data (off + 1) (curPos + 12 + (unat len - 8)))"
  by pat_completeness auto
termination
  by (relation "measure (\<lambda>(data, curOff, curPos). length data - curPos)") auto

declare recoverLoop.simps [simp del]

definition Recover :: "disk \<Rightarrow> segment \<Rightarrow> u64 \<times> disk \<times> segment" where
  "Recover d s =
     (let f = d (baseOffset s);
          isz0 = length (f_index f);
          idxSize = (if 0 < isz0 then findActualIndexSize (f_index f) (baseOffset s) else isz0);
          idx = mmapIndex d s;
          (lastOff, lastPos) =
            (if 16 \<le> idxSize \<and> idxSize \<le> length idx
             then (get64 (window idx (idxSize - 16) (idxSize - 8)),
                   unat (get64 (window idx (idxSize - 8) idxSize)))
             else (baseOffset s, 0));
          mmapSize = length (mmapData d s);
          (curOff, curPos) = recoverLoop (mmapData d s) lastOff lastPos;
          log1 = Truncate curPos (f_log f)
      in if mmapSize = maxSegSize s
         then (curOff,
               d(baseOffset s := \<lparr>f_log = Truncate (maxSegSize s) log1,
                                  f_index = Truncate (maxIdxSize s) (f_index f)\<rparr>),
               s\<lparr>logSize := curPos, indexSize := idxSize, dataLen := maxSegSize s,
                 idxLen := maxIdxSize s\<rparr>)
         else (curOff, d(baseOffset s := f\<lparr>f_log := log1\<rparr>),
               s\<lparr>logSize := curPos, indexSize := idxSize, dataLen := curPos, idxLen := idxSize\<rparr>))"

section \<open>Records in a data file\<close>

type_synonym rec = "u64 \<times> bytes"

definition enc_rec :: "rec \<Rightarrow> bytes" where
  "enc_rec r = be32 (u32_of (8 + length (snd r))) @ be64 (fst r) @ snd r"

definition layout :: "rec list \<Rightarrow> bytes" where
  "layout rs = concat (map enc_rec rs)"

abbreviation rec_len :: "rec \<Rightarrow> nat" where
  "rec_len r \<equiv> 12 + length (snd r)"

abbreviation rec_ok :: "rec \<Rightarrow> bool" where
  "rec_ok r \<equiv> 8 + length (snd r) < 2 ^ 32"

lemma length_enc_rec [len_simps, simp]: "length (enc_rec r) = 12 + length (snd r)"
  by (simp add: enc_rec_def)

lemma layout_simps [simp]:
  "layout [] = []" "layout (r # rs) = enc_rec r @ layout rs"
  "layout (rs @ rs') = layout rs @ layout rs'"
  by (simp_all add: layout_def)

lemma rec_header:
  assumes "rec_ok r"
  shows "unat (get32 (window (pre @ enc_rec r @ post) (length pre) (length pre + 4))) = 8 + length (snd r)"
    and "get64 (window (pre @ enc_rec r @ post) (length pre + 4) (length pre + 12)) = fst r"
  using assms by (simp_all add: enc_rec_def window_def)

lemma rec_fits:
  assumes "r \<in> set rs"
  shows "12 + length (snd r) \<le> length (layout rs)"
  using assms by (induction rs) auto

section \<open>Locating\<close>

text \<open>The messages one fetch returns: as many as fit \<open>m\<close> bytes, but at least one; \<open>t\<close>
  bytes are taken already.\<close>

fun greedy :: "nat \<Rightarrow> nat \<Rightarrow> rec list \<Rightarrow> rec list" where
  "greedy m t [] = []"
| "greedy m t (r # rs) =
     (if m < t + rec_len r \<and> 0 < t then []
      else r # (if m \<le> t + rec_len r then [] else greedy m (t + rec_len r) rs))"

lemma greedy_prefix: "\<exists>rest. rs = greedy m t rs @ rest"
  by (induction m t rs rule: greedy.induct) auto

lemma greedy_bytes_pos:
  "0 < t \<Longrightarrow> t \<le> m \<Longrightarrow> t + length (layout (greedy m t rs)) \<le> m"
  by (induction m t rs rule: greedy.induct) auto

lemma greedy_bytes: "length (layout (greedy m 0 rs)) \<le> m \<or> length (greedy m 0 rs) = 1"
proof (cases rs)
  case (Cons r rs')
  then show ?thesis using greedy_bytes_pos [of "rec_len r" m rs'] by auto
qed simp

lemma locateLoop_run:
  assumes "\<forall>r \<in> set rs. rec_ok r \<and> start \<le> fst r \<and> unat maxBytes + rec_len r < 2 ^ 32"
    and "unat tot = t" and "0 < t \<longleftrightarrow> 0 < cnt" and "unat cnt \<le> t" and "t < unat maxBytes \<or> t = 0"
  shows "locateLoop (pre @ layout rs @ post) (length pre + length (layout rs)) start maxBytes
           (length pre) target cnt tot
       = (if rs = [] then target else case target of None \<Rightarrow> Some (length pre) | Some x \<Rightarrow> Some x,
          cnt + u32_of (length (greedy (unat maxBytes) t rs)),
          tot + u32_of (length (layout (greedy (unat maxBytes) t rs))))"
  using assms
proof (induction rs arbitrary: pre target cnt tot t)
  case Nil
  then show ?case by (simp add: locateLoop.simps u32_of_def)
next
  case (Cons r rs)
  let ?m = "unat maxBytes"
  let ?data = "pre @ enc_rec r @ layout rs @ post"
  have ok: "rec_ok r" "start \<le> fst r" "?m + rec_len r < 2 ^ 32" using Cons.prems(1) by auto
  note h = rec_header [OF ok(1), of pre "layout rs @ post"]
  have tb: "t < ?m \<or> t = 0" by (fact Cons.prems(5))
  have ru: "unat (u32_of (rec_len r)) = rec_len r" using ok(3) by simp
  have totu: "unat (tot + u32_of (rec_len r)) = t + rec_len r"
    using ok(3) tb Cons.prems(2) ru by (auto simp: unat_word_ariths)
  have cmp: "maxBytes < tot + u32_of (rec_len r) \<longleftrightarrow> ?m < t + rec_len r"
    "maxBytes \<le> tot + u32_of (rec_len r) \<longleftrightarrow> ?m \<le> t + rec_len r"
    by (simp_all add: word_less_nat_alt word_le_nat_alt totu)
  have step: "locateLoop ?data (length pre + length (enc_rec r @ layout rs)) start maxBytes (length pre) target cnt tot
     = (let tg = (case target of None \<Rightarrow> Some (length pre) | Some x \<Rightarrow> Some x)
        in if ?m < t + rec_len r \<and> 0 < t then (tg, cnt, tot)
           else if ?m \<le> t + rec_len r then (tg, cnt + 1, tot + u32_of (rec_len r))
           else locateLoop ?data (length pre + length (enc_rec r @ layout rs)) start maxBytes
                  (length pre + rec_len r) tg (cnt + 1) (tot + u32_of (rec_len r)))"
    using ok cmp Cons.prems(3)
    by (subst locateLoop.simps) (simp add: h Let_def)
  show ?case
  proof (cases "?m \<le> t + rec_len r")
    case True
    then show ?thesis using step
      by (auto simp: Let_def u32_of_def)
  next
    case False
    have "unat (cnt + 1) = unat cnt + 1"
      using Cons.prems(4) False totu unat_bounds(3) [of maxBytes] by (simp add: unat_word_ariths)
    then have "locateLoop ((pre @ enc_rec r) @ layout rs @ post) (length (pre @ enc_rec r) + length (layout rs))
         start maxBytes (length (pre @ enc_rec r)) (case target of None \<Rightarrow> Some (length pre) | Some x \<Rightarrow> Some x)
         (cnt + 1) (tot + u32_of (rec_len r))
       = (if rs = [] then (case target of None \<Rightarrow> Some (length pre) | Some x \<Rightarrow> Some x)
          else case (case target of None \<Rightarrow> Some (length pre) | Some x \<Rightarrow> Some x) of
                 None \<Rightarrow> Some (length (pre @ enc_rec r)) | Some x \<Rightarrow> Some x,
          cnt + 1 + u32_of (length (greedy ?m (t + rec_len r) rs)),
          tot + u32_of (rec_len r) + u32_of (length (layout (greedy ?m (t + rec_len r) rs))))"
      using Cons.prems(1,4) False totu
      by (intro Cons.IH) (auto simp: word_gt_0_no unat_eq_zero word_gt_0)
    then show ?thesis using step False
      by (auto simp: Let_def u32_of_def algebra_simps split: option.splits)
  qed
qed

lemma locateLoop_skip:
  assumes "\<forall>r \<in> set rs. rec_ok r \<and> fst r < start"
    and "lsz = length pre + length (layout rs) + extra"
  shows "locateLoop (pre @ layout rs @ post) lsz start maxBytes (length pre) None cnt tot
       = locateLoop (pre @ layout rs @ post) lsz start maxBytes (length pre + length (layout rs))
           None cnt tot"
  using assms
proof (induction rs arbitrary: pre)
  case (Cons r rs)
  have ok: "rec_ok r" "\<not> start \<le> fst r" using Cons.prems(1) by auto
  note h = rec_header [OF ok(1), of pre "layout rs @ post"]
  have "locateLoop (pre @ layout (r # rs) @ post) lsz start maxBytes (length pre) None cnt tot
     = locateLoop ((pre @ enc_rec r) @ layout rs @ post) lsz start maxBytes
         (length (pre @ enc_rec r)) None cnt tot"
    using ok Cons.prems(2) by (subst locateLoop.simps) (simp add: h Let_def)
  also have "\<dots> = locateLoop ((pre @ enc_rec r) @ layout rs @ post) lsz start maxBytes
         (length (pre @ enc_rec r) + length (layout rs)) None cnt tot"
    using Cons.prems by (intro Cons.IH) auto
  finally show ?case by (simp add: add.assoc)
qed simp

section \<open>Recovering\<close>

definition zeros :: "bytes \<Rightarrow> bool" where
  "zeros bs \<longleftrightarrow> bs = replicate (length bs) 0"

lemma get_be_zeros: "get_be (replicate n 0) = 0"
proof -
  have "get_le (replicate n 0) = 0" by (induction n) simp_all
  then show ?thesis by (simp add: get_be_def)
qed

lemma recoverLoop_records:
  assumes "\<forall>r \<in> set rs. rec_ok r" and "zeros post"
  shows "recoverLoop (pre @ layout rs @ post) cur (length pre)
       = (if rs = [] then cur else fst (last rs) + 1, length pre + length (layout rs))"
  using assms(1)
proof (induction rs arbitrary: pre cur)
  case Nil
  show ?case
  proof (cases "length post < 12")
    case True
    then show ?thesis by (simp add: recoverLoop.simps)
  next
    case False
    obtain n where n: "post = replicate n 0" using assms(2) unfolding zeros_def by blast
    have "window (pre @ post) (length pre) (length pre + 4) = replicate 4 0"
      "window (pre @ post) (length pre + 4) (length pre + 12) = replicate 8 0"
      using False by (simp_all add: n window_def min_def)
    then show ?thesis using False
      by (subst recoverLoop.simps) (simp add: get32_def get64_def get_be_zeros)
  qed
next
  case (Cons r rs)
  have ok: "rec_ok r" using Cons.prems by auto
  note h = rec_header [OF ok, of pre "layout rs @ post"]
  have "get32 (window (pre @ enc_rec r @ layout rs @ post) (length pre) (length pre + 4)) \<noteq> 0"
    using h(1) by (metis add_is_0 unat_0 zero_neq_numeral)
  then have "recoverLoop (pre @ layout (r # rs) @ post) cur (length pre)
      = recoverLoop ((pre @ enc_rec r) @ layout rs @ post) (fst r + 1) (length (pre @ enc_rec r))"
    by (subst recoverLoop.simps) (simp add: h Let_def add.assoc)
  also have "\<dots> = (if rs = [] then fst r + 1 else fst (last rs) + 1,
                  length (pre @ enc_rec r) + length (layout rs))"
    using Cons.prems by (intro Cons.IH) simp
  finally show ?case by simp
qed

section \<open>The segment invariant\<close>

definition pos_at :: "rec list \<Rightarrow> nat \<Rightarrow> nat" where
  "pos_at rs k = length (layout (take k rs))"

definition recs_from :: "u64 \<Rightarrow> rec list \<Rightarrow> bool" where
  "recs_from base rs \<longleftrightarrow>
     (\<forall>k < length rs. fst (rs ! k) = base + of_nat k) \<and> unat base + length rs < 2 ^ 64
     \<and> length (layout rs) < 2 ^ 63 \<and> (\<forall>r \<in> set rs. rec_ok r)"

definition slot :: "bytes \<Rightarrow> nat \<Rightarrow> u64 \<times> u64" where
  "slot idx i = (get64 (window idx (i * 16) (i * 16 + 8)), get64 (window idx (i * 16 + 8) (i * 16 + 16)))"

definition true_entry :: "u64 \<Rightarrow> rec list \<Rightarrow> u64 \<times> u64 \<Rightarrow> bool" where
  "true_entry base rs e \<longleftrightarrow>
     (\<exists>k. (k = 0 \<or> k < length rs) \<and> e = (base + of_nat k, u64_of (pos_at rs k)))"

definition slots_ok :: "u64 \<Rightarrow> rec list \<Rightarrow> bytes \<Rightarrow> bool" where
  "slots_ok base rs idx \<longleftrightarrow>
     (\<forall>i < length idx div 16. slot idx i = (0, 0) \<or> true_entry base rs (slot idx i))"

definition index_ok :: "u64 \<Rightarrow> rec list \<Rightarrow> bytes \<Rightarrow> nat \<Rightarrow> bool" where
  "index_ok base rs idx n \<longleftrightarrow>
     n * 16 \<le> length idx \<and> (\<forall>i < n. true_entry base rs (slot idx i))
     \<and> (\<forall>i j. i \<le> j \<longrightarrow> j < n \<longrightarrow> fst (slot idx i) \<le> fst (slot idx j))"

text \<open>A segment holds the records \<open>rs\<close>: its data file starts with them and its index points
  at some of them. The active segment also has the mapping lengths it writes within and
  zeros behind the last record.\<close>

definition seg_inv :: "disk \<Rightarrow> segment \<Rightarrow> rec list \<Rightarrow> bool" where
  "seg_inv d s rs \<longleftrightarrow>
     recs_from (baseOffset s) rs \<and> logSize s = length (layout rs) \<and> logSize s \<le> dataLen s
     \<and> take (logSize s) (f_log (d (baseOffset s))) = layout rs
     \<and> dataLen s \<le> length (f_log (d (baseOffset s)))
     \<and> 16 dvd indexSize s \<and> indexSize s \<le> idxLen s
     \<and> index_ok (baseOffset s) rs (f_index (d (baseOffset s))) (indexSize s div 16)"

definition active_inv :: "disk \<Rightarrow> segment \<Rightarrow> rec list \<Rightarrow> bool" where
  "active_inv d s rs \<longleftrightarrow>
     seg_inv d s rs \<and> dataLen s = maxSegSize s \<and> idxLen s = maxIdxSize s
     \<and> length (f_log (d (baseOffset s))) = maxSegSize s
     \<and> length (f_index (d (baseOffset s))) = maxIdxSize s
     \<and> zeros (drop (logSize s) (f_log (d (baseOffset s))))
     \<and> slots_ok (baseOffset s) rs (f_index (d (baseOffset s)))"

lemma pos_at_append [simp]: "k \<le> length rs \<Longrightarrow> pos_at (rs @ rs') k = pos_at rs k"
  by (simp add: pos_at_def)

lemma pos_at_all [simp]: "pos_at rs (length rs) = length (layout rs)" "pos_at rs 0 = 0"
  by (simp_all add: pos_at_def)

lemma pos_at_le: "pos_at rs k \<le> length (layout rs)"
proof -
  have "layout rs = layout (take k rs) @ layout (drop k rs)"
    by (metis append_take_drop_id layout_simps(3))
  then show ?thesis by (simp add: pos_at_def)
qed

lemma layout_split: "layout rs = layout (take k rs) @ layout (drop k rs)"
  by (metis append_take_drop_id layout_simps(3))

lemma true_entry_append: "true_entry base rs e \<Longrightarrow> true_entry base (rs @ rs') e"
  unfolding true_entry_def by (metis less_imp_le_nat length_append pos_at_append trans_less_add1 zero_le)

lemma base_plus:
  assumes "recs_from base rs" and "k \<le> length rs"
  shows "unat (base + of_nat k) = unat base + k"
proof -
  have "unat base + k < 2 ^ 64" using assms by (simp add: recs_from_def)
  then show ?thesis by (simp add: unat_word_ariths unat_of_nat)
qed

lemma true_entry_pos:
  assumes "recs_from base rs" and "true_entry base rs e"
  shows "\<exists>k. (k = 0 \<or> k < length rs) \<and> fst e = base + of_nat k \<and> unat (snd e) = pos_at rs k"
proof -
  obtain k where k: "k = 0 \<or> k < length rs" "e = (base + of_nat k, u64_of (pos_at rs k))"
    using assms(2) by (auto simp: true_entry_def)
  have "pos_at rs k < 2 ^ 64"
    using pos_at_le [of rs k] assms(1) by (simp add: recs_from_def)
  then show ?thesis using k by auto
qed

section \<open>Stores\<close>

lemma length_store: "pos + length bs \<le> length f \<Longrightarrow> length (store f (pos, bs)) = length f"
  by (simp add: store_def)

lemma store_at: "store (pre @ old @ post) (length pre, bs) = pre @ bs @ post" if "length old = length bs"
  using that by (simp add: store_def)

lemma write_stores_eq:
  assumes "length old = 12 + length p"
  shows "foldl store (pre @ old @ post) (write_stores (length pre) off p) = pre @ enc_rec (off, p) @ post"
proof -
  obtain a b c where abc: "old = a @ b @ c" "length a = 4" "length b = 8" "length c = length p"
    using assms that [of "take 4 old" "take 8 (drop 4 old)" "drop 12 old"]
    by (simp add: drop_drop flip: append_assoc) (simp add: take_add [of 4 8, symmetric, simplified])
  have 1: "store (pre @ old @ post) (length pre, be32 n) = pre @ be32 n @ b @ c @ post" for n
    using store_at [of a "be32 n" pre "b @ c @ post"] abc by simp
  have 2: "store (pre @ be32 n @ b @ c @ post) (length pre + 4, be64 off) = pre @ be32 n @ be64 off @ c @ post" for n
    using store_at [of b "be64 off" "pre @ be32 n" "c @ post"] abc by simp
  have 3: "store (pre @ be32 n @ be64 off @ c @ post) (length pre + 12, p) = pre @ be32 n @ be64 off @ p @ post" for n
    using store_at [of c p "pre @ be32 n @ be64 off" post] abc by simp
  show ?thesis using 1 2 3 abc by (auto simp: write_stores_def enc_rec_def)
qed


lemma recs_from_snoc:
  assumes "recs_from base rs" and "off = base + of_nat (length rs)" and "8 + length p < 2 ^ 32"
    and "length (layout rs) + 12 + length p < 2 ^ 63" and "unat base + length rs + 1 < 2 ^ 64"
  shows "recs_from base (rs @ [(off, p)])"
  using assms by (auto simp: recs_from_def nth_append less_Suc_eq)

lemma zeros_drop: "zeros bs \<Longrightarrow> zeros (drop n bs)"
  unfolding zeros_def by (metis drop_replicate length_drop)

lemma slots_ok_append: "slots_ok base rs idx \<Longrightarrow> slots_ok base (rs @ rs') idx"
  unfolding slots_ok_def using true_entry_append by blast

lemma index_ok_append: "index_ok base rs idx n \<Longrightarrow> index_ok base (rs @ rs') idx n"
  unfolding index_ok_def using true_entry_append by blast

lemma Write_ok:
  assumes inv: "active_inv d s rs" and off: "off = baseOffset s + of_nat (length rs)"
    and fits: "logSize s + (12 + length p) \<le> maxSegSize s"
    and p: "8 + length p < 2 ^ 32" and sz: "maxSegSize s < 2 ^ 63"
    and room: "unat (baseOffset s) + length rs + 1 < 2 ^ 64"
  shows "\<exists>d' s'. Write d s off p = (Inr (logSize s), d', s')
      \<and> s' = s\<lparr>logSize := logSize s + (12 + length p)\<rparr>
      \<and> (\<forall>b. b \<noteq> baseOffset s \<longrightarrow> d' b = d b)
      \<and> f_index (d' (baseOffset s)) = f_index (d (baseOffset s))
      \<and> active_inv d' s' (rs @ [(off, p)])"
proof -
  let ?b = "baseOffset s" and ?f = "f_log (d (baseOffset s))"
  have i: "seg_inv d s rs" "length ?f = maxSegSize s" using inv by (auto simp: active_inv_def)
  have l: "logSize s = length (layout rs)" "take (logSize s) ?f = layout rs"
    using i(1) by (auto simp: seg_inv_def)
  define old where "old = take (12 + length p) (drop (logSize s) ?f)"
  define post where "post = drop (logSize s + (12 + length p)) ?f"
  have f: "?f = layout rs @ old @ post"
    using l(2) unfolding old_def post_def
    by (metis append_take_drop_id drop_drop add.commute)
  have lo: "length old = 12 + length p" using fits i(2) by (simp add: old_def)
  let ?new = "layout rs @ enc_rec (off, p) @ post"
  let ?d = "d(?b := d ?b\<lparr>f_log := ?new\<rparr>)" and ?s = "s\<lparr>logSize := logSize s + (12 + length p)\<rparr>"
  have W: "Write d s off p = (Inr (logSize s), ?d, ?s)"
    using fits write_stores_eq [OF lo, of "layout rs" post off] f l(1)
    by (simp add: Write_def Let_def)
  have rf: "recs_from ?b (rs @ [(off, p)])"
    using i(1) off p sz fits l(1) room by (intro recs_from_snoc) (auto simp: seg_inv_def)
  have z: "zeros post" using inv zeros_drop [of "drop (logSize s) ?f" "12 + length p"]
    by (simp add: active_inv_def post_def add.commute)
  have "length ?new = length ?f" using f lo by simp
  then have "active_inv ?d ?s (rs @ [(off, p)])"
    using inv rf z l(1) fits
    by (auto simp: active_inv_def seg_inv_def index_ok_append slots_ok_append)
  then show ?thesis using W by auto
qed

lemma slot_store_same:
  assumes "n * 16 + 16 \<le> length f"
  shows "slot (store (store f (n * 16, be64 a)) (n * 16 + 8, be64 b)) n = (a, b)"
proof -
  have "store (store f (n * 16, be64 a)) (n * 16 + 8, be64 b)
      = take (n * 16) f @ be64 a @ be64 b @ drop (n * 16 + 16) f"
    using assms by (simp add: store_def add.commute)
  then show ?thesis using assms by (simp add: slot_def window_def)
qed

lemma slot_store_other:
  assumes "i \<noteq> n" and "n * 16 + 16 \<le> length f" and "i * 16 + 16 \<le> length f"
  shows "slot (store (store f (n * 16, be64 a)) (n * 16 + 8, be64 b)) i = slot f i"
proof -
  have f: "store (store f (n * 16, be64 a)) (n * 16 + 8, be64 b)
      = take (n * 16) f @ (be64 a @ be64 b) @ drop (n * 16 + 16) f"
    using assms by (simp add: store_def add.commute)
  consider "i * 16 + 16 \<le> n * 16" | "n * 16 + 16 \<le> i * 16" using assms(1) by linarith
  then show ?thesis
  proof cases
    case 1
    then show ?thesis using assms unfolding f slot_def
      by (simp add: window_append_left) (simp add: window_def drop_take take_take min_def)
  next
    case 2
    then show ?thesis using assms unfolding f slot_def by (simp add: window_def add.commute)
  qed
qed

lemma length_store2:
  "n * 16 + 16 \<le> length f \<Longrightarrow> length (store (store f (n * 16, be64 a)) (n * 16 + 8, be64 b)) = length f"
  by (simp add: store_def)

lemma true_entry_last:
  assumes "rs \<noteq> []"
  shows "true_entry base rs (base + of_nat (length rs - 1), u64_of (pos_at rs (length rs - 1)))"
  using assms by (auto simp: true_entry_def intro: exI [of _ "length rs - 1"])

lemma true_entry_le_last:
  assumes "recs_from base rs" and "true_entry base rs e" and "rs \<noteq> []"
  shows "fst e \<le> base + of_nat (length rs - 1)"
proof -
  obtain k where k: "k = 0 \<or> k < length rs" "fst e = base + of_nat k"
    using true_entry_pos [OF assms(1,2)] by blast
  then have "k \<le> length rs - 1" using assms(3) by (cases rs) auto
  then show ?thesis
    using base_plus [OF assms(1), of k] base_plus [OF assms(1), of "length rs - 1"] k
    by (simp add: word_le_nat_alt)
qed

lemma WriteIndexEntry_ok:
  assumes inv: "active_inv d s rs" and rs: "rs \<noteq> []"
    and off: "off = baseOffset s + of_nat (length rs - 1)" and pos: "pos = pos_at rs (length rs - 1)"
    and fits: "indexSize s + 16 \<le> maxIdxSize s"
  shows "\<exists>d' s'. WriteIndexEntry d s off pos = (None, d', s')
      \<and> s' = s\<lparr>indexSize := indexSize s + 16\<rparr> \<and> (\<forall>b. b \<noteq> baseOffset s \<longrightarrow> d' b = d b)
      \<and> active_inv d' s' rs"
proof -
  let ?b = "baseOffset s"
  define n where "n = indexSize s div 16"
  define f where "f = f_index (d ?b)"
  have si: "seg_inv d s rs" using inv by (simp add: active_inv_def)
  have n: "indexSize s = n * 16" using si by (simp add: seg_inv_def n_def)
  have lf: "length f = maxIdxSize s" using inv by (simp add: active_inv_def f_def)
  have fit: "n * 16 + 16 \<le> length f" using fits n lf by simp
  define f' where "f' = store (store f (n * 16, be64 off)) (n * 16 + 8, be64 (u64_of pos))"
  have l': "length f' = length f" using length_store2 [OF fit] by (simp add: f'_def)
  have same: "slot f' n = (off, u64_of pos)" using slot_store_same [OF fit] by (simp add: f'_def)
  have other: "slot f' i = slot f i" if "i \<noteq> n" "i < length f div 16" for i
    unfolding f'_def by (rule slot_store_other [OF that(1) fit]) (use that(2) in linarith)
  have te: "true_entry ?b rs (slot f' n)"
    using true_entry_last [OF rs] same off pos by simp
  have rf: "recs_from ?b rs" using si by (simp add: seg_inv_def)
  have io: "index_ok ?b rs f n" using si by (simp add: seg_inv_def n_def f_def)
  have io': "index_ok ?b rs f' (Suc n)"
  proof -
    have lt: "i < length f div 16" if "i \<le> n" for i using that fit by linarith
    have tr: "true_entry ?b rs (slot f' i)" if "i < Suc n" for i
      using that te other [of i] lt [of i] io by (cases "i = n") (auto simp: index_ok_def)
    have "fst (slot f' i) \<le> fst (slot f' j)" if "i \<le> j" "j < Suc n" for i j
    proof (cases "j = n")
      case True
      then show ?thesis using true_entry_le_last [OF rf tr rs, of i] that same off by simp
    next
      case False
      then show ?thesis using that io other [of i] other [of j] lt [of i] lt [of j]
        by (auto simp: index_ok_def)
    qed
    then show ?thesis using tr fit l' by (simp add: index_ok_def)
  qed
  have so: "slots_ok ?b rs f'"
    unfolding slots_ok_def
  proof (intro allI impI)
    fix i assume "i < length f' div 16"
    then show "slot f' i = (0, 0) \<or> true_entry ?b rs (slot f' i)"
      using inv te other [of i] l' by (cases "i = n") (auto simp: active_inv_def slots_ok_def f_def)
  qed
  let ?d = "d(?b := d ?b\<lparr>f_index := f'\<rparr>)" and ?s = "s\<lparr>indexSize := indexSize s + 16\<rparr>"
  have "WriteIndexEntry d s off pos = (None, ?d, ?s)"
    using fits by (simp add: WriteIndexEntry_def Let_def f'_def f_def n)
  moreover have "active_inv ?d ?s rs"
    using inv io' so l' fits lf n by (auto simp: active_inv_def seg_inv_def f_def)
  ultimately show ?thesis by auto
qed

section \<open>The index leads to a record at or before the wanted one\<close>

lemma slot_mmap:
  assumes "i * 16 + 16 \<le> idxLen s"
  shows "slot (mmapIndex d s) i = slot (f_index (d (baseOffset s))) i"
  using assms by (simp add: slot_def mmapIndex_def window_def drop_take take_take min_def)

lemma searchIndex_inv:
  assumes "\<forall>i j. i \<le> j \<longrightarrow> j < n \<longrightarrow> fst (slot idx i) \<le> fst (slot idx j)"
    and "0 \<le> low" and "high < int n" and "low \<le> high + 1"
    and "\<forall>i < nat low. fst (slot idx i) \<le> off"
    and "\<forall>i < n. high < int i \<longrightarrow> off < fst (slot idx i)"
    and "best = (if low = 0 then 0 else unat (snd (slot idx (nat low - 1))))"
  shows "\<exists>m \<le> n. (\<forall>i < m. fst (slot idx i) \<le> off) \<and> (\<forall>i < n. m \<le> i \<longrightarrow> off < fst (slot idx i))
          \<and> searchIndex idx off low high best = (if m = 0 then 0 else unat (snd (slot idx (m - 1))))"
  using assms
proof (induction idx off low high best rule: searchIndex.induct)
  case (1 idx off low high best)
  note srt = "1.prems"(1)
  show ?case
  proof (cases "low \<le> high")
    case False
    then show ?thesis using "1.prems"
      by (intro exI [of _ "nat low"]) (auto simp: searchIndex.simps)
  next
    case True
    define mid where "mid = (low + high) div 2"
    have m: "low \<le> mid" "mid \<le> high" "0 \<le> mid" using True "1.prems" by (auto simp: mid_def)
    have e: "searchIndex idx off low high best =
        (if fst (slot idx (nat mid)) \<le> off
         then searchIndex idx off (mid + 1) high (unat (snd (slot idx (nat mid))))
         else searchIndex idx off low (mid - 1) best)"
      using True by (subst searchIndex.simps) (simp add: Let_def mid_def slot_def)
    show ?thesis
    proof (cases "fst (slot idx (nat mid)) \<le> off")
      case le: True
      have "fst (slot idx i) \<le> off" if "i < nat (mid + 1)" for i
      proof -
        have "i \<le> nat mid" "nat mid < n" using that m "1.prems"(3) by linarith+
        then show ?thesis using srt le order_trans by blast
      qed
      moreover have "nat (mid + 1) - 1 = nat mid" using m by linarith
      ultimately have "\<exists>k \<le> n. (\<forall>i < k. fst (slot idx i) \<le> off) \<and> (\<forall>i < n. k \<le> i \<longrightarrow> off < fst (slot idx i))
          \<and> searchIndex idx off (mid + 1) high (unat (snd (slot idx (nat mid))))
              = (if k = 0 then 0 else unat (snd (slot idx (k - 1))))"
        using "1.IH"(1) [OF True mid_def refl refl] le m "1.prems"
        by (simp add: slot_def)
      then show ?thesis using e le by simp
    next
      case False
      have "off < fst (slot idx i)" if "i < n" "mid - 1 < int i" for i
      proof -
        have "nat mid \<le> i" using that by linarith
        then show ?thesis using srt that(1) False by (meson leI less_le_trans)
      qed
      then have "\<exists>k \<le> n. (\<forall>i < k. fst (slot idx i) \<le> off) \<and> (\<forall>i < n. k \<le> i \<longrightarrow> off < fst (slot idx i))
          \<and> searchIndex idx off low (mid - 1) best
              = (if k = 0 then 0 else unat (snd (slot idx (k - 1))))"
        using "1.IH"(2) [OF True mid_def refl refl] False m "1.prems"
        by (simp add: slot_def)
      then show ?thesis using e False by simp
    qed
  qed
qed

lemma FindPosition_ok:
  assumes inv: "seg_inv d s rs"
  shows "\<exists>k. (k = 0 \<or> k < length rs \<and> baseOffset s + of_nat k \<le> off) \<and> FindPosition d s off = pos_at rs k"
proof -
  define n where "n = indexSize s div 16"
  let ?idx = "mmapIndex d s" and ?f = "f_index (d (baseOffset s))"
  have io: "index_ok (baseOffset s) rs ?f n" and rf: "recs_from (baseOffset s) rs"
    and len: "indexSize s \<le> idxLen s" using inv by (auto simp: seg_inv_def n_def)
  have sl: "slot ?idx i = slot ?f i" if "i < n" for i
    using that len unfolding n_def by (intro slot_mmap) linarith
  show ?thesis
  proof (cases "n = 0")
    case True
    then show ?thesis by (intro exI [of _ 0]) (simp add: FindPosition_def n_def)
  next
    case False
    have "\<exists>m \<le> n. (\<forall>i < m. fst (slot ?idx i) \<le> off) \<and> (\<forall>i < n. m \<le> i \<longrightarrow> off < fst (slot ?idx i))
        \<and> searchIndex ?idx off 0 (int n - 1) 0 = (if m = 0 then 0 else unat (snd (slot ?idx (m - 1))))"
      using io sl by (intro searchIndex_inv) (auto simp: index_ok_def)
    then obtain m where m: "m \<le> n" "\<forall>i < m. fst (slot ?idx i) \<le> off"
      "FindPosition d s off = (if m = 0 then 0 else unat (snd (slot ?idx (m - 1))))"
      using False by (auto simp: FindPosition_def n_def)
    show ?thesis
    proof (cases "m = 0")
      case True
      then show ?thesis using m by (intro exI [of _ 0]) simp
    next
      case False
      then have "m - 1 < n" using m(1) by simp
      then have "true_entry (baseOffset s) rs (slot ?idx (m - 1))"
        using io sl by (simp add: index_ok_def)
      then obtain k where k: "k = 0 \<or> k < length rs" "fst (slot ?idx (m - 1)) = baseOffset s + of_nat k"
        "unat (snd (slot ?idx (m - 1))) = pos_at rs k"
        using true_entry_pos [OF rf] by blast
      moreover have "fst (slot ?idx (m - 1)) \<le> off" using m(2) False by simp
      ultimately show ?thesis using m(3) False by (intro exI [of _ k]) auto
    qed
  qed
qed

section \<open>Reading a segment\<close>

lemma recs_from_less:
  assumes "recs_from base rs" and "i < length rs"
  shows "fst (rs ! i) < start \<longleftrightarrow> i < unat start - unat base"
proof -
  have "unat (fst (rs ! i)) = unat base + i"
    using assms base_plus [OF assms(1), of i] by (simp add: recs_from_def)
  then show ?thesis by (auto simp: word_less_nat_alt)
qed

lemma mmapData_split:
  assumes "seg_inv d s rs"
  shows "\<exists>post. mmapData d s = layout rs @ post"
proof -
  have "take (logSize s) (mmapData d s) = layout rs"
    using assms by (auto simp: seg_inv_def mmapData_def min_def)
  then show ?thesis by (metis append_take_drop_id)
qed

lemma LocateMessages_ok:
  assumes inv: "seg_inv d s rs" and k: "k = 0 \<or> k < length rs \<and> baseOffset s + of_nat k \<le> start"
    and small: "\<forall>r \<in> set rs. unat maxBytes + rec_len r < 2 ^ 32"
  defines "j \<equiv> unat start - unat (baseOffset s)"
  shows "LocateMessages d s (pos_at rs k) start maxBytes =
     (if drop j rs = [] then Inl EOF
      else Inr (pos_at rs j, u32_of (length (greedy (unat maxBytes) 0 (drop j rs))),
                u32_of (length (layout (greedy (unat maxBytes) 0 (drop j rs))))))"
proof -
  have rf: "recs_from (baseOffset s) rs" and sz: "logSize s = length (layout rs)"
    using inv by (auto simp: seg_inv_def)
  obtain post where data: "mmapData d s = layout rs @ post" using mmapData_split [OF inv] by blast
  have kj: "k \<le> j"
  proof (cases "k = 0")
    case False
    then have "unat (baseOffset s) + k \<le> unat start"
      using k base_plus [OF rf, of k] by (simp add: word_le_nat_alt)
    then show ?thesis by (simp add: j_def)
  qed simp
  let ?mid = "drop k (take j rs)"
  have rs: "rs = take k rs @ ?mid @ drop j rs"
    using kj by (metis append_take_drop_id append.assoc min.absorb1 take_take)
  have L: "layout rs = layout (take k rs) @ layout ?mid @ layout (drop j rs)"
    by (subst rs) (simp only: layout_simps(3))
  have mid: "\<forall>r \<in> set ?mid. rec_ok r \<and> fst r < start"
  proof
    fix r assume r: "r \<in> set ?mid"
    then obtain i where i: "i < length ?mid" "r = ?mid ! i" by (metis in_set_conv_nth)
    then have "r = rs ! (k + i)" "k + i < j" "k + i < length rs" using kj by auto
    then have "fst r < start" using recs_from_less [OF rf, of "k + i" start] by (simp add: j_def)
    moreover have "r \<in> set rs" using r by (meson in_set_dropD in_set_takeD)
    ultimately show "rec_ok r \<and> fst r < start" using rf by (simp add: recs_from_def)
  qed
  have rest: "\<forall>r \<in> set (drop j rs). rec_ok r \<and> start \<le> fst r \<and> unat maxBytes + rec_len r < 2 ^ 32"
  proof
    fix r assume r: "r \<in> set (drop j rs)"
    then obtain i where i: "i < length rs - j" "r = rs ! (j + i)" by (auto simp: in_set_conv_nth)
    then have "\<not> fst r < start" using recs_from_less [OF rf, of "j + i" start] by (simp add: j_def)
    moreover have "r \<in> set rs" using r by (rule in_set_dropD)
    ultimately show "rec_ok r \<and> start \<le> fst r \<and> unat maxBytes + rec_len r < 2 ^ 32"
      using rf small by (simp add: recs_from_def not_less)
  qed
  have pj: "pos_at rs j = length (layout (take k rs) @ layout ?mid)"
  proof -
    have "take j rs = take k rs @ ?mid" using kj by (metis append_take_drop_id min.absorb1 take_take)
    then have "layout (take j rs) = layout (take k rs) @ layout ?mid" by (metis layout_simps(3))
    then show ?thesis by (simp add: pos_at_def)
  qed
  have "locateLoop (mmapData d s) (logSize s) start maxBytes (pos_at rs k) None 0 0
      = locateLoop (layout (take k rs) @ layout ?mid @ layout (drop j rs) @ post) (logSize s) start maxBytes
          (length (layout (take k rs)) + length (layout ?mid)) None 0 0"
    using locateLoop_skip [OF mid, of "logSize s" "layout (take k rs)" "length (layout (drop j rs))"
        "layout (drop j rs) @ post"] sz L
    by (simp add: data pos_at_def add.assoc)
  also have "\<dots> = (if drop j rs = [] then None else Some (pos_at rs j),
      u32_of (length (greedy (unat maxBytes) 0 (drop j rs))),
      u32_of (length (layout (greedy (unat maxBytes) 0 (drop j rs)))))"
    using locateLoop_run [OF rest, of 0 0 0 "layout (take k rs) @ layout ?mid" post None] sz L pj
    by (simp add: add.assoc)
  finally show ?thesis by (simp add: LocateMessages_def)
qed

lemma window_run:
  assumes "seg_inv d s rs" and "j < length rs" and "drop j rs = run @ rest"
  shows "window (mmapData d s) (pos_at rs j) (pos_at rs j + length (layout run)) = layout run"
proof -
  obtain post where data: "mmapData d s = layout rs @ post" using mmapData_split [OF assms(1)] by blast
  have "layout rs = layout (take j rs) @ layout run @ layout rest"
    by (metis append_take_drop_id assms(3) layout_simps(3))
  then show ?thesis by (simp add: data pos_at_def window_def)
qed

section \<open>Recovery finds every record\<close>

lemma scanIndex_ok:
  assumes "\<forall>i < length idx div 16. slot idx i = (0, 0) \<or> true_entry base rs (slot idx i)"
    and "i + n \<le> length idx div 16"
  shows "scanIndex idx base i prev n \<le> n
     \<and> (\<forall>j < scanIndex idx base i prev n. true_entry base rs (slot idx (i + j))
          \<and> (case prev of None \<Rightarrow> True | Some l \<Rightarrow> l < fst (slot idx (i + j))))
     \<and> (\<forall>j k. j < k \<longrightarrow> k < scanIndex idx base i prev n \<longrightarrow> fst (slot idx (i + j)) < fst (slot idx (i + k)))"
  using assms(2)
proof (induction n arbitrary: i prev)
  case (Suc n)
  let ?e = "slot idx i"
  define stop where "stop \<longleftrightarrow> (fst ?e = 0 \<and> snd ?e = 0 \<and> 0 < i) \<or> fst ?e < base \<or> 2 ^ 63 \<le> unat (snd ?e)
      \<or> (case prev of None \<Rightarrow> False | Some l \<Rightarrow> fst ?e \<le> l)"
  have S: "scanIndex idx base i prev (Suc n) = (if stop then 0 else Suc (scanIndex idx base (Suc i) (Some (fst ?e)) n))"
    by (cases prev) (auto simp: stop_def slot_def Let_def)
  show ?case
  proof (cases stop)
    case True
    then show ?thesis unfolding S by simp
  next
    case False
    have t: "true_entry base rs ?e"
    proof (cases "?e = (0, 0)")
      case True
      then have "i = 0" "\<not> 0 < base" using False by (auto simp: stop_def)
      then have "base = 0" by (simp add: word_gt_0)
      then show ?thesis using True by (auto simp: true_entry_def u64_of_def intro: exI [of _ 0])
    next
      case nz: False
      have "i < length idx div 16" using Suc.prems by simp
      then show ?thesis using assms(1) nz by blast
    qed
    define c where "c = scanIndex idx base (Suc i) (Some (fst ?e)) n"
    have IH: "c \<le> n" "\<forall>j < c. true_entry base rs (slot idx (Suc i + j)) \<and> fst ?e < fst (slot idx (Suc i + j))"
      "\<forall>j k. j < k \<longrightarrow> k < c \<longrightarrow> fst (slot idx (Suc i + j)) < fst (slot idx (Suc i + k))"
      using Suc.IH [of "Suc i" "Some (fst ?e)"] Suc.prems by (auto simp: c_def)
    have pv: "case prev of None \<Rightarrow> True | Some l \<Rightarrow> l < fst ?e"
      using False by (auto simp: stop_def split: option.splits)
    have each: "true_entry base rs (slot idx (i + j)) \<and> (case prev of None \<Rightarrow> True | Some l \<Rightarrow> l < fst (slot idx (i + j)))"
      if "j < Suc c" for j
      using that t pv IH(2) by (cases j) (auto split: option.splits intro: less_trans)
    have "fst (slot idx (i + j)) < fst (slot idx (i + k))" if "j < k" "k < Suc c" for j k
      using that IH by (cases j; cases k) auto
    then show ?thesis using each IH(1) False unfolding S c_def [symmetric] by simp
  qed
qed simp


lemma window_slot:
  "n \<noteq> 0 \<Longrightarrow> (get64 (window idx (n * 16 - 16) (n * 16 - 8)), get64 (window idx (n * 16 - 8) (n * 16)))
     = slot idx (n - 1)"
proof -
  assume "n \<noteq> 0"
  then have "n * 16 - 16 = (n - 1) * 16" "n * 16 - 8 = (n - 1) * 16 + 8" "n * 16 = (n - 1) * 16 + 16"
    by (cases n; simp)+
  then show ?thesis by (simp only: slot_def)
qed

text \<open>What opening a segment finds: records followed by zeros, and index slots that are empty
  or true.\<close>

lemma recoverLoop_from:
  assumes rf: "recs_from base rs" and "zeros post" and k: "k = 0 \<or> k < length rs"
  shows "recoverLoop (layout rs @ post) (base + of_nat k) (pos_at rs k)
       = (base + of_nat (length rs), length (layout rs))"
proof -
  have ok: "\<forall>r \<in> set (drop k rs). rec_ok r" using rf by (auto simp: recs_from_def dest: in_set_dropD)
  have L: "layout rs = layout (take k rs) @ layout (drop k rs)" by (rule layout_split)
  have last: "fst (last (drop k rs)) + 1 = base + of_nat (length rs)" if "drop k rs \<noteq> []"
  proof -
    have "k < length rs" using that by simp
    then have "rs \<noteq> []" by auto
    then have "last (drop k rs) = rs ! (length rs - 1)"
      using \<open>k < length rs\<close> by (simp add: last_conv_nth last_drop)
    moreover have "fst (rs ! (length rs - 1)) = base + of_nat (length rs - 1)"
      using rf \<open>k < length rs\<close> by (simp add: recs_from_def)
    ultimately show ?thesis using \<open>k < length rs\<close> by (simp add: of_nat_diff)
  qed
  have "drop k rs = [] \<Longrightarrow> k = length rs" using k by auto
  then show ?thesis
    using recoverLoop_records [OF ok assms(2), of "layout (take k rs)" "base + of_nat k"] last L
    by (auto simp: pos_at_def)
qed

text \<open>Recovery starts at a record the index names and rebuilds the file from what the scan
  finds.\<close>

lemma Recover_start:
  assumes rf: "recs_from (baseOffset s) rs" and len: "dataLen s = maxSegSize s" "idxLen s = maxIdxSize s"
    and fl: "length (f_log (d (baseOffset s))) = maxSegSize s"
    and fi: "length (f_index (d (baseOffset s))) = maxIdxSize s"
    and sl: "slots_ok (baseOffset s) rs (f_index (d (baseOffset s)))"
  shows "\<exists>n k. (k = 0 \<or> k < length rs) \<and> index_ok (baseOffset s) rs (f_index (d (baseOffset s))) n
     \<and> (\<forall>i j. i < j \<longrightarrow> j < n \<longrightarrow>
           fst (slot (f_index (d (baseOffset s))) i) < fst (slot (f_index (d (baseOffset s))) j))
     \<and> (\<forall>o' p'. recoverLoop (f_log (d (baseOffset s))) (baseOffset s + of_nat k) (pos_at rs k) = (o', p') \<longrightarrow>
           Recover d s = (o', d(baseOffset s := \<lparr>f_log = Truncate (maxSegSize s) (Truncate p' (f_log (d (baseOffset s)))),
                                                  f_index = f_index (d (baseOffset s))\<rparr>),
                          s\<lparr>logSize := p', indexSize := n * 16, dataLen := maxSegSize s, idxLen := maxIdxSize s\<rparr>))"
proof -
  let ?b = "baseOffset s" and ?idx = "f_index (d (baseOffset s))"
  define n where "n = scanIndex ?idx ?b 0 None (length ?idx div 16)"
  have sc: "n \<le> length ?idx div 16" "\<forall>j < n. true_entry ?b rs (slot ?idx j)"
    "\<forall>j k. j < k \<longrightarrow> k < n \<longrightarrow> fst (slot ?idx j) < fst (slot ?idx k)"
    using scanIndex_ok [of ?idx ?b rs 0 "length ?idx div 16" None] sl by (auto simp: slots_ok_def n_def)
  have n16: "n * 16 \<le> length ?idx" using sc(1) by linarith
  have isz: "(if 0 < length ?idx then findActualIndexSize ?idx ?b else length ?idx) = n * 16"
    using sc(1) by (auto simp: findActualIndexSize_def n_def)
  have mi: "mmapIndex d s = ?idx" using fi len by (simp add: mmapIndex_def)
  have md: "mmapData d s = f_log (d ?b)" using fl len by (simp add: mmapData_def)
  define e where "e = (if 16 \<le> n * 16 \<and> n * 16 \<le> length ?idx
      then (get64 (window ?idx (n * 16 - 16) (n * 16 - 8)), unat (get64 (window ?idx (n * 16 - 8) (n * 16))))
      else (?b, 0))"
  have "\<exists>k. (k = 0 \<or> k < length rs) \<and> e = (?b + of_nat k, pos_at rs k)"
  proof (cases "n = 0")
    case True
    then show ?thesis by (intro exI [of _ 0]) (simp add: e_def)
  next
    case False
    then have "e = (fst (slot ?idx (n - 1)), unat (snd (slot ?idx (n - 1))))"
      using window_slot [of n ?idx] n16 by (auto simp: e_def prod_eq_iff)
    moreover have "true_entry ?b rs (slot ?idx (n - 1))" using sc(2) False by simp
    ultimately show ?thesis using true_entry_pos [OF rf] by auto
  qed
  then obtain k where k: "k = 0 \<or> k < length rs" "e = (?b + of_nat k, pos_at rs k)" by blast
  have TI: "Truncate (maxIdxSize s) ?idx = ?idx" using fi by (simp add: Truncate_def)
  have "index_ok ?b rs ?idx n"
    using sc n16 unfolding index_ok_def by (metis less_imp_le order.refl le_neq_implies_less)
  moreover have "\<forall>o' p'. recoverLoop (f_log (d ?b)) (?b + of_nat k) (pos_at rs k) = (o', p') \<longrightarrow>
           Recover d s = (o', d(?b := \<lparr>f_log = Truncate (maxSegSize s) (Truncate p' (f_log (d ?b))), f_index = ?idx\<rparr>),
                          s\<lparr>logSize := p', indexSize := n * 16, dataLen := maxSegSize s, idxLen := maxIdxSize s\<rparr>)"
    unfolding Recover_def Let_def isz mi md e_def [symmetric] k(2) TI by (simp add: fl)
  ultimately show ?thesis using k(1) sc(3) by blast
qed

lemma Truncate_zeros:
  assumes "zeros post" and "length (xs @ post) = m"
  shows "Truncate m (Truncate (length xs) (xs @ post)) = xs @ post"
proof -
  have "m - length xs = length post" using assms(2) by simp
  then have "replicate (m - length xs) 0 = post" using assms(1) unfolding zeros_def by simp
  then show ?thesis using assms(2) by (simp add: Truncate_def)
qed

lemma Recover_ok:
  assumes rf: "recs_from (baseOffset s) rs" and len: "dataLen s = maxSegSize s" "idxLen s = maxIdxSize s"
    and fl: "f_log (d (baseOffset s)) = layout rs @ post" "zeros post" "length (layout rs @ post) = maxSegSize s"
    and fi: "length (f_index (d (baseOffset s))) = maxIdxSize s"
    and sl: "slots_ok (baseOffset s) rs (f_index (d (baseOffset s)))"
  shows "\<exists>s'. Recover d s = (baseOffset s + of_nat (length rs), d, s') \<and> active_inv d s' rs
           \<and> baseOffset s' = baseOffset s \<and> maxSegSize s' = maxSegSize s \<and> maxIdxSize s' = maxIdxSize s
           \<and> (\<forall>i j. i < j \<longrightarrow> j < indexSize s' div 16 \<longrightarrow>
                 fst (slot (f_index (d (baseOffset s))) i) < fst (slot (f_index (d (baseOffset s))) j))"
proof -
  let ?b = "baseOffset s" and ?idx = "f_index (d (baseOffset s))"
  obtain n k where k: "k = 0 \<or> k < length rs" and io: "index_ok ?b rs ?idx n"
    and st: "\<forall>i j. i < j \<longrightarrow> j < n \<longrightarrow> fst (slot ?idx i) < fst (slot ?idx j)"
    and R: "\<forall>o' p'. recoverLoop (layout rs @ post) (?b + of_nat k) (pos_at rs k) = (o', p') \<longrightarrow>
       Recover d s = (o', d(?b := \<lparr>f_log = Truncate (maxSegSize s) (Truncate p' (layout rs @ post)), f_index = ?idx\<rparr>),
          s\<lparr>logSize := p', indexSize := n * 16, dataLen := maxSegSize s, idxLen := maxIdxSize s\<rparr>)"
    using Recover_start [OF rf len, of d] fi sl fl by auto
  let ?s = "s\<lparr>logSize := length (layout rs), indexSize := n * 16, dataLen := maxSegSize s, idxLen := maxIdxSize s\<rparr>"
  have "Recover d s = (?b + of_nat (length rs), d(?b := \<lparr>f_log = layout rs @ post, f_index = ?idx\<rparr>), ?s)"
    using R recoverLoop_from [OF rf fl(2) k] Truncate_zeros [OF fl(2,3)] by simp
  moreover have "d(?b := \<lparr>f_log = layout rs @ post, f_index = ?idx\<rparr>) = d" using fl(1) by auto
  moreover have "active_inv d ?s rs"
    using rf fl fi sl io by (auto simp: active_inv_def seg_inv_def index_ok_def)
  ultimately show ?thesis using st by auto
qed

section \<open>A crash in the middle of a record\<close>

lemma zerosD: "zeros bs \<Longrightarrow> length bs = n \<Longrightarrow> bs = replicate n 0"
  unfolding zeros_def by simp

lemma zeros_take: "zeros bs \<Longrightarrow> zeros (take n bs)"
  unfolding zeros_def by (metis length_take take_replicate length_replicate)

lemma recoverLoop_torn:
  assumes rf: "recs_from base rs" and "zeros post" and k: "k = 0 \<or> k < length rs" and "rec_ok r"
  shows "recoverLoop (layout (rs @ [r]) @ post) (base + of_nat k) (pos_at rs k)
       = (fst r + 1, length (layout (rs @ [r])))"
proof -
  have ok: "\<forall>x \<in> set (drop k rs @ [r]). rec_ok x"
    using rf assms(4) by (auto simp: recs_from_def dest: in_set_dropD)
  have L: "layout (rs @ [r]) = layout (take k rs) @ layout (drop k rs @ [r])"
    using layout_split [of rs k] by simp
  show ?thesis
    using recoverLoop_records [OF ok assms(2), of "layout (take k rs)" "base + of_nat k"] L
    by (simp add: pos_at_def)
qed

text \<open>The bytes after the first store of \<open>Write\<close> are those of a complete record with offset 0
  and a payload of zeros.\<close>

lemma torn_bytes:
  assumes "zeros old" and "length old = 12 + length p"
  shows "store (pre @ old @ post) (length pre, be32 (u32_of (8 + length p)))
       = pre @ enc_rec (0, replicate (length p) 0) @ post"
proof -
  have old: "old = replicate 4 0 @ replicate 8 0 @ replicate (length p) 0"
    unfolding zerosD [OF assms] by (simp add: replicate_add [symmetric] add.assoc [symmetric] del: replicate.simps)
  have z: "be64 0 = replicate 8 0"
    by code_simp
  show ?thesis
    using store_at [of "replicate 4 0" "be32 (u32_of (8 + length p))" pre "replicate 8 0 @ replicate (length p) 0 @ post"]
    by (simp add: old enc_rec_def z)
qed

lemma torn_write_recovery:
  assumes inv: "active_inv d s rs" and fits: "logSize s + (12 + length p) \<le> maxSegSize s"
    and p: "8 + length p < 2 ^ 32"
    and d': "d' = d(baseOffset s := (d (baseOffset s))
               \<lparr>f_log := store (f_log (d (baseOffset s))) (hd (write_stores (logSize s) off p))\<rparr>)"
  shows "\<exists>d'' s'. Recover d' s = (1, d'', s') \<and> logSize s' = logSize s + (12 + length p)"
proof -
  let ?b = "baseOffset s" and ?f = "f_log (d (baseOffset s))"
  have si: "seg_inv d s rs" using inv by (simp add: active_inv_def)
  define old where "old = take (12 + length p) (drop (logSize s) ?f)"
  define post where "post = drop (logSize s + (12 + length p)) ?f"
  have l: "logSize s = length (layout rs)" "take (logSize s) ?f = layout rs" using si by (auto simp: seg_inv_def)
  have f: "?f = layout rs @ old @ post"
    using l(2) unfolding old_def post_def by (metis append_take_drop_id drop_drop add.commute)
  have z: "zeros (drop (logSize s) ?f)" and lf: "length ?f = maxSegSize s" using inv by (auto simp: active_inv_def)
  have zo: "zeros old" using zeros_take [OF z] by (simp add: old_def)
  have zp: "zeros post" using zeros_drop [OF z, of "12 + length p"] by (simp add: post_def add.commute)
  have lo: "length old = 12 + length p" using fits lf by (simp add: old_def)
  let ?r = "(0, replicate (length p) 0) :: rec"
  have f': "f_log (d' ?b) = layout (rs @ [?r]) @ post" "f_index (d' ?b) = f_index (d ?b)"
    using torn_bytes [OF zo lo, of "layout rs" post] l(1) by (simp_all add: d' write_stores_def f)
  have len: "length (layout (rs @ [?r]) @ post) = maxSegSize s" using lf f lo by simp
  have rf: "recs_from ?b rs" using si by (simp add: seg_inv_def)
  have a: "dataLen s = maxSegSize s" "idxLen s = maxIdxSize s"
    "length (f_index (d' ?b)) = maxIdxSize s" "slots_ok ?b rs (f_index (d' ?b))"
    using inv by (auto simp: active_inv_def f'(2))
  obtain n k where k: "k = 0 \<or> k < length rs"
    and R: "\<forall>o' p'. recoverLoop (f_log (d' ?b)) (?b + of_nat k) (pos_at rs k) = (o', p') \<longrightarrow>
       Recover d' s = (o', d'(?b := \<lparr>f_log = Truncate (maxSegSize s) (Truncate p' (f_log (d' ?b))), f_index = f_index (d' ?b)\<rparr>),
          s\<lparr>logSize := p', indexSize := n * 16, dataLen := maxSegSize s, idxLen := maxIdxSize s\<rparr>)"
    using Recover_start [OF rf a(1,2), of d'] a(3,4) len f'(1) by auto
  have "recoverLoop (f_log (d' ?b)) (?b + of_nat k) (pos_at rs k) = (1, length (layout (rs @ [?r])))"
    using recoverLoop_torn [OF rf zp k, of ?r] p f'(1) by simp
  then show ?thesis using R l(1) by auto
qed

section \<open>Opening a segment\<close>

definition max_index :: "nat \<Rightarrow> int \<Rightarrow> nat" where
  "max_index maxSeg indexInterval =
     (maxSeg div nat (if indexInterval \<le> 0 then 4096 else indexInterval) + 100) * 16"

lemma slot_zero:
  assumes "idx = replicate m 0" and "i * 16 + 16 \<le> m"
  shows "slot idx i = (0, 0)"
  using assms by (simp add: slot_def window_def min_def get64_def get_be_zeros)

lemma NewSegment_fresh:
  assumes "d b = no_files" and "unat b < 2 ^ 64 - 1"
  shows "\<exists>d' s. NewSegment d b maxSeg iv True = (d', s) \<and> active_inv d' s []
     \<and> baseOffset s = b \<and> maxSegSize s = maxSeg \<and> maxIdxSize s = max_index maxSeg iv
     \<and> indexSize s = 0 \<and> f_index (d' b) = replicate (max_index maxSeg iv) 0
     \<and> (\<forall>b'. b' \<noteq> b \<longrightarrow> d' b' = d b')"
proof -
  let ?mi = "max_index maxSeg iv"
  let ?s = "\<lparr>baseOffset = b, logSize = 0, indexSize = 0, dataLen = maxSeg, idxLen = ?mi,
             maxSegSize = maxSeg, maxIdxSize = ?mi\<rparr>"
  let ?d = "d(b := \<lparr>f_log = replicate maxSeg 0, f_index = replicate ?mi 0\<rparr>)"
  have "0 < ?mi" by (simp add: max_index_def)
  then have N: "NewSegment d b maxSeg iv True = (?d, ?s)"
    using assms(1) by (auto simp: NewSegment_def no_files_def Let_def Truncate_def max_index_def)
  have "slots_ok b [] (replicate ?mi 0)"
    unfolding slots_ok_def using slot_zero [OF refl] by auto
  then have "active_inv ?d ?s []"
    using assms(2) unat_bounds(4) [of b]
    by (auto simp: active_inv_def seg_inv_def recs_from_def index_ok_def zeros_def)
  then show ?thesis using N by auto
qed

lemma slots_ok_take:
  assumes "slots_ok b rs idx" and "16 dvd n" and "n \<le> length idx"
  shows "slots_ok b rs (take n idx)"
  unfolding slots_ok_def
proof (intro allI impI)
  fix i assume "i < length (take n idx) div 16"
  then have i: "i * 16 + 16 \<le> n" "i < length idx div 16" using assms(2,3) by auto
  then have "slot (take n idx) i = slot idx i"
    by (simp add: slot_def window_def drop_take take_take min_def)
  then show "slot (take n idx) i = (0, 0) \<or> true_entry b rs (slot (take n idx) i)"
    using assms(1) i(2) by (simp add: slots_ok_def)
qed

text \<open>Reopening read-only a segment whose files were cut to the written parts.\<close>

lemma NewSegment_sealed:
  assumes rf: "recs_from b rs" and fl: "f_log (d b) = layout rs" and sl: "slots_ok b rs (f_index (d b))"
  shows "\<exists>s. NewSegment d b maxSeg iv False = (d, s) \<and> seg_inv d s rs \<and> baseOffset s = b"
proof -
  let ?idx = "f_index (d b)"
  define n where "n = scanIndex ?idx b 0 None (length ?idx div 16)"
  have sc: "n \<le> length ?idx div 16" "\<forall>j < n. true_entry b rs (slot ?idx j)"
    "\<forall>j k. j < k \<longrightarrow> k < n \<longrightarrow> fst (slot ?idx j) < fst (slot ?idx k)"
    using scanIndex_ok [of ?idx b rs 0 "length ?idx div 16" None] sl by (auto simp: slots_ok_def n_def)
  have n16: "n * 16 \<le> length ?idx" using sc(1) by linarith
  have isz: "(if 0 < length ?idx then findActualIndexSize ?idx b else length ?idx) = n * 16"
    using sc(1) by (auto simp: findActualIndexSize_def n_def)
  have "index_ok b rs ?idx n"
    using sc n16 unfolding index_ok_def by (metis less_imp_le order.refl le_neq_implies_less)
  then show ?thesis using isz fl rf
    by (simp add: NewSegment_def Let_def seg_inv_def)
qed

text \<open>Reopening for writing the files a stopped or crashed broker left.\<close>

lemma NewSegment_reopen:
  assumes rf: "recs_from b rs" and fl: "f_log (d b) = layout rs @ post" "zeros post" "length (f_log (d b)) \<le> maxSeg"
    and fi: "length (f_index (d b)) \<le> max_index maxSeg iv" "16 dvd length (f_index (d b))" "slots_ok b rs (f_index (d b))"
  shows "\<exists>d' s post'. NewSegment d b maxSeg iv True = (d', s) \<and> baseOffset s = b
     \<and> maxSegSize s = maxSeg \<and> maxIdxSize s = max_index maxSeg iv \<and> dataLen s = maxSeg \<and> idxLen s = max_index maxSeg iv
     \<and> f_log (d' b) = layout rs @ post' \<and> zeros post' \<and> length (layout rs @ post') = maxSeg
     \<and> length (f_index (d' b)) = max_index maxSeg iv \<and> slots_ok b rs (f_index (d' b))
     \<and> f_index (d' b) = f_index (d b) @ replicate (max_index maxSeg iv - length (f_index (d b))) 0
     \<and> (\<forall>b'. b' \<noteq> b \<longrightarrow> d' b' = d b')"
proof -
  let ?mi = "max_index maxSeg iv" and ?idx = "f_index (d b)"
  define isz where "isz = (if 0 < length ?idx then findActualIndexSize ?idx b else length ?idx)"
  let ?log = "if length (f_log (d b)) < maxSeg then Truncate maxSeg (f_log (d b)) else f_log (d b)"
  let ?ix = "if isz < ?mi then Truncate ?mi ?idx else ?idx"
  have iszle: "isz \<le> length ?idx"
    using scanIndex_ok [of ?idx b rs 0 "length ?idx div 16" None] fi(3)
    by (auto simp: isz_def findActualIndexSize_def slots_ok_def)
  have ix: "?ix = ?idx @ replicate (?mi - length ?idx) 0"
    using fi(1) iszle by (auto simp: Truncate_def)
  have "slots_ok b rs ?ix"
    unfolding slots_ok_def ix
  proof (intro allI impI)
    fix i assume i: "i < length (?idx @ replicate (?mi - length ?idx) 0) div 16"
    show "slot (?idx @ replicate (?mi - length ?idx) 0) i = (0, 0)
        \<or> true_entry b rs (slot (?idx @ replicate (?mi - length ?idx) 0) i)"
    proof (cases "i < length ?idx div 16")
      case True
      then have "slot (?idx @ replicate (?mi - length ?idx) 0) i = slot ?idx i"
        by (simp add: slot_def window_append_left)
      then show ?thesis using True fi(3) by (simp add: slots_ok_def)
    next
      case False
      then have "length ?idx \<le> i * 16" using fi(2) by auto
      then show ?thesis using i fi(1) by (simp add: slot_def window_def min_def get64_def get_be_zeros)
    qed
  qed
  moreover obtain post' where "?log = layout rs @ post'" "zeros post'" "length (layout rs @ post') = maxSeg"
  proof
    show "?log = layout rs @ (post @ replicate (maxSeg - length (f_log (d b))) 0)"
      using fl(1,3) by (auto simp: Truncate_def)
    show "zeros (post @ replicate (maxSeg - length (f_log (d b))) 0)"
      using fl(2) unfolding zeros_def by (metis length_append length_replicate replicate_add)
    show "length (layout rs @ (post @ replicate (maxSeg - length (f_log (d b))) 0)) = maxSeg"
      using fl(1,3) by simp
  qed
  moreover have "length ?ix = ?mi" unfolding ix using fi(1) by simp
  ultimately show ?thesis using ix
    by (auto simp: NewSegment_def Let_def isz_def max_index_def)
qed

end
