(* ===== verification/BrokerPartition.thy ===== *)
theory BrokerPartition
  imports BrokerSegment
begin

text \<open>
  A partition of the broker's log (\<open>PartitionLog\<close> in \<open>pkg/broker/log/log.go\<close>, with
  \<open>durability.go\<close> and \<open>retention.go\<close>): an ordered list of segments of which the last is
  written to, the fencing epoch, and the durability modes. The disk gate is nil, the file
  system calls succeed except \<open>fsync\<close>, whose failure is the flag \<open>fsyncFails\<close>; what
  \<open>fsync\<close> has made durable is \<open>stable\<close>. The snapshot's \<open>activeSeg\<close> pointer is the index
  \<open>activeIdx\<close> into \<open>segments\<close>.
\<close>

section \<open>State\<close>

datatype durability_mode = DurabilityAsync | DurabilityGroupCommit | DurabilitySync

record durability_config =
  Mode :: durability_mode
  FlushInterval :: int
  GroupCommitRecords :: int

definition DefaultDurabilityConfig :: durability_config where
  "DefaultDurabilityConfig =
     \<lparr>Mode = DurabilityAsync, FlushInterval = 100000000, GroupCommitRecords = 64\<rparr>"

definition ParseDurabilityMode :: "string \<Rightarrow> durability_mode \<times> bool" where
  "ParseDurabilityMode s =
     (if s = '''' \<or> s = ''async'' then (DurabilityAsync, True)
      else if s = ''group'' \<or> s = ''group_commit'' then (DurabilityGroupCommit, True)
      else if s = ''sync'' then (DurabilitySync, True)
      else (DurabilityAsync, False))"

record partition_log =
  p_disk :: disk
  segments :: "segment list"
  activeIdx :: nat
  nextOffset :: u64
  bytesSinceIdx :: nat
  indexInterval :: int
  p_maxSegSize :: nat
  fencingEpoch :: u64
  epochFile :: "bytes option"
  durability :: durability_config
  pendingFsync :: int
  stable :: disk
  fsyncFails :: bool
  DiskOK :: bool

definition activeSeg :: "partition_log \<Rightarrow> segment" where
  "activeSeg p = segments p ! activeIdx p"

definition set_active :: "partition_log \<Rightarrow> segment \<Rightarrow> partition_log" where
  "set_active p s = p\<lparr>segments := (segments p)[activeIdx p := s]\<rparr>"

section \<open>Opening\<close>

fun openSegments :: "disk \<Rightarrow> nat \<Rightarrow> int \<Rightarrow> u64 list \<Rightarrow> disk \<times> segment list" where
  "openSegments d maxSeg iv [] = (d, [])"
| "openSegments d maxSeg iv (b # bs) =
     (let (d1, s) = NewSegment d b maxSeg iv (bs = []);
          (d2, ss) = openSegments d1 maxSeg iv bs
      in (d2, s # ss))"

definition loadFencingEpoch :: "bytes option \<Rightarrow> u64" where
  "loadFencingEpoch file =
     (case file of None \<Rightarrow> 0
      | Some data \<Rightarrow> if length data < 8 then 0 else get64 (take 8 data))"

text \<open>\<open>names\<close> are the base offsets of the segment files in the directory.\<close>

definition loadSegments ::
  "disk \<Rightarrow> u64 list \<Rightarrow> bytes option \<Rightarrow> nat \<Rightarrow> int \<Rightarrow> durability_config \<Rightarrow> partition_log" where
  "loadSegments d names epoch maxSeg iv cfg =
     (let baseOffsets = sort names;
          (d1, segs0) = openSegments d maxSeg iv baseOffsets;
          (d2, segs) = (if segs0 = []
                        then let (d', s) = NewSegment d1 0 maxSeg iv True in (d', [s])
                        else (d1, segs0));
          (next, d3, act) = Recover d2 (last segs)
      in \<lparr>p_disk = d3, segments = butlast segs @ [act], activeIdx = length segs - 1,
          nextOffset = next, bytesSinceIdx = 0, indexInterval = iv, p_maxSegSize = maxSeg,
          fencingEpoch = loadFencingEpoch epoch, epochFile = epoch, durability = cfg,
          pendingFsync = 0, stable = d3, fsyncFails = False, DiskOK = True\<rparr>)"

definition NewPartitionLogWithDurability ::
  "disk \<Rightarrow> u64 list \<Rightarrow> bytes option \<Rightarrow> nat \<Rightarrow> int \<Rightarrow> durability_config \<Rightarrow> partition_log" where
  "NewPartitionLogWithDurability d names epoch maxSeg iv cfg =
     loadSegments d names epoch maxSeg iv
       (cfg\<lparr>FlushInterval := (if FlushInterval cfg \<le> 0 then 100000000 else FlushInterval cfg),
            GroupCommitRecords := (if GroupCommitRecords cfg \<le> 0 then 64 else GroupCommitRecords cfg)\<rparr>)"

section \<open>Syncing\<close>

definition syncLocked :: "partition_log \<Rightarrow> partition_log" where
  "syncLocked p =
     (if fsyncFails p then p\<lparr>DiskOK := False\<rparr>
      else let b = baseOffset (activeSeg p) in p\<lparr>stable := (stable p)(b := p_disk p b)\<rparr>)"

definition applyDurabilityAfterLeaderAppend :: "partition_log \<Rightarrow> partition_log" where
  "applyDurabilityAfterLeaderAppend p =
     (case Mode (durability p) of
        DurabilitySync \<Rightarrow> syncLocked p
      | DurabilityGroupCommit \<Rightarrow>
          (let n = pendingFsync p + 1;
               p1 = p\<lparr>pendingFsync := n\<rparr>
           in if GroupCommitRecords (durability p) \<le> n
              then syncLocked (p1\<lparr>pendingFsync := 0\<rparr>) else p1)
      | DurabilityAsync \<Rightarrow> p)"

text \<open>One tick of the flush loop.\<close>

definition flushTick :: "partition_log \<Rightarrow> partition_log" where
  "flushTick p =
     (case Mode (durability p) of
        DurabilitySync \<Rightarrow> p
      | DurabilityGroupCommit \<Rightarrow>
          (if 0 < pendingFsync p then syncLocked (p\<lparr>pendingFsync := 0\<rparr>) else p)
      | DurabilityAsync \<Rightarrow> syncLocked p)"

section \<open>Appending\<close>

definition persistFencingEpoch :: "u64 \<Rightarrow> partition_log \<Rightarrow> partition_log" where
  "persistFencingEpoch epoch p = p\<lparr>epochFile := Some (be64 epoch)\<rparr>"

definition AdvanceFencingEpoch :: "u64 \<Rightarrow> partition_log \<Rightarrow> partition_log" where
  "AdvanceFencingEpoch epoch p =
     (if epoch \<le> fencingEpoch p then p
      else persistFencingEpoch epoch (p\<lparr>fencingEpoch := epoch\<rparr>))"

definition rollLockedInner :: "partition_log \<Rightarrow> partition_log" where
  "rollLockedInner p0 =
     (let p = syncLocked p0;
          act = activeSeg p;
          b = baseOffset act;
          f = p_disk p b;
          d1 = (p_disk p)(b := \<lparr>f_log = Truncate (logSize act) (f_log f),
                                f_index = Truncate (indexSize act) (f_index f)\<rparr>);
          (d2, readOnlySeg) = NewSegment d1 b (p_maxSegSize p) (indexInterval p) False;
          (d3, newSeg) = NewSegment d2 (nextOffset p) (p_maxSegSize p) (indexInterval p) True;
          n = length (segments p)
      in p\<lparr>p_disk := d3, segments := (segments p)[n - 1 := readOnlySeg] @ [newSeg],
           activeIdx := n, bytesSinceIdx := 0\<rparr>)"

definition appendPayloadLockedInner ::
  "partition_log \<Rightarrow> u64 \<Rightarrow> bytes \<Rightarrow> bool \<Rightarrow> u64 \<Rightarrow> (log_error + u64) \<times> partition_log" where
  "appendPayloadLockedInner p off payload trackEpoch epoch =
     (let p1 = (if trackEpoch \<and> fencingEpoch p < epoch
                then persistFencingEpoch epoch (p\<lparr>fencingEpoch := epoch\<rparr>) else p);
          totalLen = 12 + length payload;
          p2 = (if p_maxSegSize p1 < logSize (activeSeg p1) + totalLen
                then rollLockedInner p1 else p1)
      in case Write (p_disk p2) (activeSeg p2) off payload of
           (Inl e, d, s) \<Rightarrow> (Inl e, set_active (p2\<lparr>p_disk := d\<rparr>) s)
         | (Inr pos, d, s) \<Rightarrow>
             (let p3 = (set_active (p2\<lparr>p_disk := d\<rparr>) s)
                         \<lparr>nextOffset := off + 1, bytesSinceIdx := bytesSinceIdx p2 + totalLen\<rparr>
              in if indexInterval p3 \<le> int (bytesSinceIdx p3)
                 then case WriteIndexEntry (p_disk p3) (activeSeg p3) off pos of
                        (Some e, d', s') \<Rightarrow> (Inl e, set_active (p3\<lparr>p_disk := d'\<rparr>) s')
                      | (None, d', s') \<Rightarrow>
                          (Inr off, (set_active (p3\<lparr>p_disk := d'\<rparr>) s')\<lparr>bytesSinceIdx := 0\<rparr>)
                 else (Inr off, p3)))"

definition Append :: "partition_log \<Rightarrow> bytes \<Rightarrow> (log_error + u64) \<times> partition_log" where
  "Append p payload =
     (case appendPayloadLockedInner p (nextOffset p) payload False 0 of
        (Inl e, p') \<Rightarrow> (Inl e, p')
      | (Inr off, p') \<Rightarrow> (Inr off, applyDurabilityAfterLeaderAppend p'))"

definition AppendReplicatedAt ::
  "partition_log \<Rightarrow> u64 \<Rightarrow> bytes \<Rightarrow> (log_error + u64) \<times> partition_log" where
  "AppendReplicatedAt p expectedOffset payload =
     (if expectedOffset < nextOffset p then (Inr expectedOffset, p)
      else if nextOffset p < expectedOffset then (Inl ReplicationGap, p)
      else appendPayloadLockedInner p expectedOffset payload False 0)"

definition AppendFenced ::
  "partition_log \<Rightarrow> u64 \<Rightarrow> bytes \<Rightarrow> (log_error + u64) \<times> partition_log" where
  "AppendFenced p epoch payload =
     (if epoch = 0
      then (case appendPayloadLockedInner p (nextOffset p) payload False 0 of
              (Inl e, p') \<Rightarrow> (Inl e, p')
            | (Inr off, p') \<Rightarrow> (Inr off, applyDurabilityAfterLeaderAppend p'))
      else if epoch < fencingEpoch p then (Inl StaleEpoch, p)
      else (case appendPayloadLockedInner p (nextOffset p) payload True epoch of
              (Inl e, p') \<Rightarrow> (Inl e, p')
            | (Inr off, p') \<Rightarrow> (Inr off, applyDurabilityAfterLeaderAppend p')))"

section \<open>Reading\<close>

definition ReadRawMessages :: "partition_log \<Rightarrow> u64 \<Rightarrow> u32 \<Rightarrow> log_error + bytes" where
  "ReadRawMessages p start maxBytes =
     (case find (\<lambda>s. baseOffset s \<le> start) (rev (segments p)) of
        None \<Rightarrow> Inl SegmentNotFound
      | Some seg \<Rightarrow>
          (case LocateMessages (p_disk p) seg (FindPosition (p_disk p) seg start) start maxBytes of
             Inl e \<Rightarrow> Inl e
           | Inr (pos, _, nbytes) \<Rightarrow>
               if nbytes = 0 then Inl EOF
               else Inr (window (mmapData (p_disk p) seg) pos (pos + unat nbytes))))"

section \<open>Retention\<close>

record retention_policy =
  MaxAge :: int
  MaxBytes :: int
  FloorOffset :: u64
  SafetyMessages :: u64

record segment_meta =
  m_base :: u64
  m_high :: u64
  m_bytes :: int
  m_mod :: int

definition retention_Enabled :: "retention_policy \<Rightarrow> bool" where
  "retention_Enabled pol \<longleftrightarrow> 0 < MaxAge pol \<or> 0 < MaxBytes pol"

definition segmentHighOffset :: "u64 \<Rightarrow> u64 \<Rightarrow> u64 \<Rightarrow> u64" where
  "segmentHighOffset base nextBase head =
     (if base < nextBase then (if nextBase = 0 then base else nextBase - 1)
      else if base < head then head - 1 else base)"

definition retentionSafeOffset :: "u64 \<Rightarrow> retention_policy \<Rightarrow> u64 \<times> bool" where
  "retentionSafeOffset head pol =
     (let enforce = (0 < SafetyMessages pol \<or> 0 < FloorOffset pol);
          safe = (if 0 < SafetyMessages pol \<and> SafetyMessages pol < head
                  then head - SafetyMessages pol else 0)
      in (if safe < FloorOffset pol then FloorOffset pol else safe, enforce))"

text \<open>\<open>modTime\<close> gives a segment file's modification time, in nanoseconds.\<close>

definition OnDiskBytes :: "disk \<Rightarrow> segment \<Rightarrow> int" where
  "OnDiskBytes d s = int (length (f_log (d (baseOffset s)))) + int (length (f_index (d (baseOffset s))))"

definition buildSegmentMetas ::
  "partition_log \<Rightarrow> int \<Rightarrow> (u64 \<Rightarrow> int) \<Rightarrow> segment_meta list \<times> int \<times> int" where
  "buildSegmentMetas p now modTime =
     (let ss = segments p;
          meta = (\<lambda>i. let s = ss ! i;
                          nextBase = (if i + 1 < length ss then baseOffset (ss ! (i + 1))
                                      else nextOffset p)
                      in \<lparr>m_base = baseOffset s,
                          m_high = segmentHighOffset (baseOffset s) nextBase (nextOffset p),
                          m_bytes = OnDiskBytes (p_disk p) s, m_mod = modTime (baseOffset s)\<rparr>);
          metas = map meta (filter (\<lambda>i. i \<noteq> activeIdx p) [0..<length ss]);
          activeAge = now - modTime (baseOffset (activeSeg p));
          oldestAge = (case map (\<lambda>m. now - m_mod m) metas of [] \<Rightarrow> activeAge
                       | a # as \<Rightarrow> foldl max a (as @ [activeAge]))
      in (metas, sum_list (map m_bytes metas) + OnDiskBytes (p_disk p) (activeSeg p), oldestAge))"

fun selectBySize :: "int \<Rightarrow> segment_meta list \<Rightarrow> int \<Rightarrow> u64 list \<Rightarrow> u64 list" where
  "selectBySize maxBytes [] remaining selected = selected"
| "selectBySize maxBytes (m # ms) remaining selected =
     (if remaining \<le> maxBytes then selected
      else if m_base m \<in> set selected then selectBySize maxBytes ms remaining selected
      else selectBySize maxBytes ms (remaining - m_bytes m) (m_base m # selected))"

definition selectRetentionVictims ::
  "segment_meta list \<Rightarrow> retention_policy \<Rightarrow> u64 \<Rightarrow> bool \<Rightarrow> int \<Rightarrow> int \<Rightarrow> segment_meta list" where
  "selectRetentionVictims metas pol safe enforce now totalBytes =
     (let ageCutoff = now - MaxAge pol;
          candidates = filter (\<lambda>m. \<not> (enforce \<and> safe \<le> m_high m)) metas;
          aged = (if 0 < MaxAge pol
                  then map m_base (filter (\<lambda>m. m_mod m < ageCutoff) candidates) else []);
          remaining = totalBytes
                      - sum_list (map m_bytes (filter (\<lambda>m. m_base m \<in> set aged) candidates));
          selected = (if 0 < MaxBytes pol \<and> MaxBytes pol < totalBytes
                      then selectBySize (MaxBytes pol) candidates remaining aged else aged)
      in filter (\<lambda>m. m_base m \<in> set selected) candidates)"

definition removeSegmentFiles :: "disk \<Rightarrow> segment \<Rightarrow> disk" where
  "removeSegmentFiles d s = d(baseOffset s := no_files)"

record retention_result =
  DeletedSegments :: nat
  BytesFreed :: int
  OldestSegmentAge :: int
  TotalBytes :: int

fun first_index :: "('a \<Rightarrow> bool) \<Rightarrow> 'a list \<Rightarrow> nat option" where
  "first_index P [] = None"
| "first_index P (x # xs) = (if P x then Some 0 else map_option Suc (first_index P xs))"

definition ApplyRetention ::
  "retention_policy \<Rightarrow> int \<Rightarrow> (u64 \<Rightarrow> int) \<Rightarrow> partition_log
     \<Rightarrow> (log_error option \<times> retention_result) \<times> partition_log" where
  "ApplyRetention pol now modTime p =
     (let none = \<lparr>DeletedSegments = 0, BytesFreed = 0, OldestSegmentAge = 0, TotalBytes = 0\<rparr>
      in if \<not> retention_Enabled pol \<or> segments p = [] then ((None, none), p)
         else let (metas, totalBytes, oldestAge) = buildSegmentMetas p now modTime;
                  res = none\<lparr>TotalBytes := totalBytes, OldestSegmentAge := oldestAge\<rparr>;
                  (safe, enforce) = retentionSafeOffset (nextOffset p) pol;
                  toDelete = selectRetentionVictims metas pol safe enforce now totalBytes
              in if toDelete = [] then ((None, res), p)
                 else let deleteSet = map m_base toDelete;
                          dropped = filter (\<lambda>s. baseOffset s \<in> set deleteSet) (segments p);
                          kept = filter (\<lambda>s. baseOffset s \<notin> set deleteSet) (segments p);
                          d = foldl removeSegmentFiles (p_disk p) dropped;
                          res' = res\<lparr>BytesFreed := sum_list (map m_bytes toDelete),
                                     DeletedSegments := length dropped\<rparr>
                      in if kept = [] then ((Some RemoveAll, res'), p\<lparr>p_disk := d\<rparr>)
                         else let act = (case first_index
                                             (\<lambda>s. baseOffset s = baseOffset (activeSeg p)) kept of
                                           Some i \<Rightarrow> i | None \<Rightarrow> length kept - 1)
                              in ((None, res'), p\<lparr>p_disk := d, segments := kept, activeIdx := act\<rparr>))"

section \<open>The partition invariant\<close>

text \<open>Index entries are at least \<open>iv\<close> bytes of records apart, which bounds their number.\<close>

definition spaced :: "nat \<Rightarrow> u64 \<Rightarrow> rec list \<Rightarrow> bytes \<Rightarrow> bool" where
  "spaced iv base rs idx \<longleftrightarrow>
     (\<forall>i < length idx div 16. slot idx i = (0, 0) \<or>
        (\<exists>k. (k = 0 \<or> k < length rs) \<and> slot idx i = (base + of_nat k, u64_of (pos_at rs k))
             \<and> i * iv \<le> pos_at rs (Suc k)))"

definition sealed_inv :: "disk \<Rightarrow> segment \<Rightarrow> rec list \<Rightarrow> bool" where
  "sealed_inv d s rs \<longleftrightarrow>
     seg_inv d s rs \<and> rs \<noteq> [] \<and> f_log (d (baseOffset s)) = layout rs
     \<and> slots_ok (baseOffset s) rs (f_index (d (baseOffset s)))"

definition act_inv :: "partition_log \<Rightarrow> segment \<Rightarrow> rec list \<Rightarrow> bool" where
  "act_inv p a rs \<longleftrightarrow>
     active_inv (p_disk p) a rs
     \<and> spaced (nat (indexInterval p)) (baseOffset a) rs (f_index (p_disk p (baseOffset a)))
     \<and> maxSegSize a = p_maxSegSize p \<and> maxIdxSize a = max_index (p_maxSegSize p) (indexInterval p)
     \<and> (indexSize a div 16) * nat (indexInterval p) + bytesSinceIdx p \<le> logSize a + nat (indexInterval p)"

fun starts :: "u64 \<Rightarrow> rec list list \<Rightarrow> u64 list" where
  "starts b [] = []"
| "starts b (rs # rss) = b # starts (b + of_nat (length rs)) rss"

text \<open>A partition holds the records \<open>rss\<close>, segment by segment, from offset \<open>b0\<close> on.\<close>

definition part_inv :: "u64 \<Rightarrow> partition_log \<Rightarrow> rec list list \<Rightarrow> bool" where
  "part_inv b0 p rss \<longleftrightarrow>
     segments p \<noteq> [] \<and> rss \<noteq> [] \<and> activeIdx p = length (segments p) - 1
     \<and> list_all2 (sealed_inv (p_disk p)) (butlast (segments p)) (butlast rss)
     \<and> act_inv p (last (segments p)) (last rss)
     \<and> map baseOffset (segments p) = starts b0 rss
     \<and> nextOffset p = b0 + of_nat (length (concat rss))
     \<and> unat b0 + length (concat rss) < 2 ^ 64
     \<and> (\<forall>b. b \<notin> baseOffset ` set (segments p) \<longrightarrow> p_disk p b = no_files)
     \<and> 0 < indexInterval p \<and> p_maxSegSize p < 2 ^ 63"

lemma starts_append: "starts b (xs @ ys) = starts b xs @ starts (b + of_nat (length (concat xs))) ys"
  by (induction xs arbitrary: b) (auto simp: add.assoc)

lemma length_starts [simp]: "length (starts b rss) = length rss"
  by (induction rss arbitrary: b) auto

lemma starts_less:
  assumes "c \<in> set (starts b xs)" and "unat b + length (concat xs) < 2 ^ 64" and "\<forall>x \<in> set xs. x \<noteq> []"
  shows "unat b \<le> unat c \<and> unat c < unat b + length (concat xs)"
  using assms
proof (induction xs arbitrary: b)
  case (Cons x xs)
  have u: "unat (b + of_nat (length x)) = unat b + length x"
    using Cons.prems(2) by (simp add: unat_word_ariths unat_of_nat)
  show ?case
  proof (cases "c = b")
    case True
    then show ?thesis using Cons.prems(3) by (cases x) auto
  next
    case False
    then have "c \<in> set (starts (b + of_nat (length x)) xs)" using Cons.prems(1) by simp
    then have "unat (b + of_nat (length x)) \<le> unat c
        \<and> unat c < unat (b + of_nat (length x)) + length (concat xs)"
      using Cons.prems(2,3) u by (intro Cons.IH) auto
    then show ?thesis using u by simp
  qed
qed simp

text \<open>The invariant, taken apart at the active segment.\<close>

lemma part_inv_snoc:
  assumes "segments p = ss @ [a]" and "rss = xs @ [rs]"
  shows "part_inv b0 p rss \<longleftrightarrow>
     activeIdx p = length ss \<and> list_all2 (sealed_inv (p_disk p)) ss xs \<and> act_inv p a rs
     \<and> map baseOffset ss = starts b0 xs \<and> baseOffset a = b0 + of_nat (length (concat xs))
     \<and> nextOffset p = b0 + of_nat (length (concat (xs @ [rs])))
     \<and> unat b0 + length (concat (xs @ [rs])) < 2 ^ 64
     \<and> (\<forall>b. b \<notin> insert (baseOffset a) (baseOffset ` set ss) \<longrightarrow> p_disk p b = no_files)
     \<and> 0 < indexInterval p \<and> p_maxSegSize p < 2 ^ 63"
  using assms
  by (auto simp: part_inv_def starts_append append_eq_append_conv2 dest: list_all2_lengthD arg_cong [where f = length])

lemma part_inv_split:
  assumes "part_inv b0 p rss"
  obtains ss a xs rs where "segments p = ss @ [a]" "rss = xs @ [rs]"
  using assms unfolding part_inv_def by (metis append_butlast_last_id)

lemma sealed_nonempty:
  "list_all2 (sealed_inv d) ss xs \<Longrightarrow> \<forall>x \<in> set xs. x \<noteq> []"
  by (induction rule: list_all2_induct) (auto simp: sealed_inv_def)

lemma active_base_fresh:
  assumes "part_inv b0 p rss" and "segments p = ss @ [a]"
  shows "baseOffset a \<notin> baseOffset ` set ss"
proof
  obtain xs rs where rss: "rss = xs @ [rs]" using assms(1) unfolding part_inv_def by (metis append_butlast_last_id)
  note i = assms(1) [unfolded part_inv_snoc [OF assms(2) rss]]
  assume "baseOffset a \<in> baseOffset ` set ss"
  then have "baseOffset a \<in> set (starts b0 xs)" using i by (metis list.set_map)
  moreover have "\<forall>x \<in> set xs. x \<noteq> []" using i sealed_nonempty by blast
  ultimately have "unat (baseOffset a) < unat b0 + length (concat xs)"
    using i starts_less [of "baseOffset a" b0 xs] by simp
  moreover have "unat (b0 + of_nat (length (concat xs))) = unat b0 + length (concat xs)"
    using i by (simp add: unat_word_ariths unat_of_nat)
  ultimately show False using i by simp
qed

lemma seg_inv_frame: "d' (baseOffset s) = d (baseOffset s) \<Longrightarrow> seg_inv d' s rs = seg_inv d s rs"
  by (simp add: seg_inv_def)

lemma sealed_frame:
  assumes "list_all2 (sealed_inv d) ss xs" and "\<forall>b \<in> baseOffset ` set ss. d' b = d b"
  shows "list_all2 (sealed_inv d') ss xs"
  using assms(1)
proof (rule list.rel_mono_strong)
  fix s x assume "s \<in> set ss" "sealed_inv d s x"
  moreover from this have "d' (baseOffset s) = d (baseOffset s)" using assms(2) by blast
  then have "sealed_inv d' s x = sealed_inv d s x" by (simp add: sealed_inv_def seg_inv_def)
  ultimately show "sealed_inv d' s x" by simp
qed

lemma part_inv_cong:
  assumes "part_inv b0 p rss"
    and "p_disk p' = p_disk p" "segments p' = segments p" "activeIdx p' = activeIdx p"
    "nextOffset p' = nextOffset p" "bytesSinceIdx p' = bytesSinceIdx p"
    "indexInterval p' = indexInterval p" "p_maxSegSize p' = p_maxSegSize p"
  shows "part_inv b0 p' rss"
  using assms by (simp add: part_inv_def act_inv_def)

lemma pos_at_Suc_append: "k < length rs \<Longrightarrow> pos_at (rs @ rs') (Suc k) = pos_at rs (Suc k)"
  by (simp add: pos_at_def)

lemma pos_at_mono: "pos_at rs k \<le> pos_at (rs @ rs') k"
proof -
  have "layout (take k (rs @ rs')) = layout (take k rs) @ layout (take (k - length rs) rs')" by simp
  then show ?thesis by (simp add: pos_at_def del: layout_simps)
qed

lemma spaced_append: "spaced iv base rs idx \<Longrightarrow> spaced iv base (rs @ rs') idx"
  unfolding spaced_def
proof (intro allI impI)
  fix i assume s: "\<forall>i < length idx div 16. slot idx i = (0, 0) \<or>
        (\<exists>k. (k = 0 \<or> k < length rs) \<and> slot idx i = (base + of_nat k, u64_of (pos_at rs k)) \<and> i * iv \<le> pos_at rs (Suc k))"
    and i: "i < length idx div 16"
  show "slot idx i = (0, 0) \<or> (\<exists>k. (k = 0 \<or> k < length (rs @ rs'))
        \<and> slot idx i = (base + of_nat k, u64_of (pos_at (rs @ rs') k)) \<and> i * iv \<le> pos_at (rs @ rs') (Suc k))"
  proof (cases "slot idx i = (0, 0)")
    case False
    then obtain k where k: "k = 0 \<or> k < length rs" "slot idx i = (base + of_nat k, u64_of (pos_at rs k))"
      "i * iv \<le> pos_at rs (Suc k)" using s i by blast
    then have "pos_at (rs @ rs') k = pos_at rs k" by (intro pos_at_append) auto
    then show ?thesis using k order_trans [OF k(3) pos_at_mono] by (intro disjI2 exI [of _ k]) auto
  qed simp
qed


section \<open>Appending keeps the invariant\<close>

lemma part_inv_step:
  assumes inv: "part_inv b0 p (xs @ [rs])" and seg: "segments p = ss @ [a]"
    and "segments p' = ss @ [a']" and "baseOffset a' = baseOffset a"
    and "\<forall>b. b \<noteq> baseOffset a \<longrightarrow> p_disk p' b = p_disk p b" and "act_inv p' a' (rs @ [r])"
    and "nextOffset p' = nextOffset p + 1" and "activeIdx p' = activeIdx p"
    and "indexInterval p' = indexInterval p" and "p_maxSegSize p' = p_maxSegSize p"
    and "unat b0 + length (concat (xs @ [rs])) + 1 < 2 ^ 64"
  shows "part_inv b0 p' (xs @ [rs @ [r]])"
proof -
  note i = inv [unfolded part_inv_snoc [OF seg refl]]
  have i1: "activeIdx p = length ss" and i2: "list_all2 (sealed_inv (p_disk p)) ss xs"
    and i3: "map baseOffset ss = starts b0 xs" and i4: "baseOffset a = b0 + of_nat (length (concat xs))"
    and i5: "nextOffset p = b0 + of_nat (length (concat (xs @ [rs])))"
    and i6: "\<forall>b. b \<notin> insert (baseOffset a) (baseOffset ` set ss) \<longrightarrow> p_disk p b = no_files"
    and i7: "0 < indexInterval p" and i8: "p_maxSegSize p < 2 ^ 63"
    using i by - (elim conjE, assumption)+
  have d': "\<forall>b \<in> baseOffset ` set ss. p_disk p' b = p_disk p b"
  proof
    fix b assume "b \<in> baseOffset ` set ss"
    then have "b \<noteq> baseOffset a" using active_base_fresh [OF inv seg] by metis
    then show "p_disk p' b = p_disk p b" using assms(5) by simp
  qed
  show ?thesis unfolding part_inv_snoc [OF assms(3) refl]
  proof (intro conjI)
    show "activeIdx p' = length ss" using i1 assms(8) by simp
    show "list_all2 (sealed_inv (p_disk p')) ss xs" by (rule sealed_frame [OF i2 d'])
    show "act_inv p' a' (rs @ [r])" by (rule assms(6))
    show "map baseOffset ss = starts b0 xs" by (rule i3)
    show "baseOffset a' = b0 + of_nat (length (concat xs))" using i4 assms(4) by simp
    show "nextOffset p' = b0 + of_nat (length (concat (xs @ [rs @ [r]])))"
      using i5 assms(7) by (simp add: add.assoc)
    show "unat b0 + length (concat (xs @ [rs @ [r]])) < 2 ^ 64" using assms(11) by simp
    show "\<forall>b. b \<notin> insert (baseOffset a') (baseOffset ` set ss) \<longrightarrow> p_disk p' b = no_files"
      using i6 assms(4,5) by simp
    show "0 < indexInterval p'" "p_maxSegSize p' < 2 ^ 63" using i7 i8 assms(9,10) by simp_all
  qed
qed

lemma max_index_room:
  assumes "0 < iv" and "n * nat iv \<le> m"
  shows "n * 16 + 16 \<le> max_index m iv"
proof -
  have "n \<le> m div nat iv" using assms by (simp add: less_eq_div_iff_mult_less_eq)
  then show ?thesis using assms(1) by (simp add: max_index_def)
qed

lemma spaced_write:
  assumes sp: "spaced iv base rs f" and rs: "rs \<noteq> []" and fit: "n * 16 + 16 \<le> length f"
    and n: "n * iv \<le> length (layout rs)"
  shows "spaced iv base rs (store (store f (n * 16, be64 (base + of_nat (length rs - 1))))
           (n * 16 + 8, be64 (u64_of (pos_at rs (length rs - 1)))))" (is "spaced iv base rs ?f")
  unfolding spaced_def
proof (intro allI impI)
  fix i assume "i < length ?f div 16"
  then have i: "i < length f div 16" using length_store2 [OF fit] by simp
  show "slot ?f i = (0, 0) \<or> (\<exists>k. (k = 0 \<or> k < length rs) \<and> slot ?f i = (base + of_nat k, u64_of (pos_at rs k)) \<and> i * iv \<le> pos_at rs (Suc k))"
  proof (cases "i = n")
    case True
    have "Suc (length rs - 1) = length rs" "length rs - 1 < length rs" using rs by (cases rs; simp)+
    then show ?thesis using slot_store_same [OF fit] n True
      by (intro disjI2 exI [of _ "length rs - 1"]) simp
  next
    case False
    have "slot ?f i = slot f i" by (rule slot_store_other [OF False fit]) (use i in linarith)
    then show ?thesis using sp i by (simp add: spaced_def)
  qed
qed

lemma no_roll_append:
  assumes inv: "part_inv b0 p (xs @ [rs])" and seg: "segments p = ss @ [a]"
    and fits: "logSize a + (12 + length payload) \<le> p_maxSegSize p" and pl: "8 + length payload < 2 ^ 32"
    and room: "unat b0 + length (concat (xs @ [rs])) + 1 < 2 ^ 64"
  shows "\<exists>p'. appendPayloadLockedInner p (nextOffset p) payload False e = (Inr (nextOffset p), p')
     \<and> part_inv b0 p' (xs @ [rs @ [(nextOffset p, payload)]])
     \<and> (\<exists>d s n k. p' = p\<lparr>p_disk := d, segments := s, nextOffset := n, bytesSinceIdx := k\<rparr>)"
proof -
  note i = inv [unfolded part_inv_snoc [OF seg refl]]
  let ?off = "nextOffset p" and ?iv = "nat (indexInterval p)" and ?r = "(nextOffset p, payload)"
  let ?n = "12 + length payload" and ?rs = "rs @ [(nextOffset p, payload)]"
  have act: "activeSeg p = a" using i seg by (simp add: activeSeg_def nth_append)
  have ai: "active_inv (p_disk p) a rs" and ms: "maxSegSize a = p_maxSegSize p"
    and mi: "maxIdxSize a = max_index (p_maxSegSize p) (indexInterval p)"
    and sp: "spaced ?iv (baseOffset a) rs (f_index (p_disk p (baseOffset a)))"
    and rm: "(indexSize a div 16) * ?iv + bytesSinceIdx p \<le> logSize a + ?iv"
    using i by (auto simp: act_inv_def)
  have off: "?off = baseOffset a + of_nat (length rs)" using i by simp
  have ub: "unat (baseOffset a) = unat b0 + length (concat xs)"
    using i by (simp add: unat_word_ariths unat_of_nat)
  obtain d1 a1 where W: "Write (p_disk p) a ?off payload = (Inr (logSize a), d1, a1)"
    and a1: "a1 = a\<lparr>logSize := logSize a + ?n\<rparr>" and d1: "\<forall>b. b \<noteq> baseOffset a \<longrightarrow> d1 b = p_disk p b"
    and fi: "f_index (d1 (baseOffset a)) = f_index (p_disk p (baseOffset a))"
    and ai1: "active_inv d1 a1 ?rs"
    using Write_ok [OF ai off, of payload] fits pl ms i room ub by auto
  have sp1: "spaced ?iv (baseOffset a) ?rs (f_index (d1 (baseOffset a)))"
    using spaced_append [OF sp] fi by simp
  define p1 where "p1 = p\<lparr>p_disk := d1, segments := ss @ [a1], nextOffset := ?off + 1, bytesSinceIdx := bytesSinceIdx p + ?n\<rparr>"
  show ?thesis
  proof (cases "indexInterval p \<le> int (bytesSinceIdx p + ?n)")
    case False
    then have A: "appendPayloadLockedInner p ?off payload False e = (Inr ?off, p1)"
      using fits W i seg by (simp add: appendPayloadLockedInner_def act Let_def set_active_def p1_def)
    have "act_inv p1 a1 ?rs" using ai1 sp1 rm ms mi by (simp add: act_inv_def p1_def a1)
    then have "part_inv b0 p1 (xs @ [?rs])"
      using part_inv_step [OF inv seg, of p1 a1 ?r] d1 room by (simp add: p1_def a1)
    then show ?thesis using A unfolding p1_def by blast
  next
    case True
    define n where "n = indexSize a div 16"
    have n16: "indexSize a = n * 16" using ai by (simp add: active_inv_def seg_inv_def n_def)
    have nb: "n * ?iv \<le> logSize a + ?n" using rm True by (simp add: n_def)
    then have fit: "n * 16 + 16 \<le> maxIdxSize a"
      using max_index_room [of "indexInterval p" n "p_maxSegSize p"] i fits mi by simp
    have lr: "logSize a = pos_at ?rs (length ?rs - 1)"
      using ai by (simp add: active_inv_def seg_inv_def)
    obtain d2 a2 where I: "WriteIndexEntry d1 a1 ?off (logSize a) = (None, d2, a2)"
      and a2: "a2 = a1\<lparr>indexSize := indexSize a1 + 16\<rparr>" and d2: "\<forall>b. b \<noteq> baseOffset a1 \<longrightarrow> d2 b = d1 b"
      and ai2: "active_inv d2 a2 ?rs"
      using WriteIndexEntry_ok [OF ai1, of ?off "logSize a"] off lr fit n16 by (auto simp: a1)
    have f2: "f_index (d2 (baseOffset a)) = store (store (f_index (d1 (baseOffset a))) (n * 16, be64 ?off))
        (n * 16 + 8, be64 (u64_of (logSize a)))"
      using I by (auto simp: WriteIndexEntry_def Let_def a1 n16 split: if_splits)
    have "length (f_index (d1 (baseOffset a))) = maxIdxSize a" "length (layout ?rs) = logSize a + ?n"
      using ai1 by (simp_all add: active_inv_def seg_inv_def a1)
    then have "spaced ?iv (baseOffset a) ?rs (f_index (d2 (baseOffset a)))"
      using spaced_write [OF sp1, of n] fit nb off lr by (simp add: f2)
    moreover define p2 where "p2 = p\<lparr>p_disk := d2, segments := ss @ [a2], nextOffset := ?off + 1, bytesSinceIdx := 0\<rparr>"
    moreover have "(indexSize a2 div 16) * ?iv \<le> logSize a2 + ?iv" using nb by (simp add: a2 a1 n16)
    ultimately have "act_inv p2 a2 ?rs" using ai2 ms mi by (simp add: act_inv_def p1_def a2 a1)
    moreover have "\<forall>b. b \<noteq> baseOffset a \<longrightarrow> d2 b = p_disk p b" using d1 d2 by (simp add: a1)
    ultimately have "part_inv b0 p2 (xs @ [?rs])"
      using part_inv_step [OF inv seg, of p2 a2 ?r] room by (simp add: p2_def p1_def a2 a1)
    moreover have "activeSeg p1 = a1" using i by (simp add: p1_def activeSeg_def nth_append)
    then have "appendPayloadLockedInner p ?off payload False e = (Inr ?off, p2)"
      using fits True W I i seg
      by (simp add: appendPayloadLockedInner_def act Let_def set_active_def p1_def p2_def activeSeg_def nth_append)
    ultimately show ?thesis unfolding p2_def by blast
  qed
qed

section \<open>Rolling to a new segment\<close>

lemma syncLocked_fields [simp]:
  "p_disk (syncLocked p) = p_disk p" "segments (syncLocked p) = segments p"
  "activeIdx (syncLocked p) = activeIdx p" "nextOffset (syncLocked p) = nextOffset p"
  "bytesSinceIdx (syncLocked p) = bytesSinceIdx p" "indexInterval (syncLocked p) = indexInterval p"
  "p_maxSegSize (syncLocked p) = p_maxSegSize p" "durability (syncLocked p) = durability p"
  "fencingEpoch (syncLocked p) = fencingEpoch p" "epochFile (syncLocked p) = epochFile p"
  "fsyncFails (syncLocked p) = fsyncFails p" "activeSeg (syncLocked p) = activeSeg p"
  by (simp_all add: syncLocked_def activeSeg_def Let_def)

lemma seal_segment:
  assumes ai: "active_inv d a rs" and "rs \<noteq> []"
    and d': "d' (baseOffset a) = \<lparr>f_log = Truncate (logSize a) (f_log (d (baseOffset a))),
                                  f_index = Truncate (indexSize a) (f_index (d (baseOffset a)))\<rparr>"
  shows "\<exists>s. NewSegment d' (baseOffset a) m iv False = (d', s) \<and> sealed_inv d' s rs \<and> baseOffset s = baseOffset a"
proof -
  let ?b = "baseOffset a"
  have si: "seg_inv d a rs" using ai by (simp add: active_inv_def)
  have "logSize a \<le> length (f_log (d ?b))" "indexSize a \<le> length (f_index (d ?b))" "16 dvd indexSize a"
    using ai si by (auto simp: active_inv_def seg_inv_def)
  then have f: "f_log (d' ?b) = layout rs" "f_index (d' ?b) = take (indexSize a) (f_index (d ?b))"
    using si by (auto simp: d' Truncate_def seg_inv_def)
  have "slots_ok ?b rs (f_index (d' ?b))"
    unfolding f(2) by (rule slots_ok_take) (use ai \<open>16 dvd indexSize a\<close> \<open>indexSize a \<le> _\<close> in \<open>auto simp: active_inv_def\<close>)
  moreover have "recs_from ?b rs" using si by (simp add: seg_inv_def)
  ultimately show ?thesis
    using NewSegment_sealed [of ?b rs d' m iv] f(1) assms(2) by (auto simp: sealed_inv_def)
qed

lemma sealed_inv_cong: "d' (baseOffset s) = d (baseOffset s) \<Longrightarrow> sealed_inv d' s rs = sealed_inv d s rs"
  by (simp add: sealed_inv_def seg_inv_def)

lemma spaced_zero: "spaced iv b rs (replicate m 0)"
  unfolding spaced_def using slot_zero [OF refl] by auto

lemma next_base_fresh:
  assumes inv: "part_inv b0 p (xs @ [rs])" and seg: "segments p = ss @ [a]" and "rs \<noteq> []"
  shows "nextOffset p \<notin> baseOffset ` set (segments p)"
proof
  note i = inv [unfolded part_inv_snoc [OF seg refl]]
  assume "nextOffset p \<in> baseOffset ` set (segments p)"
  then have "nextOffset p \<in> set (starts b0 (xs @ [rs]))"
    using inv unfolding part_inv_def by (metis list.set_map)
  moreover have "\<forall>x \<in> set (xs @ [rs]). x \<noteq> []" using i sealed_nonempty assms(3) by auto
  ultimately have "unat (nextOffset p) < unat b0 + length (concat (xs @ [rs]))"
    using i starts_less [of "nextOffset p" b0 "xs @ [rs]"] by blast
  moreover have "unat (nextOffset p) = unat b0 + length (concat (xs @ [rs]))"
    using i by (simp add: unat_word_ariths unat_of_nat)
  ultimately show False by simp
qed

lemma roll_ok:
  assumes inv: "part_inv b0 p (xs @ [rs])" and seg: "segments p = ss @ [a]" and rs: "rs \<noteq> []"
    and room: "unat b0 + length (concat (xs @ [rs])) + 1 < 2 ^ 64"
  shows "\<exists>p' ro nw. rollLockedInner p = p' \<and> segments p' = (ss @ [ro]) @ [nw]
     \<and> part_inv b0 p' ((xs @ [rs]) @ [[]]) \<and> logSize nw = 0
     \<and> nextOffset p' = nextOffset p \<and> p_maxSegSize p' = p_maxSegSize p \<and> fencingEpoch p' = fencingEpoch p
     \<and> epochFile p' = epochFile p \<and> durability p' = durability p \<and> fsyncFails p' = fsyncFails p"
proof -
  note i = inv [unfolded part_inv_snoc [OF seg refl]]
  have i1: "activeIdx p = length ss" and i2: "list_all2 (sealed_inv (p_disk p)) ss xs"
    and i3: "map baseOffset ss = starts b0 xs" and i4: "baseOffset a = b0 + of_nat (length (concat xs))"
    and i5: "nextOffset p = b0 + of_nat (length (concat (xs @ [rs])))"
    and i6: "\<forall>b. b \<notin> insert (baseOffset a) (baseOffset ` set ss) \<longrightarrow> p_disk p b = no_files"
    and i7: "0 < indexInterval p" and i8: "p_maxSegSize p < 2 ^ 63" and i9: "act_inv p a rs"
    using i by - (elim conjE, assumption)+
  let ?b = "baseOffset a" and ?n = "nextOffset p"
  have act: "activeSeg p = a" using i1 seg by (simp add: activeSeg_def nth_append)
  define d1 where "d1 = (p_disk p)(?b := \<lparr>f_log = Truncate (logSize a) (f_log (p_disk p ?b)),
                                  f_index = Truncate (indexSize a) (f_index (p_disk p ?b))\<rparr>)"
  have ai: "active_inv (p_disk p) a rs" using i9 by (simp add: act_inv_def)
  obtain ro where ro: "NewSegment d1 ?b (p_maxSegSize p) (indexInterval p) False = (d1, ro)"
      "sealed_inv d1 ro rs" "baseOffset ro = ?b"
    using seal_segment [OF ai rs, of d1] by (auto simp: d1_def)
  have fr: "?n \<noteq> ?b" "?n \<notin> baseOffset ` set ss" using next_base_fresh [OF inv seg rs] by (auto simp: seg)
  have "d1 ?n = no_files" using i6 fr by (simp add: d1_def)
  moreover have "unat ?n = unat b0 + length (concat (xs @ [rs]))"
    using room unfolding i5 by (simp add: unat_word_ariths unat_of_nat)
  then have "unat ?n < 2 ^ 64 - 1" using room by simp
  ultimately obtain d3 nw where nw: "NewSegment d1 ?n (p_maxSegSize p) (indexInterval p) True = (d3, nw)"
      "active_inv d3 nw []" "baseOffset nw = ?n" "maxSegSize nw = p_maxSegSize p"
      "maxIdxSize nw = max_index (p_maxSegSize p) (indexInterval p)" "indexSize nw = 0"
      "f_index (d3 ?n) = replicate (max_index (p_maxSegSize p) (indexInterval p)) 0"
      and d3: "\<forall>b'. b' \<noteq> ?n \<longrightarrow> d3 b' = d1 b'"
    using NewSegment_fresh by blast
  have l0: "logSize nw = 0" using nw(2) by (simp add: active_inv_def seg_inv_def)
  define p' where "p' = (syncLocked p)\<lparr>p_disk := d3, segments := (ss @ [ro]) @ [nw],
      activeIdx := length ss + 1, bytesSinceIdx := 0\<rparr>"
  have R: "rollLockedInner p = p'"
    using ro(1) nw(1) unfolding d1_def
    by (simp add: rollLockedInner_def Let_def act seg p'_def list_update_append)
  have "d3 ?b = d1 ?b" using d3 fr(1) by simp
  then have "sealed_inv d3 ro rs" using ro(2,3) sealed_inv_cong [of d3 ro d1 rs] by simp
  moreover have "list_all2 (sealed_inv d3) ss xs"
  proof (rule sealed_frame [OF i2], rule ballI)
    fix b assume b: "b \<in> baseOffset ` set ss"
    then have "b \<noteq> ?b" "b \<noteq> ?n" using active_base_fresh [OF inv seg] fr(2) by metis+
    then show "d3 b = p_disk p b" using d3 by (simp add: d1_def)
  qed
  ultimately have sl: "list_all2 (sealed_inv d3) (ss @ [ro]) (xs @ [rs])" by (simp add: list_all2_appendI)
  have an: "act_inv p' nw []"
    using nw l0 spaced_zero unfolding act_inv_def p'_def by (simp add: nw)
  have sg: "segments p' = (ss @ [ro]) @ [nw]" by (simp add: p'_def)
  have "part_inv b0 p' ((xs @ [rs]) @ [[]])"
    unfolding part_inv_snoc [OF sg refl]
  proof (intro conjI)
    show "activeIdx p' = length (ss @ [ro])" by (simp add: p'_def)
    show "list_all2 (sealed_inv (p_disk p')) (ss @ [ro]) (xs @ [rs])" using sl by (simp add: p'_def)
    show "act_inv p' nw []" by (rule an)
    show "map baseOffset (ss @ [ro]) = starts b0 (xs @ [rs])" using i3 i4 ro(3) by (simp add: starts_append)
    show "baseOffset nw = b0 + of_nat (length (concat (xs @ [rs])))" using nw(3) i5 by simp
    show "nextOffset p' = b0 + of_nat (length (concat ((xs @ [rs]) @ [[]])))" using i5 by (simp add: p'_def)
    show "unat b0 + length (concat ((xs @ [rs]) @ [[]])) < 2 ^ 64" using room by simp
    show "\<forall>b. b \<notin> insert (baseOffset nw) (baseOffset ` set (ss @ [ro])) \<longrightarrow> p_disk p' b = no_files"
      using i6 d3 ro(3) nw(3) by (simp add: p'_def d1_def)
    show "0 < indexInterval p'" "p_maxSegSize p' < 2 ^ 63" using i7 i8 by (simp_all add: p'_def)
  qed
  then show ?thesis using R l0 by (auto simp: p'_def)
qed

section \<open>Appending\<close>

lemma append_after_roll:
  assumes "p_maxSegSize p < logSize (activeSeg p) + (12 + length payload)"
    and "logSize (activeSeg (rollLockedInner p)) + (12 + length payload) \<le> p_maxSegSize (rollLockedInner p)"
  shows "appendPayloadLockedInner p off payload False e
       = appendPayloadLockedInner (rollLockedInner p) off payload False e"
  using assms by (simp add: appendPayloadLockedInner_def Let_def)

lemma append_ok:
  assumes inv: "part_inv b0 p rss" and fits: "12 + length payload \<le> p_maxSegSize p"
    and pl: "8 + length payload < 2 ^ 32" and room: "unat b0 + length (concat rss) + 1 < 2 ^ 64"
  shows "\<exists>p' rss'. appendPayloadLockedInner p (nextOffset p) payload False e = (Inr (nextOffset p), p')
     \<and> part_inv b0 p' rss' \<and> concat rss' = concat rss @ [(nextOffset p, payload)] \<and> last rss' \<noteq> []
     \<and> p_maxSegSize p' = p_maxSegSize p \<and> fencingEpoch p' = fencingEpoch p \<and> epochFile p' = epochFile p
     \<and> durability p' = durability p \<and> fsyncFails p' = fsyncFails p"
proof -
  obtain ss a xs rs where seg: "segments p = ss @ [a]" and rss: "rss = xs @ [rs]"
    using part_inv_split [OF inv] by blast
  note inv' = inv [unfolded rss] and room' = room [unfolded rss]
  note i = inv' [unfolded part_inv_snoc [OF seg refl]]
  have act: "activeSeg p = a" using i seg by (simp add: activeSeg_def nth_append)
  show ?thesis
  proof (cases "logSize a + (12 + length payload) \<le> p_maxSegSize p")
    case True
    obtain p' where p': "appendPayloadLockedInner p (nextOffset p) payload False e = (Inr (nextOffset p), p')"
        "part_inv b0 p' (xs @ [rs @ [(nextOffset p, payload)]])"
        "\<exists>d s n k. p' = p\<lparr>p_disk := d, segments := s, nextOffset := n, bytesSinceIdx := k\<rparr>"
      using no_roll_append [OF inv' seg True pl room'] by blast
    show ?thesis
      by (rule exI [of _ p'], rule exI [of _ "xs @ [rs @ [(nextOffset p, payload)]]"]) (use p' rss in auto)
  next
    case False
    have "logSize a = length (layout rs)" using i by (simp add: act_inv_def active_inv_def seg_inv_def)
    then have "rs \<noteq> []" using False fits by auto
    then obtain p1 ro nw where p1: "rollLockedInner p = p1" "segments p1 = (ss @ [ro]) @ [nw]"
        "part_inv b0 p1 ((xs @ [rs]) @ [[]])" "logSize nw = 0"
        "nextOffset p1 = nextOffset p" "p_maxSegSize p1 = p_maxSegSize p" "fencingEpoch p1 = fencingEpoch p"
        "epochFile p1 = epochFile p" "durability p1 = durability p" "fsyncFails p1 = fsyncFails p"
      using roll_ok [OF inv' seg _ room'] by blast
    note i1 = p1(3) [unfolded part_inv_snoc [OF p1(2) refl]]
    have act1: "activeSeg p1 = nw" using i1 p1(2) by (simp add: activeSeg_def nth_append)
    have same: "appendPayloadLockedInner p (nextOffset p) payload False e
        = appendPayloadLockedInner p1 (nextOffset p1) payload False e"
      using append_after_roll [of p payload "nextOffset p" e] False fits p1 act act1 by simp
    have "logSize nw + (12 + length payload) \<le> p_maxSegSize p1" using fits p1 by simp
    moreover have "unat b0 + length (concat ((xs @ [rs]) @ [[]])) + 1 < 2 ^ 64" using room' by simp
    ultimately obtain p' where p': "appendPayloadLockedInner p1 (nextOffset p1) payload False e = (Inr (nextOffset p1), p')"
        "part_inv b0 p' ((xs @ [rs]) @ [[] @ [(nextOffset p1, payload)]])"
        "\<exists>d s n k. p' = p1\<lparr>p_disk := d, segments := s, nextOffset := n, bytesSinceIdx := k\<rparr>"
      using no_roll_append [OF p1(3,2) _ pl] by blast
    show ?thesis
      by (rule exI [of _ p'], rule exI [of _ "(xs @ [rs]) @ [[] @ [(nextOffset p1, payload)]]"])
        (use p' rss same p1 in auto)
  qed
qed

section \<open>Reading\<close>

lemma part_segs:
  assumes "part_inv b0 p rss"
  shows "list_all2 (seg_inv (p_disk p)) (segments p) rss"
proof -
  obtain ss a xs rs where s: "segments p = ss @ [a]" "rss = xs @ [rs]" using part_inv_split [OF assms] by blast
  note i = assms [unfolded part_inv_snoc [OF s]]
  have "list_all2 (seg_inv (p_disk p)) ss xs"
    using i by (auto simp: sealed_inv_def elim: list_all2_mono)
  moreover have "seg_inv (p_disk p) a rs" using i by (simp add: act_inv_def active_inv_def)
  ultimately show ?thesis using s by (simp add: list_all2_appendI)
qed

lemma find_rev_split:
  "find P (rev ss) = Some s \<Longrightarrow> \<exists>ss1 ss2. ss = ss1 @ s # ss2 \<and> P s \<and> (\<forall>x \<in> set ss2. \<not> P x)"
proof (induction ss rule: rev_induct)
  case (snoc x ss)
  show ?case
  proof (cases "P x")
    case True
    then show ?thesis using snoc.prems by (intro exI [of _ ss] exI [of _ "[]"]) auto
  next
    case False
    then obtain ss1 ss2 where "ss = ss1 @ s # ss2" "P s" "\<forall>x \<in> set ss2. \<not> P x"
      using snoc by auto
    then show ?thesis using False by (intro exI [of _ ss1] exI [of _ "ss2 @ [x]"]) auto
  qed
qed simp

lemma starts_ge:
  assumes "c \<in> set (starts b xs)" and "unat b + length (concat xs) < 2 ^ 64"
  shows "unat b \<le> unat c"
  using assms
proof (induction xs arbitrary: b)
  case (Cons x xs)
  have u: "unat (b + of_nat (length x)) = unat b + length x"
    using Cons.prems(2) by (simp add: unat_word_ariths unat_of_nat)
  then show ?case using Cons.IH [of "b + of_nat (length x)"] Cons.prems by auto
qed simp

text \<open>The segment a read starts in is the one holding the wanted offset.\<close>

lemma find_segment:
  assumes inv: "part_inv b0 p rss" and ge: "b0 \<le> start"
  shows "\<exists>s r1 x r2. find (\<lambda>s. baseOffset s \<le> start) (rev (segments p)) = Some s
     \<and> rss = r1 @ x # r2 \<and> seg_inv (p_disk p) s x
     \<and> unat (baseOffset s) = unat b0 + length (concat r1) \<and> baseOffset s \<le> start
     \<and> (r2 = [] \<or> unat start < unat b0 + length (concat r1) + length x)"
proof -
  have mb: "map baseOffset (segments p) = starts b0 rss" and bd: "unat b0 + length (concat rss) < 2 ^ 64"
    and ne: "segments p \<noteq> []" "rss \<noteq> []"
    using inv by (auto simp: part_inv_def)
  have "find (\<lambda>s. baseOffset s \<le> start) (rev (segments p)) \<noteq> None"
  proof -
    have "baseOffset (hd (segments p)) = b0" using mb ne by (cases "segments p"; cases rss) auto
    then have "\<exists>s \<in> set (segments p). baseOffset s \<le> start" using ne ge by (intro bexI [of _ "hd (segments p)"]) auto
    then show ?thesis by (auto simp: find_None_iff)
  qed
  then obtain s where f: "find (\<lambda>s. baseOffset s \<le> start) (rev (segments p)) = Some s" by blast
  then obtain ss1 ss2 where sp: "segments p = ss1 @ s # ss2" "baseOffset s \<le> start" "\<forall>x \<in> set ss2. \<not> baseOffset x \<le> start"
    using find_rev_split [OF f] by blast
  obtain r1 x r2 where rp: "rss = r1 @ x # r2" "list_all2 (seg_inv (p_disk p)) ss1 r1" "seg_inv (p_disk p) s x"
      "list_all2 (seg_inv (p_disk p)) ss2 r2"
    using part_segs [OF inv] unfolding sp(1) by (auto simp: list_all2_append1 list_all2_Cons1)
  have ll: "length ss1 = length r1" "length ss2 = length r2" using rp by (auto dest: list_all2_lengthD)
  let ?c = "b0 + of_nat (length (concat r1))"
  have m2: "map baseOffset ss1 @ baseOffset s # map baseOffset ss2 = starts b0 r1 @ ?c # starts (?c + of_nat (length x)) r2"
    using mb unfolding sp(1) rp(1) by (simp add: starts_append)
  then have bs: "baseOffset s = ?c" "map baseOffset ss2 = starts (?c + of_nat (length x)) r2"
    using ll by (auto simp: append_eq_append_conv)
  have u: "unat ?c = unat b0 + length (concat r1)" "unat (?c + of_nat (length x)) = unat b0 + length (concat r1) + length x"
    using bd unfolding rp(1) by (simp_all add: unat_word_ariths unat_of_nat mod_simps)
  have "r2 = [] \<or> unat start < unat b0 + length (concat r1) + length x"
  proof (cases ss2)
    case Nil
    then show ?thesis using ll by simp
  next
    case (Cons y ys)
    then have "baseOffset y = ?c + of_nat (length x)" using bs(2) ll by (cases r2) auto
    moreover have "start < baseOffset y" using sp(3) Cons by auto
    ultimately show ?thesis using u(2) by (simp add: word_less_nat_alt)
  qed
  then show ?thesis using f rp bs u sp(2) by auto
qed

lemma read_spec:
  assumes inv: "part_inv b0 p rss" and small: "\<forall>r \<in> set (concat rss). unat maxBytes + rec_len r < 2 ^ 32"
    and ge: "b0 \<le> start"
  shows "if nextOffset p \<le> start then ReadRawMessages p start maxBytes = Inl EOF
     else \<exists>run rest. ReadRawMessages p start maxBytes = Inr (layout run) \<and> run \<noteq> []
       \<and> run @ rest = drop (unat start - unat b0) (concat rss)
       \<and> (length (layout run) \<le> unat maxBytes \<or> length run = 1)"
proof -
  obtain s r1 x r2 where f: "find (\<lambda>s. baseOffset s \<le> start) (rev (segments p)) = Some s"
    and r: "rss = r1 @ x # r2" and si: "seg_inv (p_disk p) s x"
    and us: "unat (baseOffset s) = unat b0 + length (concat r1)" and le: "baseOffset s \<le> start"
    and last: "r2 = [] \<or> unat start < unat b0 + length (concat r1) + length x"
    using find_segment [OF inv ge] by blast
  define j where "j = unat start - unat (baseOffset s)"
  define run where "run = greedy (unat maxBytes) 0 (drop j x)"
  obtain k where k: "k = 0 \<or> k < length x \<and> baseOffset s + of_nat k \<le> start" "FindPosition (p_disk p) s start = pos_at x k"
    using FindPosition_ok [OF si] by blast
  have sx: "\<forall>r \<in> set x. unat maxBytes + rec_len r < 2 ^ 32" using small by (auto simp: r)
  have LM: "LocateMessages (p_disk p) s (FindPosition (p_disk p) s start) start maxBytes
      = (if drop j x = [] then Inl EOF else Inr (pos_at x j, u32_of (length run), u32_of (length (layout run))))"
    using LocateMessages_ok [OF si k(1) sx] by (simp add: k(2) j_def run_def)
  have nx: "unat (nextOffset p) = unat b0 + length (concat rss)"
    using inv by (auto simp: part_inv_def unat_word_ariths unat_of_nat)
  have ej: "unat start = unat b0 + length (concat r1) + j"
    using le us by (simp add: j_def word_le_nat_alt)
  show ?thesis
  proof (cases "drop j x = []")
    case True
    then have "r2 = []" using last ej by auto
    then have "nextOffset p \<le> start" using True nx ej by (simp add: word_le_nat_alt r)
    then show ?thesis using True LM f by (simp add: ReadRawMessages_def)
  next
    case False
    obtain rest where rest: "drop j x = run @ rest" using greedy_prefix [of "drop j x"] run_def by blast
    have "run \<noteq> []" using False unfolding run_def by (cases "drop j x") auto
    have b: "length (layout run) \<le> unat maxBytes \<or> length run = 1" unfolding run_def by (rule greedy_bytes)
    have ru: "unat (u32_of (length (layout run))) = length (layout run)"
    proof (cases "length run = 1")
      case True
      then obtain r0 where r0: "run = [r0]" by (cases run) auto
      then have "r0 \<in> set x" using rest by (metis in_set_dropD list.set_intros(1) append_Cons)
      then show ?thesis using sx r0 by auto
    next
      case F: False
      then show ?thesis using b unat_bounds(3) [of maxBytes] by simp
    qed
    have "0 < length (layout run)" using \<open>run \<noteq> []\<close> by (cases run) auto
    then have nz: "u32_of (length (layout run)) \<noteq> 0" using ru by (metis less_irrefl unat_0)
    have "j < length x" using False by simp
    then have w: "window (mmapData (p_disk p) s) (pos_at x j) (pos_at x j + length (layout run)) = layout run"
      using window_run [OF si _ rest] by blast
    have "\<not> nextOffset p \<le> start" using \<open>j < length x\<close> nx ej by (simp add: word_le_nat_alt r)
    moreover have "ReadRawMessages p start maxBytes = Inr (layout run)"
      using False LM f nz w ru by (simp add: ReadRawMessages_def)
    moreover have "drop (unat start - unat b0) (concat rss) = run @ (rest @ concat r2)"
      using rest ej \<open>j < length x\<close> by (simp add: r)
    ultimately show ?thesis using \<open>run \<noteq> []\<close> b by auto
  qed
qed

lemma read_below:
  assumes inv: "part_inv b0 p rss" and "start < b0"
  shows "ReadRawMessages p start maxBytes = Inl SegmentNotFound"
proof -
  have mb: "map baseOffset (segments p) = starts b0 rss" and bd: "unat b0 + length (concat rss) < 2 ^ 64"
    using inv by (auto simp: part_inv_def)
  have "\<not> baseOffset s \<le> start" if "s \<in> set (segments p)" for s
  proof -
    have "baseOffset s \<in> set (starts b0 rss)" using that mb by (metis image_eqI list.set_map)
    then show ?thesis using starts_ge [OF _ bd] assms(2) by (simp add: word_le_nat_alt word_less_nat_alt not_le) (meson less_le_trans)
  qed
  then have "find (\<lambda>s. baseOffset s \<le> start) (rev (segments p)) = None" by (simp add: find_None_iff)
  then show ?thesis by (simp add: ReadRawMessages_def)
qed

section \<open>Reopening\<close>

lemma starts_sorted:
  assumes "\<forall>x \<in> set (butlast xs). x \<noteq> []" and "unat b + length (concat xs) < 2 ^ 64"
  shows "sorted_wrt (<) (starts b xs)"
  using assms
proof (induction xs arbitrary: b)
  case (Cons x xs)
  have u: "unat (b + of_nat (length x)) = unat b + length x"
    using Cons.prems(2) by (simp add: unat_word_ariths unat_of_nat)
  have "b < c" if "c \<in> set (starts (b + of_nat (length x)) xs)" for c
  proof -
    have "xs \<noteq> []" using that by auto
    then have "x \<noteq> []" using Cons.prems(1) by auto
    moreover have "unat (b + of_nat (length x)) \<le> unat c"
      using starts_ge [OF that] Cons.prems(2) u by simp
    ultimately show ?thesis using u by (cases x) (auto simp: word_less_nat_alt)
  qed
  moreover have "sorted_wrt (<) (starts (b + of_nat (length x)) xs)"
    using Cons.prems u by (intro Cons.IH) (auto split: if_splits)
  ultimately show ?case by simp
qed simp

lemma openSegments_ok:
  assumes "list_all2 (sealed_inv d) ss xs" and "NewSegment d b m iv True = (d', s)"
  shows "\<exists>ss'. openSegments d m iv (map baseOffset ss @ [b]) = (d', ss' @ [s])
     \<and> list_all2 (sealed_inv d) ss' xs \<and> map baseOffset ss' = map baseOffset ss"
  using assms(1)
proof (induction rule: list_all2_induct)
  case Nil
  then show ?case using assms(2) by simp
next
  case (Cons s0 ss x xs)
  obtain s' where s': "NewSegment d (baseOffset s0) m iv False = (d, s')" "seg_inv d s' x" "baseOffset s' = baseOffset s0"
    using NewSegment_sealed [of "baseOffset s0" x d m iv] Cons.hyps(1) by (auto simp: sealed_inv_def seg_inv_def)
  then have "sealed_inv d s' x" using Cons.hyps(1) by (simp add: sealed_inv_def)
  then show ?case using Cons.IH s' by auto
qed

lemma reopened_room:
  assumes rf: "recs_from b rs" and io: "index_ok b rs idx n"
    and st: "\<forall>i j. i < j \<longrightarrow> j < n \<longrightarrow> fst (slot idx i) < fst (slot idx j)"
    and sp: "spaced iv b rs idx"
  shows "n * iv \<le> length (layout rs) + iv"
proof (cases n)
  case (Suc m)
  show ?thesis
  proof (cases "m = 0")
    case False
    have "fst (slot idx 0) < fst (slot idx m)" using st False Suc by simp
    then have nz: "slot idx m \<noteq> (0, 0)" by auto
    have "m < length idx div 16" using io Suc by (simp add: index_ok_def) linarith
    then obtain k where "m * iv \<le> pos_at rs (Suc k)" using sp nz by (auto simp: spaced_def)
    then have "m * iv \<le> length (layout rs)" using pos_at_le order_trans by blast
    then show ?thesis using Suc by simp
  qed (use Suc in simp)
qed simp

lemma reload_ok:
  assumes inv: "part_inv b0 p rss" and nm: "distinct names" "set names = baseOffset ` set (segments p)"
  shows "part_inv b0 (loadSegments (p_disk p) names file (p_maxSegSize p) (indexInterval p) cfg) rss
     \<and> nextOffset (loadSegments (p_disk p) names file (p_maxSegSize p) (indexInterval p) cfg) = nextOffset p"
proof -
  obtain ss a xs rs where seg: "segments p = ss @ [a]" and rss: "rss = xs @ [rs]" using part_inv_split [OF inv] by blast
  note i = inv [unfolded part_inv_snoc [OF seg rss]]
  have i2: "list_all2 (sealed_inv (p_disk p)) ss xs"
    and i3: "map baseOffset ss = starts b0 xs" and i4: "baseOffset a = b0 + of_nat (length (concat xs))"
    and i5: "nextOffset p = b0 + of_nat (length (concat (xs @ [rs])))"
    and i5': "unat b0 + length (concat (xs @ [rs])) < 2 ^ 64"
    and i6: "\<forall>b. b \<notin> insert (baseOffset a) (baseOffset ` set ss) \<longrightarrow> p_disk p b = no_files"
    and i7: "0 < indexInterval p" and i8: "p_maxSegSize p < 2 ^ 63" and i9: "act_inv p a rs"
    using i by - (elim conjE, assumption)+
  let ?b = "baseOffset a" and ?m = "p_maxSegSize p" and ?iv = "indexInterval p" and ?d = "p_disk p"
  have sb: "map baseOffset (segments p) = starts b0 (xs @ [rs])" using i3 i4 by (simp add: seg starts_append)
  have "sorted_wrt (<) (map baseOffset (segments p))"
    unfolding sb using sealed_nonempty [OF i2] i5' by (intro starts_sorted) auto
  then have "sorted (map baseOffset (segments p)) \<and> distinct (map baseOffset (segments p))"
    by (simp add: strict_sorted_iff)
  then have "sort names = map baseOffset (segments p)"
    using nm by (intro sorted_distinct_set_unique) auto
  then have srt: "sort names = map baseOffset ss @ [?b]" by (simp add: seg)
  have ai: "active_inv ?d a rs" and mi: "maxIdxSize a = max_index ?m ?iv" "maxSegSize a = ?m"
    and sp: "spaced (nat ?iv) ?b rs (f_index (?d ?b))" using i9 by (auto simp: act_inv_def)
  have rf: "recs_from ?b rs" using ai by (simp add: active_inv_def seg_inv_def)
  obtain post where post: "f_log (?d ?b) = layout rs @ post" "zeros post"
    using ai unfolding active_inv_def seg_inv_def by (metis append_take_drop_id)
  have fl: "length (f_log (?d ?b)) \<le> ?m" and fx: "length (f_index (?d ?b)) = max_index ?m ?iv"
    and so: "slots_ok ?b rs (f_index (?d ?b))" using ai mi by (auto simp: active_inv_def)
  have dv: "16 dvd length (f_index (?d ?b))" unfolding fx by (simp add: max_index_def)
  obtain d1 s post' where N: "NewSegment ?d ?b ?m ?iv True = (d1, s)" "baseOffset s = ?b"
     "maxSegSize s = ?m" "maxIdxSize s = max_index ?m ?iv" "dataLen s = ?m" "idxLen s = max_index ?m ?iv"
     "f_log (d1 ?b) = layout rs @ post'" "zeros post'" "length (layout rs @ post') = ?m"
     "length (f_index (d1 ?b)) = max_index ?m ?iv" "slots_ok ?b rs (f_index (d1 ?b))"
     "f_index (d1 ?b) = f_index (?d ?b)" and d1: "\<forall>b'. b' \<noteq> ?b \<longrightarrow> d1 b' = ?d b'"
    using NewSegment_reopen [of ?b rs ?d post ?m ?iv] rf post fl dv so fx by auto
  obtain ss' where O: "openSegments ?d ?m ?iv (map baseOffset ss @ [?b]) = (d1, ss' @ [s])"
     "list_all2 (sealed_inv ?d) ss' xs" "map baseOffset ss' = map baseOffset ss"
    using openSegments_ok [OF i2 N(1)] by blast
  obtain s' where R: "Recover d1 s = (?b + of_nat (length rs), d1, s')" "active_inv d1 s' rs"
     "baseOffset s' = ?b" "maxSegSize s' = ?m" "maxIdxSize s' = max_index ?m ?iv"
     and st: "\<forall>i j. i < j \<longrightarrow> j < indexSize s' div 16 \<longrightarrow> fst (slot (f_index (d1 ?b)) i) < fst (slot (f_index (d1 ?b)) j)"
    using Recover_ok [of s rs d1 post'] rf N by auto
  define p' where "p' = loadSegments ?d names file ?m ?iv cfg"
  have p': "p' = \<lparr>p_disk = d1, segments = ss' @ [s'], activeIdx = length ss', nextOffset = ?b + of_nat (length rs),
      bytesSinceIdx = 0, indexInterval = ?iv, p_maxSegSize = ?m, fencingEpoch = loadFencingEpoch file,
      epochFile = file, durability = cfg, pendingFsync = 0, stable = d1, fsyncFails = False, DiskOK = True\<rparr>"
    using O(1) R(1) by (simp add: p'_def loadSegments_def srt Let_def)
  have ix: "index_ok ?b rs (f_index (d1 ?b)) (indexSize s' div 16)" "logSize s' = length (layout rs)"
    using R(2,3) by (auto simp: active_inv_def seg_inv_def)
  have "(indexSize s' div 16) * nat ?iv \<le> length (layout rs) + nat ?iv"
    using reopened_room [OF rf ix(1) st] sp N(12) by simp
  then have an: "act_inv p' s' rs" using R sp N(12) ix by (simp add: act_inv_def p')
  have fr: "\<forall>b \<in> baseOffset ` set ss'. d1 b = ?d b"
  proof
    fix b assume "b \<in> baseOffset ` set ss'"
    then have "b \<in> baseOffset ` set ss" using O(3) by (metis list.set_map)
    then have "b \<noteq> ?b" using active_base_fresh [OF inv seg] by metis
    then show "d1 b = ?d b" using d1 by simp
  qed
  have sg: "segments p' = ss' @ [s']" by (simp add: p')
  have "part_inv b0 p' rss"
    unfolding part_inv_snoc [OF sg rss]
  proof (intro conjI)
    show "activeIdx p' = length ss'" by (simp add: p')
    show "list_all2 (sealed_inv (p_disk p')) ss' xs" using sealed_frame [OF O(2) fr] by (simp add: p')
    show "act_inv p' s' rs" by (rule an)
    show "map baseOffset ss' = starts b0 xs" using O(3) i3 by simp
    show "baseOffset s' = b0 + of_nat (length (concat xs))" using R(3) i4 by simp
    show "nextOffset p' = b0 + of_nat (length (concat (xs @ [rs])))" using i4 by (simp add: p' add.assoc)
    show "unat b0 + length (concat (xs @ [rs])) < 2 ^ 64" by (rule i5')
    have "baseOffset ` set ss' = baseOffset ` set ss" using O(3) by (metis list.set_map)
    then show "\<forall>b. b \<notin> insert (baseOffset s') (baseOffset ` set ss') \<longrightarrow> p_disk p' b = no_files"
      using i6 d1 R(3) by (simp add: p')
    show "0 < indexInterval p'" "p_maxSegSize p' < 2 ^ 63" using i7 i8 by (simp_all add: p')
  qed
  moreover have "nextOffset p' = nextOffset p" using i4 i5 by (simp add: p' add.assoc)
  ultimately show ?thesis by (simp add: p'_def)
qed

section \<open>Histories of appends and restarts\<close>

lemma applyDurability_fields [simp]:
  "p_disk (applyDurabilityAfterLeaderAppend p) = p_disk p"
  "segments (applyDurabilityAfterLeaderAppend p) = segments p"
  "activeIdx (applyDurabilityAfterLeaderAppend p) = activeIdx p"
  "bytesSinceIdx (applyDurabilityAfterLeaderAppend p) = bytesSinceIdx p"
  "nextOffset (applyDurabilityAfterLeaderAppend p) = nextOffset p"
  "p_maxSegSize (applyDurabilityAfterLeaderAppend p) = p_maxSegSize p"
  "indexInterval (applyDurabilityAfterLeaderAppend p) = indexInterval p"
  "fencingEpoch (applyDurabilityAfterLeaderAppend p) = fencingEpoch p"
  "epochFile (applyDurabilityAfterLeaderAppend p) = epochFile p"
  by (auto simp: applyDurabilityAfterLeaderAppend_def Let_def split: durability_mode.splits)

lemma applyDurability_inv:
  "part_inv b0 p rss \<Longrightarrow> part_inv b0 (applyDurabilityAfterLeaderAppend p) rss"
  by (erule part_inv_cong) simp_all

lemma Append_ok:
  assumes "part_inv b0 p rss" and "12 + length payload \<le> p_maxSegSize p"
    and "8 + length payload < 2 ^ 32" and "unat b0 + length (concat rss) + 1 < 2 ^ 64"
  shows "\<exists>p' rss'. Append p payload = (Inr (nextOffset p), p')
     \<and> part_inv b0 p' rss' \<and> concat rss' = concat rss @ [(nextOffset p, payload)]
     \<and> p_maxSegSize p' = p_maxSegSize p"
proof -
  obtain p' rss' where a: "appendPayloadLockedInner p (nextOffset p) payload False 0 = (Inr (nextOffset p), p')"
      "part_inv b0 p' rss'" "concat rss' = concat rss @ [(nextOffset p, payload)]" "p_maxSegSize p' = p_maxSegSize p"
    using append_ok [OF assms, of 0] by blast
  then show ?thesis using applyDurability_inv [OF a(2)]
    by (intro exI [of _ "applyDurabilityAfterLeaderAppend p'"] exI [of _ rss']) (simp add: Append_def)
qed

text \<open>What a store of messages promises a client that appends to it and restarts it:
  \<open>holds k s ms\<close> says that state \<open>s\<close> stores \<open>ms\<close> and has room for \<open>k\<close> more.\<close>

fun appended :: "'x option list \<Rightarrow> 'x list" where
  "appended [] = []"
| "appended (None # ops) = appended ops"
| "appended (Some x # ops) = x # appended ops"

locale durable_log =
  fixes holds :: "nat \<Rightarrow> 's \<Rightarrow> ('o \<times> 'x) list \<Rightarrow> bool"
    and next_off :: "'s \<Rightarrow> 'o"
    and ok :: "'x \<Rightarrow> bool"
    and append :: "'s \<Rightarrow> 'x \<Rightarrow> ('e + 'o) \<times> 's"
    and reopen :: "'s \<Rightarrow> 's"
  assumes append_holds: "holds (Suc k) s ms \<Longrightarrow> ok x
      \<Longrightarrow> \<exists>s'. append s x = (Inr (next_off s), s') \<and> holds k s' (ms @ [(next_off s, x)])"
    and reopen_holds: "holds k s ms \<Longrightarrow> holds k (reopen s) ms"
    and weaken: "holds (Suc k) s ms \<Longrightarrow> holds k s ms"
begin

text \<open>An operation of a history is an append or, as \<open>None\<close>, a restart.\<close>

lemma history:
  assumes "holds (length ops) s ms" and "\<forall>x. Some x \<in> set ops \<longrightarrow> ok x"
  shows "\<exists>ms'. holds 0 (fold (\<lambda>op s. case op of Some x \<Rightarrow> snd (append s x) | None \<Rightarrow> reopen s) ops s) (ms @ ms')
           \<and> map snd ms' = appended ops"
  using assms
proof (induction ops arbitrary: s ms)
  case Nil
  then show ?case by (intro exI [of _ "[]"]) simp
next
  case (Cons op ops)
  show ?case
  proof (cases op)
    case None
    then have "holds (length ops) (reopen s) ms" using Cons.prems reopen_holds weaken by simp
    then show ?thesis using Cons.IH [of "reopen s" ms] Cons.prems None by auto
  next
    case (Some x)
    then obtain s' where s': "append s x = (Inr (next_off s), s')" "holds (length ops) s' (ms @ [(next_off s, x)])"
      using append_holds [of "length ops" s ms x] Cons.prems by auto
    then obtain ms' where m: "holds 0 (fold (\<lambda>op s. case op of Some x \<Rightarrow> snd (append s x) | None \<Rightarrow> reopen s) ops s')
        ((ms @ [(next_off s, x)]) @ ms')" "map snd ms' = appended ops"
      using Cons.IH [OF s'(2)] Cons.prems by auto
    then show ?thesis using Some s'(1)
      by (intro exI [of _ "(next_off s, x) # ms'"]) simp
  qed
qed

end

definition reopen_log :: "durability_config \<Rightarrow> partition_log \<Rightarrow> partition_log" where
  "reopen_log cfg p =
     NewPartitionLogWithDurability (p_disk p) (map baseOffset (segments p)) (epochFile p)
       (p_maxSegSize p) (indexInterval p) cfg"

definition holds_from :: "u64 \<Rightarrow> nat \<Rightarrow> nat \<Rightarrow> partition_log \<Rightarrow> rec list \<Rightarrow> bool" where
  "holds_from b0 maxSeg k p ms \<longleftrightarrow>
     (\<exists>rss. part_inv b0 p rss \<and> concat rss = ms) \<and> unat b0 + length ms + k < 2 ^ 64 \<and> p_maxSegSize p = maxSeg"

lemma distinct_bases: "part_inv b0 p rss \<Longrightarrow> distinct (map baseOffset (segments p))"
proof -
  assume inv: "part_inv b0 p rss"
  obtain ss a xs rs where seg: "segments p = ss @ [a]" and rss: "rss = xs @ [rs]" using part_inv_split [OF inv] by blast
  note i = inv [unfolded part_inv_snoc [OF seg rss]]
  have "sorted_wrt (<) (starts b0 (xs @ [rs]))" using i sealed_nonempty by (intro starts_sorted) auto
  then show ?thesis using inv rss by (simp add: part_inv_def strict_sorted_iff)
qed

lemma loadSegments_maxSeg: "p_maxSegSize (loadSegments d names file m iv cfg) = m"
  by (simp add: loadSegments_def Let_def split: prod.splits)

lemma reopen_holds_from: "holds_from b0 m k p ms \<Longrightarrow> holds_from b0 m k (reopen_log cfg p) ms"
  using reload_ok [of b0 p _ "map baseOffset (segments p)"] distinct_bases
  by (fastforce simp: holds_from_def reopen_log_def NewPartitionLogWithDurability_def loadSegments_maxSeg)

interpretation plog: durable_log
  "holds_from b0 m" nextOffset "\<lambda>x. 12 + length x \<le> m \<and> 8 + length x < 2 ^ 32" Append "reopen_log cfg"
proof (unfold_locales, goal_cases)
  case (1 k s ms x)
  then obtain rss where rss: "part_inv b0 s rss" "concat rss = ms" "unat b0 + length ms + Suc k < 2 ^ 64" "p_maxSegSize s = m"
    by (auto simp: holds_from_def)
  then obtain p' rss' where "Append s x = (Inr (nextOffset s), p')" "part_inv b0 p' rss'"
      "concat rss' = ms @ [(nextOffset s, x)]" "p_maxSegSize p' = m"
    using Append_ok [OF rss(1), of x] 1(2) by auto
  then show ?case using rss(3) by (auto simp: holds_from_def)
next
  case (2 k s ms)
  then show ?case by (rule reopen_holds_from)
next
  case (3 k s ms)
  then show ?case by (auto simp: holds_from_def)
qed

lemma fresh_log_holds:
  assumes "0 < iv" and "maxSeg < 2 ^ 63"
  shows "part_inv 0 (NewPartitionLogWithDurability (\<lambda>_. no_files) [] None maxSeg iv cfg) [[]]"
proof -
  obtain d s where N: "NewSegment (\<lambda>_. no_files) 0 maxSeg iv True = (d, s)" "active_inv d s []"
     "baseOffset s = 0" "maxSegSize s = maxSeg" "maxIdxSize s = max_index maxSeg iv" "indexSize s = 0"
     "f_index (d 0) = replicate (max_index maxSeg iv) 0" "\<forall>b'. b' \<noteq> 0 \<longrightarrow> d b' = no_files"
    using NewSegment_fresh [of "\<lambda>_. no_files" 0 maxSeg iv] by auto
  obtain s' where R: "Recover d s = (0, d, s')" "active_inv d s' []" "baseOffset s' = 0" "maxSegSize s' = maxSeg"
     "maxIdxSize s' = max_index maxSeg iv"
     and st: "\<forall>i j. i < j \<longrightarrow> j < indexSize s' div 16 \<longrightarrow> fst (slot (f_index (d 0)) i) < fst (slot (f_index (d 0)) j)"
    using Recover_ok [of s "[]" d "f_log (d 0)"] N(2,3,4,5) by (auto simp: active_inv_def seg_inv_def)
  have "(indexSize s' div 16) * nat iv \<le> length (layout []) + nat iv"
    using R(2,3) st N(7) spaced_zero
    by (intro reopened_room [of 0 "[]" "f_index (d 0)"]) (auto simp: active_inv_def seg_inv_def)
  moreover have "logSize s' = 0" using R(2) by (simp add: active_inv_def seg_inv_def)
  ultimately show ?thesis
    using assms R N(1,7,8) spaced_zero
    by (simp add: part_inv_def NewPartitionLogWithDurability_def loadSegments_def Let_def act_inv_def)
qed

lemma offsets_consecutive:
  assumes "list_all2 (seg_inv d) ss rss" and "map baseOffset ss = starts b rss"
    and "k < length (concat rss)"
  shows "fst (concat rss ! k) = b + of_nat k"
  using assms
proof (induction arbitrary: b k rule: list_all2_induct)
  case (Cons s ss x rss)
  show ?case
  proof (cases "k < length x")
    case True
    then show ?thesis using Cons.hyps Cons.prems by (simp add: nth_append seg_inv_def recs_from_def)
  next
    case False
    have "fst (concat rss ! (k - length x)) = (b + of_nat (length x)) + of_nat (k - length x)"
      using Cons.prems False by (intro Cons.IH) auto
    then show ?thesis using False by (simp add: nth_append of_nat_diff)
  qed
qed simp

lemma part_inv_offsets:
  assumes "part_inv b0 p rss"
  shows "map fst (concat rss) = map (\<lambda>k. b0 + of_nat k) [0..<length (concat rss)]"
  using offsets_consecutive [OF part_segs [OF assms]] assms
  by (intro nth_equalityI) (auto simp: part_inv_def)

lemma fresh_history:
  assumes "0 < iv" and "maxSeg < 2 ^ 63" and "length ops < 2 ^ 64"
    and "\<forall>x. Some x \<in> set ops \<longrightarrow> 12 + length x \<le> maxSeg \<and> 8 + length x < 2 ^ 32"
  shows "\<exists>rss. part_inv 0 (fold (\<lambda>op p. case op of Some x \<Rightarrow> snd (Append p x) | None \<Rightarrow> reopen_log cfg p) ops
             (NewPartitionLogWithDurability (\<lambda>_. no_files) [] None maxSeg iv cfg)) rss
        \<and> concat rss = zip (map of_nat [0..<length (appended ops)]) (appended ops)"
proof -
  let ?p0 = "NewPartitionLogWithDurability (\<lambda>_. no_files) [] None maxSeg iv cfg"
  have "holds_from 0 maxSeg (length ops) ?p0 []"
    using fresh_log_holds [OF assms(1,2), of cfg] assms(3)
    by (auto simp: holds_from_def NewPartitionLogWithDurability_def loadSegments_maxSeg)
  then obtain ms where m: "holds_from 0 maxSeg 0
       (fold (\<lambda>op p. case op of Some x \<Rightarrow> snd (Append p x) | None \<Rightarrow> reopen_log cfg p) ops ?p0) ms"
     "map snd ms = appended ops"
    using plog.history [of 0 maxSeg ops ?p0 "[]" cfg] assms(4) by auto
  obtain rss where r: "part_inv 0
       (fold (\<lambda>op p. case op of Some x \<Rightarrow> snd (Append p x) | None \<Rightarrow> reopen_log cfg p) ops ?p0) rss"
     "concat rss = ms" using m(1) by (auto simp: holds_from_def)
  have "map fst ms = map of_nat [0..<length ms]" using part_inv_offsets [OF r(1)] by (simp add: r(2))
  moreover have "length ms = length (appended ops)" using m(2) by (metis length_map)
  ultimately have "ms = zip (map of_nat [0..<length (appended ops)]) (appended ops)"
    using m(2) by (metis zip_map_fst_snd)
  then show ?thesis using r by auto
qed

section \<open>Properties of the partition log\<close>

text \<open>C3. What is appended is what is read, across segment rolls and restarts: from an empty
  directory, after any sequence of appends and reopenings, a read at an offset returns the
  encoded records from that offset on, at least one, all within the byte limit unless the
  first alone exceeds it, and a read at the end returns end of file. The records are the
  appended payloads in order under consecutive offsets from 0.\<close>

theorem log_read_after_history:
  fixes cfg :: durability_config
  assumes "0 < iv" and "maxSeg < 2 ^ 63" and "length ops < 2 ^ 64"
    and "\<forall>x. Some x \<in> set ops \<longrightarrow> 12 + length x \<le> maxSeg \<and> unat maxBytes + 12 + length x < 2 ^ 32"
  defines "msgs \<equiv> zip (map of_nat [0..<length (appended ops)]) (appended ops)"
  defines "p \<equiv> fold (\<lambda>op p. case op of Some x \<Rightarrow> snd (Append p x) | None \<Rightarrow> reopen_log cfg p) ops
                  (NewPartitionLogWithDurability (\<lambda>_. no_files) [] None maxSeg iv cfg)"
  shows "if length msgs \<le> unat start then ReadRawMessages p start maxBytes = Inl EOF
         else \<exists>run rest. ReadRawMessages p start maxBytes = Inr (layout run) \<and> run \<noteq> []
                \<and> run @ rest = drop (unat start) msgs
                \<and> (length (layout run) \<le> unat maxBytes \<or> length run = 1)"
proof -
  have "\<forall>x. Some x \<in> set ops \<longrightarrow> 12 + length x \<le> maxSeg \<and> 8 + length x < 2 ^ 32"
  proof (intro allI impI)
    fix x assume "Some x \<in> set ops"
    then have "12 + length x \<le> maxSeg \<and> unat maxBytes + 12 + length x < 2 ^ 32" using assms(4) by blast
    then show "12 + length x \<le> maxSeg \<and> 8 + length x < 2 ^ 32" by linarith
  qed
  then obtain rss where r: "part_inv 0 p rss" "concat rss = msgs"
    using fresh_history [OF assms(1-3), of cfg] unfolding p_def msgs_def by blast
  have "set (appended ops) = {x. Some x \<in> set ops}"
    by (induction ops rule: appended.induct) auto
  then have "\<forall>m \<in> set (concat rss). unat maxBytes + rec_len m < 2 ^ 32"
    using assms(4) unfolding r(2) msgs_def by (force dest: set_zip_rightD)
  moreover have "nextOffset p \<le> start \<longleftrightarrow> length msgs \<le> unat start"
    using r by (auto simp: part_inv_def word_le_nat_alt unat_of_nat)
  ultimately show ?thesis
    using read_spec [OF r(1), of maxBytes start] by (cases "length msgs \<le> unat start") (simp_all only: r(2) unat_0 diff_zero if_True if_False, simp_all)
qed

text \<open>C24. Replication is idempotent and leaves no gap: a record below the next offset is
  acknowledged without effect, one above it is refused, and the record at the next offset
  is appended.\<close>

theorem AppendReplicatedAt_spec:
  assumes "part_inv b0 p rss" and "12 + length x \<le> p_maxSegSize p" and "8 + length x < 2 ^ 32"
    and "unat b0 + length (concat rss) + 1 < 2 ^ 64"
  shows "if off < nextOffset p then AppendReplicatedAt p off x = (Inr off, p)
         else if nextOffset p < off then AppendReplicatedAt p off x = (Inl ReplicationGap, p)
         else \<exists>p' rss'. AppendReplicatedAt p off x = (Inr off, p') \<and> part_inv b0 p' rss'
                \<and> concat rss' = concat rss @ [(off, x)] \<and> nextOffset p' = off + 1"
proof -
  obtain p' rss' where a: "appendPayloadLockedInner p (nextOffset p) x False 0 = (Inr (nextOffset p), p')"
      "part_inv b0 p' rss'" "concat rss' = concat rss @ [(nextOffset p, x)]"
    using append_ok [OF assms, of 0] by blast
  have "nextOffset p' = nextOffset p + 1"
    using a(2,3) assms(1) by (simp add: part_inv_def add.assoc)
  then show ?thesis using a by (auto simp: AppendReplicatedAt_def not_less)
qed

lemma fenced_append_eq:
  "appendPayloadLockedInner p off x True epoch =
     appendPayloadLockedInner (if fencingEpoch p < epoch then persistFencingEpoch epoch (p\<lparr>fencingEpoch := epoch\<rparr>) else p)
       off x False 0"
  by (simp add: appendPayloadLockedInner_def Let_def)

lemma loadFencingEpoch_be64: "loadFencingEpoch (Some (be64 e)) = e"
  by (simp add: loadFencingEpoch_def)

lemma reopen_epoch: "fencingEpoch (reopen_log cfg p) = loadFencingEpoch (epochFile p)"
  by (simp add: reopen_log_def NewPartitionLogWithDurability_def loadSegments_def Let_def split: prod.splits)


text \<open>C31. A crash between the first two stores of a record leaves a log that recovers with
  the wrong next offset: the record's length is on disk and its offset is not, recovery takes
  the bytes for a record of offset 0, and the partition continues at offset 1 whatever it
  held.\<close>

theorem torn_record_resets_next_offset:
  assumes "active_inv d s rs" and "logSize s + (12 + length p) \<le> maxSegSize s" and "8 + length p < 2 ^ 32"
  shows "\<exists>d'' s'. Recover (d(baseOffset s := (d (baseOffset s))
               \<lparr>f_log := store (f_log (d (baseOffset s))) (hd (write_stores (logSize s) off p))\<rparr>)) s
             = (1, d'', s') \<and> logSize s' = logSize s + (12 + length p)"
  by (rule torn_write_recovery [OF assms refl])


lemma append_stable:
  "stable (snd (appendPayloadLockedInner p off x tr e)) =
     (if p_maxSegSize p < logSize (activeSeg p) + (12 + length x) then stable (syncLocked p) else stable p)"
proof -
  define p1 where "p1 = (if tr \<and> fencingEpoch p < e then persistFencingEpoch e (p\<lparr>fencingEpoch := e\<rparr>) else p)"
  define p2 where "p2 = (if p_maxSegSize p1 < logSize (activeSeg p1) + (12 + length x) then rollLockedInner p1 else p1)"
  have roll: "stable (rollLockedInner q) = stable (syncLocked q)" for q
    by (simp add: rollLockedInner_def Let_def split: prod.splits)
  have s1: "stable (syncLocked p1) = stable (syncLocked p)" "stable p1 = stable p"
    "activeSeg p1 = activeSeg p" "p_maxSegSize p1 = p_maxSegSize p"
    by (auto simp: p1_def persistFencingEpoch_def syncLocked_def activeSeg_def Let_def)
  obtain r d s where W: "Write (p_disk p2) (activeSeg p2) off x = (r, d, s)" by (metis prod_cases3)
  have "stable (snd (appendPayloadLockedInner p off x tr e)) = stable p2"
  proof (cases r)
    case (Inl er)
    then show ?thesis using W unfolding appendPayloadLockedInner_def Let_def p1_def [symmetric] p2_def [symmetric]
      by (simp add: set_active_def)
  next
    case (Inr pos)
    define p3 where "p3 = (set_active (p2\<lparr>p_disk := d\<rparr>) s)\<lparr>nextOffset := off + 1, bytesSinceIdx := bytesSinceIdx p2 + (12 + length x)\<rparr>"
    obtain o' d' s' where I: "WriteIndexEntry (p_disk p3) (activeSeg p3) off pos = (o', d', s')" by (metis prod_cases3)
    show ?thesis using W Inr I
      unfolding appendPayloadLockedInner_def Let_def p1_def [symmetric] p2_def [symmetric]
      by (cases o') (simp_all add: p3_def set_active_def)
  qed
  then show ?thesis using s1 roll by (simp add: p2_def)
qed

lemma append_stable_failing:
  "fsyncFails p \<Longrightarrow> stable (snd (appendPayloadLockedInner p off x tr e)) = stable p"
  by (simp add: append_stable syncLocked_def)

text \<open>C32. In sync mode an append whose \<open>fsync\<close> fails is acknowledged all the same: the
  caller gets the offset and no error, nothing new is on stable storage, and the only trace is
  the flag \<open>DiskOK\<close>.\<close>

theorem sync_append_acks_without_fsync:
  assumes "part_inv b0 p rss" and "12 + length x \<le> p_maxSegSize p" and "8 + length x < 2 ^ 32"
    and "unat b0 + length (concat rss) + 1 < 2 ^ 64"
    and "Mode (durability p) = DurabilitySync" and "fsyncFails p"
  shows "\<exists>p'. Append p x = (Inr (nextOffset p), p') \<and> stable p' = stable p \<and> \<not> DiskOK p'"
proof -
  obtain p' where a: "appendPayloadLockedInner p (nextOffset p) x False 0 = (Inr (nextOffset p), p')"
      "durability p' = durability p" "fsyncFails p' = fsyncFails p"
    using append_ok [OF assms(1-4), of 0] by blast
  have "stable p' = stable p" using append_stable_failing [OF assms(6), of "nextOffset p" x False 0] a(1) by simp
  then show ?thesis using a assms(5,6)
    by (simp add: Append_def applyDurabilityAfterLeaderAppend_def syncLocked_def)
qed

text \<open>C20. In sync mode, when \<open>fsync\<close> works, the segment that took the append is on stable
  storage, record included, before the offset is returned.\<close>

theorem sync_append_is_durable:
  assumes "part_inv b0 p rss" and "12 + length x \<le> p_maxSegSize p" and "8 + length x < 2 ^ 32"
    and "unat b0 + length (concat rss) + 1 < 2 ^ 64"
    and "Mode (durability p) = DurabilitySync" and "\<not> fsyncFails p"
  shows "\<exists>p' rss' b. Append p x = (Inr (nextOffset p), p') \<and> part_inv b0 p' rss'
           \<and> b = baseOffset (activeSeg p') \<and> last (last rss') = (nextOffset p, x)
           \<and> take (length (layout (last rss'))) (f_log (stable p' b)) = layout (last rss')"
proof -
  obtain p1 rss' where a: "appendPayloadLockedInner p (nextOffset p) x False 0 = (Inr (nextOffset p), p1)"
      "part_inv b0 p1 rss'" "concat rss' = concat rss @ [(nextOffset p, x)]"
      "durability p1 = durability p" "fsyncFails p1 = fsyncFails p" "last rss' \<noteq> []"
    using append_ok [OF assms(1-4), of 0] by blast
  let ?p = "syncLocked p1"
  have A: "Append p x = (Inr (nextOffset p), ?p)"
    using a assms(5) by (simp add: Append_def applyDurabilityAfterLeaderAppend_def)
  have inv: "part_inv b0 ?p rss'" by (rule part_inv_cong [OF a(2)]) simp_all
  obtain ss s xs rs where seg: "segments ?p = ss @ [s]" and rss: "rss' = xs @ [rs]" using part_inv_split [OF inv] by blast
  note i = inv [unfolded part_inv_snoc [OF seg rss]]
  have "activeSeg ?p = s" using i seg by (simp add: activeSeg_def nth_append del: syncLocked_fields)
  then have act: "activeSeg p1 = s" by simp
  have "seg_inv (p_disk ?p) s rs" using i by (simp add: act_inv_def active_inv_def)
  moreover have "stable ?p (baseOffset s) = p_disk ?p (baseOffset s)"
    using a(5) assms(6) act by (simp add: syncLocked_def Let_def)
  ultimately have "take (length (layout rs)) (f_log (stable ?p (baseOffset s))) = layout rs"
    by (auto simp: seg_inv_def)
  moreover have "last rs = (nextOffset p, x)" using a(3,6) rss by (metis last_appendR last_snoc concat_append concat.simps append_Nil2)
  ultimately show ?thesis using A inv act rss by (intro exI [of _ ?p] exI [of _ rss'] exI [of _ "baseOffset s"]) simp
qed

section \<open>Retention\<close>

lemma selectRetentionVictims_sound:
  assumes "m \<in> set (selectRetentionVictims metas pol safe enforce now totalBytes)"
  shows "m \<in> set metas \<and> (enforce \<longrightarrow> m_high m < safe)"
  using assms by (auto simp: selectRetentionVictims_def Let_def not_le)

lemma metas_not_active:
  assumes "m \<in> set (fst (buildSegmentMetas p now modTime))"
  shows "\<exists>i < length (segments p). i \<noteq> activeIdx p \<and> m_base m = baseOffset (segments p ! i)
     \<and> m_high m = segmentHighOffset (baseOffset (segments p ! i))
         (if i + 1 < length (segments p) then baseOffset (segments p ! (i + 1)) else nextOffset p) (nextOffset p)"
  using assms by (auto simp: buildSegmentMetas_def Let_def)

lemma foldl_remove_other:
  "b \<notin> baseOffset ` set ss \<Longrightarrow> foldl removeSegmentFiles d ss b = d b"
  by (induction ss arbitrary: d) (auto simp: removeSegmentFiles_def)

lemma first_index_Some:
  "x \<in> set xs \<Longrightarrow> P x \<Longrightarrow> \<exists>i. first_index P xs = Some i \<and> i < length xs \<and> P (xs ! i)"
  by (induction xs) auto

lemma starts_nth: "i < length rss \<Longrightarrow> starts b rss ! i = b + of_nat (length (concat (take i rss)))"
proof (induction rss arbitrary: b i)
  case (Cons x rss)
  then show ?case by (cases i) (auto simp: add.assoc)
qed simp

text \<open>A sealed segment's high offset is its last record's.\<close>

lemma sealed_high:
  assumes inv: "part_inv b0 p rss" and i: "i + 1 < length (segments p)" and r: "r \<in> set (rss ! i)"
  shows "fst r \<le> segmentHighOffset (baseOffset (segments p ! i)) (baseOffset (segments p ! (i + 1))) (nextOffset p)"
proof -
  have mb: "map baseOffset (segments p) = starts b0 rss" and bd: "unat b0 + length (concat rss) < 2 ^ 64"
    using inv by (auto simp: part_inv_def)
  have len: "length rss = length (segments p)" using mb by (metis length_map length_starts)
  let ?c = "length (concat (take i rss))" and ?x = "rss ! i"
  have tk: "concat (take (Suc i) rss) = concat (take i rss) @ ?x"
    using i len by (simp add: take_Suc_conv_app_nth)
  have le: "?c + length ?x \<le> length (concat rss)"
  proof -
    have "concat rss = concat (take (Suc i) rss) @ concat (drop (Suc i) rss)"
      by (metis append_take_drop_id concat_append)
    then show ?thesis by (simp add: tk)
  qed
  have b: "baseOffset (segments p ! i) = b0 + of_nat ?c" "baseOffset (segments p ! (i + 1)) = b0 + of_nat (?c + length ?x)"
    using mb starts_nth [of i rss b0] starts_nth [of "i + 1" rss b0] i len tk by (metis nth_map add_lessD1, metis Suc_eq_plus1 length_append nth_map)
  have u: "unat (b0 + of_nat k) = unat b0 + k" if "k \<le> length (concat rss)" for k
    using that bd by (simp add: unat_word_ariths unat_of_nat)
  obtain k where k: "k < length ?x" "r = ?x ! k" using r by (auto simp: in_set_conv_nth)
  have "seg_inv (p_disk p) (segments p ! i) ?x"
    using part_segs [OF inv] i by (simp add: list_all2_conv_all_nth)
  then have "fst r = b0 + of_nat (?c + k)"
    using k b(1) by (simp add: seg_inv_def recs_from_def add.assoc)
  then have fr: "unat (fst r) = unat b0 + (?c + k)" using u [of "?c + k"] le k by simp
  have nb: "unat (baseOffset (segments p ! (i + 1))) = unat b0 + (?c + length ?x)" unfolding b(2) by (rule u [OF le])
  then have "unat (baseOffset (segments p ! (i + 1)) - 1) = unat b0 + (?c + length ?x) - 1"
    using k by (subst unat_sub) (auto simp: word_le_nat_alt)
  moreover have "baseOffset (segments p ! i) < baseOffset (segments p ! (i + 1))"
    using u [of ?c] le b(1) nb k(1) by (auto simp: word_less_nat_alt)
  moreover have "baseOffset (segments p ! (i + 1)) \<noteq> 0" using nb k by (metis add_is_0 not_less_zero unat_0)
  ultimately show ?thesis using fr k by (simp add: segmentHighOffset_def word_le_nat_alt)
qed



section \<open>An oversized record\<close>

lemma Truncate_0 [simp]: "Truncate 0 f = []"
  by (simp add: Truncate_def) 

lemma oversized_roll:
  assumes inv: "part_inv b0 p (xs @ [[]])" and seg: "segments p = ss @ [a]"
  shows "\<exists>ro nw. segments (rollLockedInner p) = ss @ [ro, nw] \<and> activeIdx (rollLockedInner p) = length ss + 1
     \<and> baseOffset ro = baseOffset a \<and> baseOffset nw = baseOffset a \<and> maxSegSize nw = p_maxSegSize p"
proof -
  note i = inv [unfolded part_inv_snoc [OF seg refl]]
  have act: "activeSeg p = a" using i seg by (simp add: activeSeg_def nth_append)
  have nx: "nextOffset p = baseOffset a" using i by simp
  show ?thesis
    by (simp add: rollLockedInner_def Let_def act seg nx NewSegment_def list_update_append)
qed

lemma selectBySize_mono: "set sel \<subseteq> set (selectBySize mb ms rem sel)"
  by (induction mb ms rem sel rule: selectBySize.induct) auto

lemma aged_selected:
  assumes "m \<in> set metas" and "m_mod m < now - MaxAge pol" and "0 < MaxAge pol"
  shows "m \<in> set (selectRetentionVictims metas pol safe False now totalB)"
proof -
  let ?aged = "map m_base (filter (\<lambda>m. m_mod m < now - MaxAge pol) metas)"
  have "m_base m \<in> set ?aged" using assms(1,2) by (auto intro: imageI)
  then show ?thesis using assms subsetD [OF selectBySize_mono, of _ ?aged]
    by (simp add: selectRetentionVictims_def Let_def del: set_map)
qed

lemma foldl_remove_gone:
  "b \<in> baseOffset ` set ds \<or> d b = no_files \<Longrightarrow> foldl removeSegmentFiles d ds b = no_files"
  by (induction ds arbitrary: d) (auto simp: removeSegmentFiles_def)

lemma retention_removes_namesake:
  assumes seg: "segments p = ss @ [ro, nw]" and ix: "activeIdx p = length ss + 1" and "baseOffset ro = b"
    and pol: "0 < MaxAge pol" "SafetyMessages pol = 0" "FloorOffset pol = 0" and old: "modTime b < now - MaxAge pol"
  shows "p_disk (snd (ApplyRetention pol now modTime p)) b = no_files"
proof -
  obtain metas totalB age where B: "buildSegmentMetas p now modTime = (metas, totalB, age)" by (metis prod_cases3)
  define victims where "victims = selectRetentionVictims metas pol 0 False now totalB"
  have "length ss \<in> set (filter (\<lambda>i. i \<noteq> activeIdx p) [0..<length (segments p)])" using seg ix by simp
  then have "\<exists>m \<in> set metas. m_base m = b \<and> m_mod m = modTime b"
    using B seg assms(3) by (force simp: buildSegmentMetas_def Let_def nth_append)
  then obtain m where m: "m \<in> set metas" "m_base m = b" "m_mod m = modTime b" by blast
  have mv: "m \<in> set victims" unfolding victims_def by (rule aged_selected) (use m pol old in simp_all)
  have sf: "retentionSafeOffset (nextOffset p) pol = (0, False)" using pol by (simp add: retentionSafeOffset_def)
  have en: "retention_Enabled pol" using pol by (simp add: retention_Enabled_def)
  have "b \<in> baseOffset ` set (filter (\<lambda>s. baseOffset s \<in> m_base ` set victims) (segments p))"
    using mv m(2) seg assms(3) by force
  then have "foldl removeSegmentFiles (p_disk p)
      (filter (\<lambda>s. baseOffset s \<in> m_base ` set victims) (segments p)) b = no_files"
    by (intro foldl_remove_gone disjI1)
  moreover have "victims \<noteq> []" "segments p \<noteq> []" using mv seg by auto
  ultimately show ?thesis using en
    by (simp add: ApplyRetention_def Let_def B sf victims_def [symmetric])
qed


section \<open>Witnesses\<close>

text \<open>An empty partition with 64-byte segments, in a given durability mode.\<close>

definition small_log :: "durability_mode \<Rightarrow> partition_log" where
  "small_log m = NewPartitionLogWithDurability (\<lambda>_. no_files) [] None 64 16
                   \<lparr>Mode = m, FlushInterval = 1, GroupCommitRecords = 1\<rparr>"

lemma small_log_inv: "part_inv 0 (small_log m) [[]]"
  unfolding small_log_def by (rule fresh_log_holds) simp_all

lemma small_log_fields:
  "p_maxSegSize (small_log m) = 64" "fencingEpoch (small_log m) = 0" "epochFile (small_log m) = None"
  "Mode (durability (small_log m)) = m" "fsyncFails (small_log m) = False"
  by (simp_all add: small_log_def NewPartitionLogWithDurability_def loadSegments_def Let_def
      loadFencingEpoch_def split: prod.splits)

lemma small_log_next: "nextOffset (small_log m) = 0"
  using small_log_inv [of m] by (simp add: part_inv_def)

theorem log_read_after_history_witness:
  "\<exists>run rest. ReadRawMessages
       (fold (\<lambda>op p. case op of Some x \<Rightarrow> snd (Append p x) | None \<Rightarrow> reopen_log DefaultDurabilityConfig p)
          [Some [1, 2], None, Some [3]]
          (NewPartitionLogWithDurability (\<lambda>_. no_files) [] None 64 16 DefaultDurabilityConfig)) 1 100
       = Inr (layout run) \<and> run \<noteq> [] \<and> run @ rest = [(1, [3])]
     \<and> (length (layout run) \<le> 100 \<or> length run = 1)"
proof -
  have up: "[0..<2] = [0, 1 :: nat]" by code_simp
  show ?thesis
    using log_read_after_history [of 16 64 "[Some [1, 2], None, Some [3]]" 100 1 DefaultDurabilityConfig]
    by (simp add: up numeral_2_eq_2 [symmetric])
qed

theorem AppendReplicatedAt_spec_witness:
  "AppendReplicatedAt (small_log DurabilityAsync) 5 [7] = (Inl ReplicationGap, small_log DurabilityAsync)"
  using AppendReplicatedAt_spec [OF small_log_inv, of "[7]" DurabilityAsync 5]
  by (simp add: small_log_fields small_log_next)


theorem torn_record_resets_next_offset_witness:
  "\<exists>d s d'' s'. active_inv d s [] \<and> baseOffset s = 900
     \<and> Recover (d(baseOffset s := (d (baseOffset s))
          \<lparr>f_log := store (f_log (d (baseOffset s))) (hd (write_stores (logSize s) 900 [7]))\<rparr>)) s = (1, d'', s')"
proof -
  obtain d s where N: "active_inv d s []" "baseOffset s = 900" "maxSegSize s = 64"
    using NewSegment_fresh [of "\<lambda>_. no_files" 900 64 16] by auto
  have "logSize s = 0" using N(1) by (simp add: active_inv_def seg_inv_def)
  then have "logSize s + (12 + length [7 :: byte]) \<le> maxSegSize s" "8 + length [7 :: byte] < 2 ^ 32"
    using N(3) by simp_all
  then show ?thesis using torn_record_resets_next_offset [OF N(1), of "[7]" 900] N(1,2) by blast
qed

theorem sync_append_acks_without_fsync_witness:
  "\<exists>p'. Append ((small_log DurabilitySync)\<lparr>fsyncFails := True\<rparr>) [7] = (Inr 0, p')
     \<and> stable p' = stable (small_log DurabilitySync) \<and> \<not> DiskOK p'"
proof -
  let ?p = "(small_log DurabilitySync)\<lparr>fsyncFails := True\<rparr>"
  have "part_inv 0 ?p [[]]" by (rule part_inv_cong [OF small_log_inv [of DurabilitySync]]) simp_all
  then show ?thesis using sync_append_acks_without_fsync [of 0 ?p "[[]]" "[7]"]
    by (simp add: small_log_fields small_log_next)
qed

theorem sync_append_is_durable_witness:
  "\<exists>p' rss' b. Append (small_log DurabilitySync) [7] = (Inr 0, p') \<and> part_inv 0 p' rss'
     \<and> b = baseOffset (activeSeg p') \<and> last (last rss') = (0, [7])
     \<and> take (length (layout (last rss'))) (f_log (stable p' b)) = layout (last rss')"
  using sync_append_is_durable [OF small_log_inv, of "[7]" DurabilitySync]
  by (simp add: small_log_fields small_log_next)



end
