(* ===== verification/RtbEligibility.thy ===== *)
theory RtbEligibility
  imports Prelude
begin

text \<open>
  What decides whether a campaign may bid now and what its bid is worth:
  the frequency-cap table (\<open>src/internal/rtb/auction_freqcap.go\<close>), an open-addressing
  hash table built from a Go map; the flight dates and dayparts
  (\<open>auction_daypart.go\<close>); the score (\<open>auction_ranking.go\<close>) and the price
  (\<open>auction_clearing.go\<close>).

  A Go map is the list of its entries in the order the runtime happens to iterate
  them. The probing loops have no bound in the source; they are partial functions
  here, \<open>None\<close> meaning that the loop does not return (it runs for ever or indexes
  out of range), and the theorems show that they do return.
\<close>

section \<open>The frequency-cap table\<close>

record FcapSnapshot =
  Keys :: "u64 list"
  Values :: "u32 list"
  Mask :: u64

text \<open>The doubling loop that chooses the table size.\<close>

function table_size :: "nat \<Rightarrow> nat \<Rightarrow> nat" where
  "table_size sz n = (if 0 < sz \<and> sz < n * 2 then table_size (sz * 2) n else sz)"
  by pat_completeness auto
termination by (relation "measure (\<lambda>(sz, n). n * 2 - sz)") auto

declare table_size.simps [simp del]

text \<open>The probing loop: from \<open>pos\<close> on to the first slot that holds \<open>x\<close> or is empty.\<close>

partial_function (option) probe :: "u64 list \<Rightarrow> u64 \<Rightarrow> u64 \<Rightarrow> u64 \<Rightarrow> nat option" where
  "probe keys msk x pos =
     (if length keys \<le> unat pos then None
      else if keys ! unat pos = x \<or> keys ! unat pos = 0 then Some (unat pos)
      else probe keys msk x ((pos + 1) AND msk))"

declare probe.simps [code]

definition fcap_insert :: "FcapSnapshot \<Rightarrow> u64 \<times> u32 \<Rightarrow> FcapSnapshot option" where
  "fcap_insert snap kv =
     (case probe (Keys snap) (Mask snap) 0 (fst kv AND Mask snap) of
        None \<Rightarrow> None
      | Some i \<Rightarrow> Some (snap\<lparr>Keys := (Keys snap)[i := fst kv], Values := (Values snap)[i := snd kv]\<rparr>))"

primrec fcap_fill :: "FcapSnapshot \<Rightarrow> (u64 \<times> u32) list \<Rightarrow> FcapSnapshot option" where
  "fcap_fill snap [] = Some snap"
| "fcap_fill snap (kv # kvs) =
     (case fcap_insert snap kv of None \<Rightarrow> None | Some snap' \<Rightarrow> fcap_fill snap' kvs)"

definition NewFcapSnapshot :: "(u64 \<times> u32) list \<Rightarrow> FcapSnapshot option" where
  "NewFcapSnapshot counts =
     (if counts = [] then Some \<lparr>Keys = [], Values = [], Mask = 0\<rparr>
      else let sz = table_size 1 (length counts)
           in fcap_fill \<lparr>Keys = replicate sz 0, Values = replicate sz 0, Mask = u64_of (sz - 1)\<rparr> counts)"

definition FcapLookupKey :: "u64 \<Rightarrow> u64 \<Rightarrow> u64" where
  "FcapLookupKey prefixHash userHash =
     (let h = prefixHash XOR userHash;
          h = h XOR drop_bit 33 h;
          h = h * 0xff51afd7ed558ccd;
          h = h XOR drop_bit 33 h;
          h = h * 0xc4ceb9fe1a85ec53
      in h XOR drop_bit 33 h)"

definition FcapCount :: "FcapSnapshot \<Rightarrow> u64 \<Rightarrow> u64 \<Rightarrow> (u32 \<times> bool) option" where
  "FcapCount snap prefixHash userHash =
     (if userHash = 0 \<or> prefixHash = 0 then Some (0, False)
      else if Keys snap = [] then Some (0, False)
      else let lookup = FcapLookupKey prefixHash userHash in
      if length (Keys snap) \<le> unat (Mask snap) then None
      else case probe (Keys snap) (Mask snap) lookup (lookup AND Mask snap) of
        None \<Rightarrow> None
      | Some i \<Rightarrow>
          if Keys snap ! i = lookup
          then if length (Values snap) \<le> i then None else Some (Values snap ! i, True)
          else Some (0, False))"

definition FreqCapExceeded :: "u32 \<Rightarrow> u32 \<Rightarrow> bool" where
  "FreqCapExceeded limit count \<longleftrightarrow> 0 < limit \<and> limit \<le> count"

definition HashBytes64 :: "bytes \<Rightarrow> u64" where
  "HashBytes64 b = fold (\<lambda>c h. (h XOR ucast c) * 1099511628211) b 14695981039346656037"

section \<open>Dayparts and flight dates\<close>

definition hour_bit :: "nat \<Rightarrow> u32" where
  "hour_bit h = push_bit h 1"

definition DaypartMaskFromHours :: "int list \<Rightarrow> u32" where
  "DaypartMaskFromHours hours =
     fold (\<lambda>h mask. if 0 \<le> h \<and> h < 24 then mask OR hour_bit (nat h) else mask) hours 0"

definition localHourFromOffset :: "int \<Rightarrow> int \<Rightarrow> int" where
  "localHourFromOffset nowUnix tzOffsetSec =
     (let local = (if tzOffsetSec = 0 then nowUnix else wrap64 (nowUnix + tzOffsetSec));
          sec = local smod 86400;
          sec = (if sec < 0 then sec + 86400 else sec)
      in sec sdiv 3600)"

definition scheduleOpen :: "int \<Rightarrow> int \<Rightarrow> u32 \<Rightarrow> int \<Rightarrow> int \<Rightarrow> bool" where
  "scheduleOpen startUnix endUnix daypartMask tzOffsetSec nowUnix =
     (if startUnix > 0 \<and> nowUnix < startUnix then False
      else if endUnix > 0 \<and> nowUnix \<ge> endUnix then False
      else if daypartMask = 0 then True
      else let hour = localHourFromOffset nowUnix tzOffsetSec in
      if hour < 0 \<or> hour > 23 then True
      else daypartMask AND hour_bit (nat hour) \<noteq> 0)"

section \<open>Score and price\<close>

definition CTRPPMUnit :: u32 where
  "CTRPPMUnit = 1000000"

definition normalizeCTRPPM :: "u32 \<Rightarrow> u32" where
  "normalizeCTRPPM ctrPPM = (if ctrPPM = 0 then CTRPPMUnit else ctrPPM)"

definition effectiveScoreWithBoost :: "int \<Rightarrow> u32 \<Rightarrow> u32 \<Rightarrow> int" where
  "effectiveScoreWithBoost bid ctrPPM boostPPM =
     (let ctr = uint (normalizeCTRPPM ctrPPM);
          boost = uint (normalizeCTRPPM boostPPM);
          denom = wrap64 (uint CTRPPMUnit * uint CTRPPMUnit)
      in wrap64 (wrap64 (bid * ctr) * boost) sdiv denom)"

definition effectiveScore :: "int \<Rightarrow> u32 \<Rightarrow> int" where
  "effectiveScore bid ctrPPM = effectiveScoreWithBoost bid ctrPPM CTRPPMUnit"

datatype ClearingMode = ClearingSecondPrice | ClearingFirstPrice

definition clearingPrice :: "ClearingMode \<Rightarrow> int \<Rightarrow> int \<Rightarrow> int \<Rightarrow> int" where
  "clearingPrice mode floor winnerBid secondBid =
     (if mode = ClearingFirstPrice then winnerBid
      else if secondBid \<noteq> -1 \<and> secondBid > floor then secondBid else floor)"

definition applyReserve :: "int \<Rightarrow> int \<Rightarrow> int \<Rightarrow> int" where
  "applyReserve price reserve winnerBid =
     (let price = (if reserve > price then reserve else price)
      in if price > winnerBid then winnerBid else price)"

section \<open>The table finds what was put into it\<close>

text \<open>The size is a power of two that leaves half of the slots empty.\<close>

lemma table_size_power:
  "sz = 2 ^ k \<Longrightarrow> \<exists>j. table_size sz n = 2 ^ j \<and> n * 2 \<le> 2 ^ j"
proof (induction sz n arbitrary: k rule: table_size.induct)
  case (1 sz n)
  show ?case
  proof (cases "sz < n * 2")
    case True
    then show ?thesis
      using "1.IH" [of "Suc k"] "1.prems" by (subst table_size.simps) (simp add: mult.commute)
  next
    case False
    then show ?thesis using "1.prems" by (subst table_size.simps) (auto intro: exI [of _ k])
  qed
qed

lemma table_size_upper: "0 < sz \<Longrightarrow> sz \<le> B \<Longrightarrow> n * 4 \<le> B \<Longrightarrow> table_size sz n \<le> B"
  by (induction sz n rule: table_size.induct) (subst table_size.simps, auto)

definition low_mask :: "nat \<Rightarrow> u64" where
  "low_mask k = u64_of (2 ^ k - 1)"

lemma unat_and_mask:
  assumes "k < 64"
  shows "unat ((w :: u64) AND low_mask k) = unat w mod 2 ^ k"
proof -
  have "low_mask k = mask k"
    by (simp add: low_mask_def u64_of_def mask_eq_exp_minus_1 of_nat_diff)
  then have "w AND low_mask k = take_bit k w" by (simp add: take_bit_eq_mask)
  then show ?thesis by (simp add: unsigned_take_bit_eq take_bit_nat_eq_self_iff take_bit_eq_mod [where 'a = nat] del: take_bit_eq_mod)
qed

lemma unat_next:
  assumes "k < 64"
  shows "unat ((w + 1 :: u64) AND low_mask k) = (unat w + 1) mod 2 ^ k"
proof -
  have "(unat w + 1) mod 2 ^ 64 mod 2 ^ k = (unat w + 1) mod 2 ^ k"
    using assms by (intro mod_mod_cancel le_imp_power_dvd) simp
  moreover have "unat (w + 1) = (unat w + 1) mod 2 ^ 64" by (simp add: unat_word_ariths)
  ultimately show ?thesis unfolding unat_and_mask [OF assms] by simp
qed

text \<open>\<open>lands keys x a d\<close>: from slot \<open>a\<close>, probing for \<open>x\<close> stops after \<open>d\<close> moves.\<close>

definition at_step :: "u64 list \<Rightarrow> nat \<Rightarrow> nat \<Rightarrow> u64" where
  "at_step keys a d = keys ! ((a + d) mod length keys)"

definition lands :: "u64 list \<Rightarrow> u64 \<Rightarrow> nat \<Rightarrow> nat \<Rightarrow> bool" where
  "lands keys x a d \<longleftrightarrow> at_step keys a d \<in> {x, 0} \<and> (\<forall>e<d. at_step keys a e \<notin> {x, 0})"

lemma probe_lands:
  assumes "k < 64" "length keys = 2 ^ k" "lands keys x (unat pos) d" "unat pos < 2 ^ k"
  shows "probe keys (low_mask k) x pos = Some ((unat pos + d) mod length keys)"
  using assms(3,4)
proof (induction d arbitrary: pos)
  case 0
  then show ?case using assms(2) by (subst probe.simps) (auto simp: lands_def at_step_def)
next
  case (Suc d)
  let ?p = "(pos + 1) AND low_mask k"
  have p: "unat ?p = (unat pos + 1) mod 2 ^ k" by (rule unat_next [OF assms(1)])
  have "at_step keys (unat ?p) e = at_step keys (unat pos) (Suc e)" for e
    using assms(2) by (simp add: at_step_def p mod_add_left_eq)
  then have "lands keys x (unat ?p) d" using Suc.prems(1) by (auto simp: lands_def)
  moreover have "unat ?p < 2 ^ k" unfolding p by simp
  ultimately have "probe keys (low_mask k) x ?p = Some ((unat ?p + d) mod length keys)"
    by (rule Suc.IH)
  moreover have "keys ! unat pos \<notin> {x, 0}"
    using Suc.prems assms(2) by (auto simp: lands_def at_step_def dest!: spec [of _ 0])
  ultimately show ?case
    using Suc.prems(2) assms(2) by (subst probe.simps) (simp add: p mod_add_left_eq)
qed

lemma lands_exists:
  assumes "i < length keys" "keys ! i = 0"
  shows "\<exists>d<length keys. lands keys x a d"
proof -
  let ?n = "length keys"
  define d0 where "d0 = (i + (?n - a mod ?n)) mod ?n"
  have n: "0 < ?n" using assms(1) by auto
  have "(a + d0) mod ?n = i"
  proof -
    have "(a + d0) mod ?n = (a mod ?n + (i + (?n - a mod ?n))) mod ?n"
      unfolding d0_def by (metis mod_add_left_eq mod_add_right_eq)
    also have "\<dots> = (i + ?n) mod ?n" using mod_less_divisor [OF n, of a] by simp
    finally show ?thesis using assms(1) by simp
  qed
  then have z: "at_step keys a d0 \<in> {x, 0}" using assms(2) by (simp add: at_step_def)
  define d where "d = (LEAST d. at_step keys a d \<in> {x, 0})"
  have "at_step keys a d \<in> {x, 0}" "d \<le> d0"
    unfolding d_def by (rule LeastI [of "\<lambda>d. at_step keys a d \<in> {x, 0}", OF z], rule Least_le [of "\<lambda>d. at_step keys a d \<in> {x, 0}", OF z])
  moreover have "\<forall>e<d. at_step keys a e \<notin> {x, 0}" unfolding d_def using not_less_Least by blast
  moreover have "d0 < ?n" using n by (simp add: d0_def)
  ultimately show ?thesis unfolding lands_def by (intro exI [of _ d]) auto
qed

text \<open>A snapshot that holds the entries \<open>m\<close>, with \<open>c\<close> slots in use at most.\<close>

definition home :: "nat \<Rightarrow> u64 \<Rightarrow> nat" where
  "home n x = unat x mod n"

definition fcap_inv :: "nat \<Rightarrow> FcapSnapshot \<Rightarrow> (u64 \<rightharpoonup> u32) \<Rightarrow> nat \<Rightarrow> bool" where
  "fcap_inv k snap m c \<longleftrightarrow> k < 64 \<and> length (Keys snap) = 2 ^ k \<and> length (Values snap) = 2 ^ k \<and>
     Mask snap = low_mask k \<and> card {i. i < 2 ^ k \<and> Keys snap ! i \<noteq> 0} \<le> c \<and>
     (\<forall>x v. m x = Some v \<longrightarrow> x \<noteq> 0 \<and> (\<exists>d. lands (Keys snap) x (home (2 ^ k) x) d \<and>
        at_step (Keys snap) (home (2 ^ k) x) d = x \<and> Values snap ! ((home (2 ^ k) x + d) mod 2 ^ k) = v)) \<and>
     (\<forall>i<2 ^ k. Keys snap ! i \<noteq> 0 \<longrightarrow> Keys snap ! i \<in> dom m)"

lemma empty_slot:
  assumes "fcap_inv k snap m c" "c < 2 ^ k"
  shows "\<exists>i<2 ^ k. Keys snap ! i = 0"
proof (rule ccontr)
  assume "\<not> ?thesis"
  then have "{i. i < 2 ^ k \<and> Keys snap ! i \<noteq> 0} = {..<2 ^ k}" by auto
  then show False using assms by (simp add: fcap_inv_def)
qed

lemma at_step_update:
  assumes "q < length keys" "at_step keys a e \<noteq> keys ! q"
  shows "at_step (keys[q := x]) a e = at_step keys a e"
  using assms by (auto simp: at_step_def nth_list_update)

lemma lands_update:
  assumes "q < length keys" "keys ! q = 0" "lands keys y a d" "at_step keys a d = y" "y \<noteq> 0" "x \<noteq> y"
  shows "lands (keys[q := x]) y a d \<and> at_step (keys[q := x]) a d = y \<and> (a + d) mod length keys \<noteq> q"
proof -
  have "at_step (keys[q := x]) a e = at_step keys a e" if "e \<le> d" for e
    using assms that by (intro at_step_update) (auto simp: lands_def le_less)
  then show ?thesis using assms by (auto simp: lands_def at_step_def)
qed

lemma lands_new:
  assumes "q < length keys" "lands keys 0 a d" "q = (a + d) mod length keys"
    and fresh: "\<forall>i<length keys. keys ! i \<noteq> x" and "x \<noteq> 0"
  shows "lands (keys[q := x]) x a d \<and> at_step (keys[q := x]) a d = x"
proof -
  have n: "0 < length keys" using assms(1) by auto
  have "keys ! q = 0" using assms(2,3) by (simp add: lands_def at_step_def)
  then have "at_step (keys[q := x]) a e = at_step keys a e" if "e < d" for e
    using assms that by (intro at_step_update) (auto simp: lands_def)
  moreover have "at_step keys a e \<noteq> x" for e
    using fresh n by (simp add: at_step_def)
  ultimately show ?thesis using assms by (auto simp: lands_def at_step_def)
qed

lemma fcap_insert_inv:
  assumes inv: "fcap_inv k snap m c" and c: "c < 2 ^ k" and x: "x \<noteq> 0" "m x = None"
  shows "\<exists>snap'. fcap_insert snap (x, v) = Some snap' \<and> fcap_inv k snap' (m(x \<mapsto> v)) (Suc c)"
proof -
  let ?K = "Keys snap" and ?V = "Values snap" and ?n = "(2 :: nat) ^ k"
  have k: "k < 64" "length ?K = ?n" "length ?V = ?n" "Mask snap = low_mask k"
    using inv by (simp_all add: fcap_inv_def)
  obtain i where "i < ?n" "?K ! i = 0" using empty_slot [OF inv c] by blast
  then obtain d where d: "lands ?K 0 (home ?n x) d"
    using lands_exists [of i ?K] k(2) by auto
  define q where "q = (home ?n x + d) mod ?n"
  have q: "q < ?n" "?K ! q = 0" using d k(2) by (auto simp: q_def lands_def at_step_def)
  have "unat (x AND low_mask k) = home ?n x" by (simp add: unat_and_mask [OF k(1)] home_def)
  then have "probe ?K (low_mask k) 0 (x AND low_mask k) = Some q"
    using probe_lands [OF k(1,2), of 0 "x AND low_mask k" d] d by (simp add: q_def k(2) home_def)
  then have ins: "fcap_insert snap (x, v) = Some (snap\<lparr>Keys := ?K[q := x], Values := ?V[q := v]\<rparr>)"
    by (simp add: fcap_insert_def k(4))
  have fresh: "\<forall>i<length ?K. ?K ! i \<noteq> x" using inv x k(2) by (auto simp: fcap_inv_def)
  have "card {i. i < ?n \<and> ?K[q := x] ! i \<noteq> 0} \<le> card (insert q {i. i < ?n \<and> ?K ! i \<noteq> 0})"
    by (rule card_mono) (auto simp: nth_list_update k(2) split: if_splits)
  also have "\<dots> \<le> Suc c" using inv by (simp add: card_insert_if fcap_inv_def)
  finally have "card {i. i < ?n \<and> ?K[q := x] ! i \<noteq> 0} \<le> Suc c" .
  moreover have "lands (?K[q := x]) x (home ?n x) d \<and> at_step (?K[q := x]) (home ?n x) d = x"
    using lands_new [of q ?K "home ?n x" d x] d q fresh x(1) by (simp add: q_def k(2))
  moreover have "\<exists>d'. lands (?K[q := x]) y (home ?n y) d' \<and> at_step (?K[q := x]) (home ?n y) d' = y \<and>
      ?V[q := v] ! ((home ?n y + d') mod ?n) = w" if y: "m y = Some w" for y w
  proof -
    obtain d' where "y \<noteq> 0" "lands ?K y (home ?n y) d'" "at_step ?K (home ?n y) d' = y"
        "?V ! ((home ?n y + d') mod ?n) = w"
      using inv y by (auto simp: fcap_inv_def)
    moreover have "x \<noteq> y" using x(2) y by auto
    ultimately show ?thesis
      using lands_update [of q ?K y "home ?n y" d' x] q k(2) by (intro exI [of _ d']) auto
  qed
  ultimately have "fcap_inv k (snap\<lparr>Keys := ?K[q := x], Values := ?V[q := v]\<rparr>) (m(x \<mapsto> v)) (Suc c)"
    using inv x(1) q k unfolding fcap_inv_def
    by (auto simp: q_def nth_list_update intro!: exI [of _ d])
  then show ?thesis using ins by blast
qed

lemma fcap_fill_inv:
  assumes "fcap_inv k snap m c" "c + length kvs \<le> 2 ^ k" "distinct (map fst kvs)"
    and "\<forall>kv\<in>set kvs. fst kv \<noteq> 0 \<and> m (fst kv) = None"
  shows "\<exists>snap'. fcap_fill snap kvs = Some snap' \<and> fcap_inv k snap' (m ++ map_of kvs) (c + length kvs)"
  using assms
proof (induction kvs arbitrary: snap m c)
  case (Cons kv kvs)
  obtain x v where kv: "kv = (x, v)" by (cases kv)
  obtain snap1 where one: "fcap_insert snap (x, v) = Some snap1" "fcap_inv k snap1 (m(x \<mapsto> v)) (Suc c)"
    using fcap_insert_inv [OF Cons.prems(1), of x v] Cons.prems(2,4) kv by auto
  have rest: "\<forall>kv\<in>set kvs. fst kv \<noteq> 0 \<and> (m(x \<mapsto> v)) (fst kv) = None"
  proof
    fix e assume e: "e \<in> set kvs"
    then have "fst e \<noteq> x" using Cons.prems(3) kv by force
    then show "fst e \<noteq> 0 \<and> (m(x \<mapsto> v)) (fst e) = None" using Cons.prems(4) e by simp
  qed
  obtain snap2 where two: "fcap_fill snap1 kvs = Some snap2"
      "fcap_inv k snap2 (m(x \<mapsto> v) ++ map_of kvs) (Suc c + length kvs)"
    using Cons.IH [OF one(2) _ _ rest] Cons.prems(2,3) by (auto simp del: fun_upd_apply)
  have "map_of kvs x = None" using Cons.prems(3) kv by (force simp: map_of_eq_None_iff)
  then have eq: "m(x \<mapsto> v) ++ map_of kvs = m ++ map_of (kv # kvs)"
    using kv by (auto simp: map_add_def fun_eq_iff split: option.splits)
  have "fcap_fill snap (kv # kvs) = Some snap2" using one(1) two(1) kv by simp
  moreover have "fcap_inv k snap2 (m ++ map_of (kv # kvs)) (c + length (kv # kvs))"
    using two(2) unfolding eq by (simp del: map_of.simps)
  ultimately show ?case by blast
qed simp

lemma fcap_keys: "fcap_inv k snap m c \<Longrightarrow> i < 2 ^ k \<Longrightarrow> Keys snap ! i \<noteq> 0 \<Longrightarrow> Keys snap ! i \<in> dom m"
  by (simp add: fcap_inv_def)

lemma fcap_lookup:
  assumes inv: "fcap_inv k snap m c" and c: "c < 2 ^ k" and "lk \<noteq> 0"
  shows "\<exists>i<2 ^ k. probe (Keys snap) (Mask snap) lk (lk AND Mask snap) = Some i \<and>
    (case m lk of Some v \<Rightarrow> Keys snap ! i = lk \<and> Values snap ! i = v | None \<Rightarrow> Keys snap ! i = 0)"
proof -
  let ?K = "Keys snap" and ?n = "(2 :: nat) ^ k"
  have k: "k < 64" "length ?K = ?n" "Mask snap = low_mask k" using inv by (simp_all add: fcap_inv_def)
  have h: "unat (lk AND low_mask k) = home ?n lk" by (simp add: unat_and_mask [OF k(1)] home_def)
  have pr: "probe ?K (Mask snap) lk (lk AND Mask snap) = Some ((home ?n lk + d) mod ?n)"
    if "lands ?K lk (home ?n lk) d" for d
    using probe_lands [OF k(1,2), of lk "lk AND low_mask k" d] that by (simp add: k home_def h)
  show ?thesis
  proof (cases "m lk")
    case None
    obtain i where "i < ?n" "?K ! i = 0" using empty_slot [OF inv c] by blast
    then obtain d where d: "lands ?K lk (home ?n lk) d" using lands_exists [of i ?K] k(2) by auto
    have "?K ! ((home ?n lk + d) mod ?n) \<noteq> lk"
      using fcap_keys [OF inv, of "(home ?n lk + d) mod ?n"] None \<open>lk \<noteq> 0\<close> by auto
    then show ?thesis
      using pr [OF d] d None k(2) by (auto simp: lands_def at_step_def)
  next
    case (Some v)
    then obtain d where "lands ?K lk (home ?n lk) d" "at_step ?K (home ?n lk) d = lk"
        "Values snap ! ((home ?n lk + d) mod ?n) = v"
      using inv by (auto simp: fcap_inv_def)
    then show ?thesis using pr [of d] Some k(2) by (auto simp: at_step_def)
  qed
qed

lemma table_size_bounds:
  assumes "0 < n" "n < 2 ^ 61"
  obtains k where "k < 64" "table_size 1 n = 2 ^ k" "n < 2 ^ k"
proof -
  obtain k where k: "table_size 1 n = 2 ^ k" "n * 2 \<le> 2 ^ k"
    using table_size_power [of 1 0 n] by auto
  have "(2 :: nat) ^ k \<le> 2 ^ 63" using table_size_upper [of 1 "2 ^ 63" n] assms k(1) by simp
  then have "k \<le> 63" by (rule power_le_imp_le_exp [rotated]) simp
  then have "k < 64" by simp
  then show thesis using that k assms(1) by simp
qed

lemma fcap_built:
  assumes "counts \<noteq> []" "length counts < 2 ^ 61" "distinct (map fst counts)" "0 \<notin> fst ` set counts"
  shows "\<exists>k snap. NewFcapSnapshot counts = Some snap \<and>
    fcap_inv k snap (map_of counts) (length counts) \<and> length counts < 2 ^ k"
proof -
  obtain k where k: "k < 64" "table_size 1 (length counts) = 2 ^ k" "length counts < 2 ^ k"
    using table_size_bounds [of "length counts"] assms(1,2) by auto
  define s0 where "s0 = \<lparr>Keys = replicate (2 ^ k) (0 :: u64), Values = replicate (2 ^ k) (0 :: u32), Mask = low_mask k\<rparr>"
  have "fcap_inv k s0 Map.empty 0"
    using k(1) by (auto simp: fcap_inv_def s0_def)
  then obtain snap where "fcap_fill s0 counts = Some snap" "fcap_inv k snap (map_of counts) (length counts)"
    using fcap_fill_inv [of k s0 Map.empty 0 counts] k(3) assms(3,4) by (auto simp: image_iff)
  then show ?thesis
    using k(2,3) assms(1) by (auto simp: NewFcapSnapshot_def Let_def s0_def low_mask_def)
qed

text \<open>C16. The frequency-cap table is the map it was built from: construction returns for every
  iteration order of the Go map, and a lookup returns the count of the user and campaign
  when there is one and reports none otherwise; no probe runs for ever.\<close>

theorem FcapSnapshot_finds_counts:
  assumes "length counts < 2 ^ 61" and "distinct (map fst counts)" and "0 \<notin> fst ` set counts"
    and "prefixHash \<noteq> 0" and "userHash \<noteq> 0" and "FcapLookupKey prefixHash userHash \<noteq> 0"
  shows "\<exists>snap. NewFcapSnapshot counts = Some snap \<and>
    FcapCount snap prefixHash userHash = Some
      (case map_of counts (FcapLookupKey prefixHash userHash) of None \<Rightarrow> (0, False) | Some v \<Rightarrow> (v, True))"
proof (cases "counts = []")
  case True
  then show ?thesis by (simp add: NewFcapSnapshot_def FcapCount_def)
next
  case False
  let ?l = "FcapLookupKey prefixHash userHash"
  obtain k snap where snap: "NewFcapSnapshot counts = Some snap"
      "fcap_inv k snap (map_of counts) (length counts)" "length counts < 2 ^ k"
    using fcap_built [OF False assms(1-3)] by blast
  have len: "length (Keys snap) = 2 ^ k" "length (Values snap) = 2 ^ k" "Mask snap = low_mask k" "k < 64"
    using snap(2) by (simp_all add: fcap_inv_def)
  then have "unat (Mask snap) < length (Keys snap)"
    using unat_and_mask [of k "low_mask k"] by (metis and.idem mod_less_divisor zero_less_numeral zero_less_power)
  moreover have "Keys snap \<noteq> []" using len(1) by (metis list.size(3) power_not_zero zero_neq_numeral)
  moreover obtain i where "i < 2 ^ k" "probe (Keys snap) (Mask snap) ?l (?l AND Mask snap) = Some i"
      "case map_of counts ?l of Some v \<Rightarrow> Keys snap ! i = ?l \<and> Values snap ! i = v | None \<Rightarrow> Keys snap ! i = 0"
    using fcap_lookup [OF snap(2,3) assms(6)] by blast
  ultimately show ?thesis
    using snap(1) assms(4-6) len(2) by (auto simp: FcapCount_def Let_def split: option.splits)
qed


theorem FcapSnapshot_finds_counts_witness:
  "\<exists>snap. NewFcapSnapshot [(FcapLookupKey 5 7, 3), (FcapLookupKey 5 8, 1)] = Some snap \<and>
    FcapCount snap 5 7 = Some (3, True)"
proof -
  have "FcapLookupKey 5 7 \<noteq> 0" "FcapLookupKey 5 8 \<noteq> 0" "FcapLookupKey 5 7 \<noteq> FcapLookupKey 5 8"
    by code_simp+
  then show ?thesis
    using FcapSnapshot_finds_counts [of "[(FcapLookupKey 5 7, 3), (FcapLookupKey 5 8, 1)]" 5 7] by simp
qed

section \<open>Schedules\<close>

lemma smod_day: "(x :: int) smod 86400 = (if x < 0 then - ((- x) mod 86400) else x mod 86400)"
  by (simp add: signed_modulo_int_def signed_divide_int_def minus_div_mult_eq_mod [symmetric] sgn_if)

lemma localHourFromOffset_eq:
  assumes "in_i64 (now + tz)"
  shows "localHourFromOffset now tz = (now + tz) mod 86400 div 3600"
proof -
  define l where "l = (if tz = 0 then now else wrap64 (now + tz))"
  have l: "l = now + tz" using assms by (simp add: l_def)
  define sec where "sec = (if l smod 86400 < 0 then l smod 86400 + 86400 else l smod 86400)"
  have sec: "sec = l mod 86400"
    unfolding sec_def smod_day by (auto simp: zmod_zminus1_eq_if split: if_splits)
  then have "0 \<le> sec" by simp
  then have "sec sdiv 3600 = sec div 3600" by (simp add: signed_divide_int_def sgn_if)
  then show ?thesis
    unfolding localHourFromOffset_def Let_def l_def [symmetric] sec_def [symmetric] by (simp add: sec l)
qed

lemma bit_hour_bit: "bit (hour_bit h) n \<longleftrightarrow> n = h \<and> n < 32"
  by (auto simp: hour_bit_def bit_exp_iff)

lemma bit_DaypartMask:
  "bit (fold (\<lambda>h mask. if 0 \<le> h \<and> h < 24 then mask OR hour_bit (nat h) else mask) hours m) n \<longleftrightarrow>
    bit m n \<or> (n < 24 \<and> int n \<in> set hours)"
proof (induction hours arbitrary: m)
  case (Cons h hours)
  let ?m = "if 0 \<le> h \<and> h < 24 then m OR hour_bit (nat h) else m"
  have "bit ?m n \<longleftrightarrow> bit m n \<or> (n < 24 \<and> int n = h)"
    by (auto simp: bit_or_iff bit_hour_bit)
  then show ?case using Cons.IH [of ?m] by (auto simp del: nat_eq_iff)
qed simp

lemma and_hour_bit: "n < 32 \<Longrightarrow> w AND hour_bit n \<noteq> 0 \<longleftrightarrow> bit w n"
  by (auto simp: bit_eq_iff [where 'a = "32 word"] bit_and_iff bit_hour_bit)

text \<open>C25. A campaign with a daypart mask made from a set of hours is open exactly when the time lies
  in its flight and the local hour of its time zone is one of the hours.\<close>

theorem scheduleOpen_iff_hour_allowed:
  assumes "in_i64 (now + tz)" and "\<exists>h\<in>set hours. 0 \<le> h \<and> h < 24"
  shows "scheduleOpen start end (DaypartMaskFromHours hours) tz now \<longleftrightarrow>
    (start \<le> 0 \<or> start \<le> now) \<and> (end \<le> 0 \<or> now < end) \<and> (now + tz) mod 86400 div 3600 \<in> set hours"
proof -
  define hr where "hr = (now + tz) mod 86400 div 3600"
  define m where "m = DaypartMaskFromHours hours"
  have "(now + tz) mod 86400 \<le> 86399" using pos_mod_bound [of 86400 "now + tz"] by simp
  then have h: "0 \<le> hr" "hr < 24"
    unfolding hr_def using zdiv_mono1 [of "(now + tz) mod 86400" 86399 3600] by (simp_all add: pos_imp_zdiv_nonneg_iff)
  have bits: "bit m n \<longleftrightarrow> n < 24 \<and> int n \<in> set hours" for n
    by (simp add: m_def DaypartMaskFromHours_def bit_DaypartMask)
  obtain g where "g \<in> set hours" "0 \<le> g" "g < 24" using assms(2) by blast
  then have "bit m (nat g)" by (simp add: bits)
  then have "m \<noteq> 0" by auto
  moreover have "m AND hour_bit (nat hr) \<noteq> 0 \<longleftrightarrow> hr \<in> set hours"
    using h by (subst and_hour_bit) (auto simp: bits)
  moreover have "localHourFromOffset now tz = hr" by (simp add: hr_def localHourFromOffset_eq [OF assms(1)])
  ultimately show ?thesis
    unfolding m_def [symmetric] hr_def [symmetric] scheduleOpen_def Let_def using h by auto
qed

theorem scheduleOpen_iff_hour_allowed_witness:
  "scheduleOpen 0 0 (DaypartMaskFromHours [9, 10]) 7200 1700029800 \<longleftrightarrow>
    (0 \<le> (0 :: int) \<or> (0 :: int) \<le> 1700029800) \<and> (0 \<le> (0 :: int) \<or> (1700029800 :: int) < 0) \<and>
    (1700029800 + 7200) mod 86400 div 3600 \<in> set [9, 10 :: int]"
  by (rule scheduleOpen_iff_hour_allowed) (simp_all add: in_i64_def)

section \<open>Scores and prices\<close>

lemma unit_value: "uint CTRPPMUnit = 1000000" "uint (normalizeCTRPPM CTRPPMUnit) = 1000000"
  by (simp_all add: CTRPPMUnit_def normalizeCTRPPM_def)

lemma score_exact:
  assumes "0 \<le> bid" "bid * uint (normalizeCTRPPM ctr) * uint (normalizeCTRPPM boost) < 2 ^ 63"
  shows "effectiveScoreWithBoost bid ctr boost =
    bid * uint (normalizeCTRPPM ctr) * uint (normalizeCTRPPM boost) div 1000000000000"
proof -
  let ?c = "uint (normalizeCTRPPM ctr)" and ?b = "uint (normalizeCTRPPM boost)"
  have pos: "1 \<le> ?b"
    by (auto simp: normalizeCTRPPM_def CTRPPMUnit_def word_neq_0_conv word_less_def)
  then have "bid * ?c * 1 \<le> bid * ?c * ?b" using assms(1) by (intro mult_left_mono) auto
  moreover have "0 \<le> bid * ?c" "0 \<le> bid * ?c * ?b" using assms(1) by simp_all
  ultimately have "in_i64 (bid * ?c)" "in_i64 (bid * ?c * ?b)"
    using assms(2) by (auto simp: in_i64_def)
  then show ?thesis
    using assms(1) by (simp add: effectiveScoreWithBoost_def Let_def unit_value in_i64_def signed_divide_int_def sgn_if)
qed

lemma wrap64_over: "2 ^ 63 \<le> x \<Longrightarrow> x < 2 ^ 64 \<Longrightarrow> wrap64 x = x - 2 ^ 64"
  using mod_pos_pos_trivial [of "x + 2 ^ 63 - 2 ^ 64" "2 ^ 64"] minus_mod_self2 [of "x + 2 ^ 63" "2 ^ 64"]
  by (simp add: wrap64_def)

lemma sdiv_neg: "0 < d \<Longrightarrow> (y :: int) \<le> - d \<Longrightarrow> y sdiv d < 0"
  using pos_imp_zdiv_pos_iff [of d "- y"] by (simp add: signed_divide_int_def sgn_if)

lemma score_overflows:
  assumes "9223373 \<le> bid" "bid \<le> 18446743"
  shows "effectiveScoreWithBoost bid CTRPPMUnit CTRPPMUnit < 0"
proof -
  have "wrap64 (bid * 1000000) = bid * 1000000" using assms by (simp add: in_i64_def)
  moreover have "wrap64 (bid * 1000000 * 1000000) = bid * 1000000 * 1000000 - 2 ^ 64"
    using assms by (intro wrap64_over) simp_all
  moreover have "(bid * 1000000 * 1000000 - 2 ^ 64) sdiv 1000000000000 < 0"
    using assms by (intro sdiv_neg) simp_all
  ultimately show ?thesis
    by (simp add: effectiveScoreWithBoost_def Let_def unit_value in_i64_def)
qed

text \<open>C26. The score of a bid under unit CTR and boost is the bid itself up to 9.223372 units of
  currency; from 9.223373 to 18.446743 the product overflows and the score is negative.\<close>

theorem effectiveScore_range:
  "(0 \<le> bid \<and> bid \<le> 9223372 \<longrightarrow> effectiveScore bid CTRPPMUnit = bid) \<and>
   (9223373 \<le> bid \<and> bid \<le> 18446743 \<longrightarrow> effectiveScore bid CTRPPMUnit < 0)"
  using score_exact [of bid CTRPPMUnit CTRPPMUnit] score_overflows [of bid]
  by (auto simp: effectiveScore_def unit_value)

theorem effectiveScore_range_witness:
  "effectiveScore 2500000 CTRPPMUnit = 2500000 \<and> effectiveScore 10000000 CTRPPMUnit < 0"
  using effectiveScore_range [of 2500000] effectiveScore_range [of 10000000] by simp

end
