(* ===== verification/GoBytes.thy ===== *)
theory GoBytes
  imports Prelude
begin

text \<open>
  The functions of Go's \<open>bytes\<close> and \<open>strings\<close> packages that the sources call, on byte
  lists. \<open>ascii\<close> turns a literal into bytes.
\<close>

definition ascii :: "string \<Rightarrow> bytes" where
  "ascii s = map of_char s"

text \<open>\<open>bytes.HasPrefix\<close>, \<open>bytes.Index\<close> (\<open>None\<close> for -1) and \<open>bytes.IndexByte\<close>.\<close>

definition HasPrefix :: "bytes \<Rightarrow> bytes \<Rightarrow> bool" where
  "HasPrefix s p \<longleftrightarrow> take (length p) s = p"

fun Index :: "bytes \<Rightarrow> bytes \<Rightarrow> nat option" where
  "Index [] p = (if p = [] then Some 0 else None)"
| "Index (c # s) p = (if HasPrefix (c # s) p then Some 0 else map_option Suc (Index s p))"

definition IndexByte :: "bytes \<Rightarrow> byte \<Rightarrow> nat option" where
  "IndexByte s c = Index s [c]"

text \<open>\<open>bytes.TrimSpace\<close>: the UTF-8 encodings of the characters \<open>unicode.IsSpace\<close> accepts are
  removed from both ends.\<close>

definition space_encodings :: "bytes list" where
  "space_encodings =
     [[0x09], [0x0a], [0x0b], [0x0c], [0x0d], [0x20], [0xc2, 0x85], [0xc2, 0xa0], [0xe1, 0x9a, 0x80],
      [0xe2, 0x80, 0x80], [0xe2, 0x80, 0x81], [0xe2, 0x80, 0x82], [0xe2, 0x80, 0x83], [0xe2, 0x80, 0x84],
      [0xe2, 0x80, 0x85], [0xe2, 0x80, 0x86], [0xe2, 0x80, 0x87], [0xe2, 0x80, 0x88], [0xe2, 0x80, 0x89],
      [0xe2, 0x80, 0x8a], [0xe2, 0x80, 0xa8], [0xe2, 0x80, 0xa9], [0xe2, 0x80, 0xaf], [0xe2, 0x81, 0x9f],
      [0xe3, 0x80, 0x80]]"

primrec trim_with :: "nat \<Rightarrow> bytes list \<Rightarrow> bytes \<Rightarrow> bytes" where
  "trim_with 0 encs s = s"
| "trim_with (Suc n) encs s =
     (case List.find (HasPrefix s) encs of
        None \<Rightarrow> s
      | Some e \<Rightarrow> trim_with n encs (drop (length e) s))"

definition TrimLeftSpace :: "bytes \<Rightarrow> bytes" where
  "TrimLeftSpace s = trim_with (length s) space_encodings s"

definition TrimRightSpace :: "bytes \<Rightarrow> bytes" where
  "TrimRightSpace s = rev (trim_with (length s) (map rev space_encodings) (rev s))"

definition TrimSpace :: "bytes \<Rightarrow> bytes" where
  "TrimSpace s = TrimRightSpace (TrimLeftSpace s)"

lemma length_trim_with: "length (trim_with n encs s) \<le> length s"
proof (induction n arbitrary: s)
  case (Suc n)
  then show ?case by (auto split: option.splits intro: order_trans [OF Suc.IH])
qed simp

lemma length_TrimSpace: "length (TrimSpace s) \<le> length s"
  using length_trim_with [of "length s" space_encodings s]
    length_trim_with [of "length (TrimLeftSpace s)" "map rev space_encodings" "rev (TrimLeftSpace s)"]
  by (simp add: TrimSpace_def TrimLeftSpace_def TrimRightSpace_def)

lemma Index_Some: "Index s p = Some j \<Longrightarrow> j + length p \<le> length s \<and> HasPrefix (drop j s) p"
proof (induction s arbitrary: j)
  case (Cons c s)
  show ?case
  proof (cases "HasPrefix (c # s) p")
    case True
    then have "length p \<le> length (c # s)"
      unfolding HasPrefix_def by (metis length_take min.cobounded1)
    then show ?thesis using True Cons.prems by auto
  next
    case False
    then show ?thesis using Cons by (cases j) auto
  qed
qed (auto simp: HasPrefix_def split: if_splits)

lemma Index_None: "Index s p = None \<Longrightarrow> j \<le> length s \<Longrightarrow> \<not> HasPrefix (drop j s) p"
proof (induction s arbitrary: j)
  case (Cons c s)
  then show ?case by (cases j) (auto split: if_splits)
qed (auto simp: HasPrefix_def split: if_splits)

lemma Index_first: "Index s p = Some j \<Longrightarrow> i < j \<Longrightarrow> \<not> HasPrefix (drop i s) p"
proof (induction s arbitrary: i j)
  case (Cons c s)
  then show ?case by (cases i; cases j) (auto split: if_splits)
qed (auto split: if_splits)

end
