(* ===== verification/RtbVast.thy ===== *)
theory RtbVast
  imports GoBytes
begin

text \<open>
  The VAST reader of the bidder (\<open>src/internal/rtb/vast_parse.go\<close>, \<open>vast_decode.go\<close>): a
  scanner that walks a video-ad document by searching for tags, and what the catalog
  takes from it. The parser object is its byte slice and the position \<open>p.i\<close>; every
  scanning function returns the new position with its result. The scanners are total
  functions: their termination proofs show that every round moves the position.

  The document types and their protobuf encoding are generated code that is not part
  of the sources: the types are the fields the sources use, and \<open>MarshalVT\<close> and
  \<open>UnmarshalVT\<close> are arguments.
\<close>

record VastMediaFile =
  mf_Uri :: bytes
  mf_MimeType :: bytes
  mf_Width :: u32
  mf_Height :: u32
  mf_Bitrate :: u32

record VastLinear =
  ln_DurationSec :: u32
  ln_MediaFiles :: "VastMediaFile list"

record VastCreative =
  vc_Id :: bytes
  vc_Linear :: "VastLinear option"

record VastInline =
  il_Creatives :: "VastCreative list"

record VastWrapper =
  wr_Creatives :: "VastCreative list"

record VastAd =
  ad_Id :: bytes
  ad_Inline :: "VastInline option"
  ad_Wrapper :: "VastWrapper option"

record VastDocument =
  doc_Version :: bytes
  doc_Ads :: "VastAd list"

datatype vast_error = ErrVASTMalformed | ErrVASTNoAds | ErrProto

section \<open>Scanning\<close>

definition vastNameChar :: "byte \<Rightarrow> bool" where
  "vastNameChar c \<longleftrightarrow> 0x61 \<le> c \<and> c \<le> 0x7a \<or> 0x41 \<le> c \<and> c \<le> 0x5a \<or> 0x30 \<le> c \<and> c \<le> 0x39"

definition open_needle :: "string \<Rightarrow> bytes" where
  "open_needle name = 0x3c # ascii name"

definition close_needle :: "string \<Rightarrow> bytes" where
  "close_needle name = [0x3c, 0x2f] @ ascii name @ [0x3e]"

text \<open>\<open>findOpenTag\<close>: the loop over candidate positions.\<close>

function find_open :: "bytes \<Rightarrow> bytes \<Rightarrow> nat \<Rightarrow> nat \<times> bool" where
  "find_open xml needle i =
     (if i < length xml
      then case Index (drop i xml) needle of
             None \<Rightarrow> (i, False)
           | Some j \<Rightarrow>
               let i' = i + j in
               if 0 < i' \<and> xml ! (i' - 1) = 0x2f then find_open xml needle (i' + 1)
               else let after = i' + length needle in
               if after < length xml \<and> vastNameChar (xml ! after) then find_open xml needle (i' + 1)
               else (after, True)
      else (i, False))"
  by pat_completeness auto
termination by (relation "measure (\<lambda>(xml, needle, i). length xml - i)") auto

declare find_open.simps [simp del]

definition findOpenTag :: "string \<Rightarrow> bytes \<Rightarrow> nat \<Rightarrow> nat \<times> bool" where
  "findOpenTag name xml i = find_open xml (open_needle name) i"

definition atCloseTag :: "string \<Rightarrow> bytes \<Rightarrow> nat \<Rightarrow> bool" where
  "atCloseTag name xml i \<longleftrightarrow>
     (let needle = close_needle name in
      if i + length needle > length xml then False
      else window xml i (i + length needle) = needle)"

definition attrValue :: "string \<Rightarrow> bytes \<Rightarrow> nat \<Rightarrow> bytes" where
  "attrValue name xml i =
     (case (case Index (drop i xml) (ascii name @ [0x3d, 0x22]) of
              Some j \<Rightarrow> Some j | None \<Rightarrow> Index (drop i xml) (ascii name @ [0x3d, 0x27])) of
        None \<Rightarrow> []
      | Some j \<Rightarrow>
          let start = j + i + (length name + 2);
              quote = xml ! (start - 1)
          in takeWhile (\<lambda>c. c \<noteq> quote) (drop start xml))"

definition readTextElement :: "string \<Rightarrow> bytes \<Rightarrow> nat \<Rightarrow> nat \<times> bytes" where
  "readTextElement tag xml i =
     (case IndexByte (drop i xml) 0x3e of
        None \<Rightarrow> (i, [])
      | Some closeSelf \<Rightarrow>
          let contentStart = i + closeSelf + 1 in
          case Index (drop contentStart xml) (close_needle tag) of
            None \<Rightarrow> (i, [])
          | Some closeAt \<Rightarrow>
              (contentStart + closeAt + length (close_needle tag),
               TrimSpace (window xml contentStart (contentStart + closeAt))))"

definition advancePastTag :: "bytes \<Rightarrow> nat \<Rightarrow> nat" where
  "advancePastTag xml i =
     (let i' = (if i < length xml \<and> xml ! i = 0x3c then i + 1 else i)
      in i' + length (takeWhile (\<lambda>c. c \<noteq> 0x3c) (drop i' xml)))"

section \<open>Numbers\<close>

definition is_digit :: "byte \<Rightarrow> bool" where
  "is_digit c \<longleftrightarrow> 0x30 \<le> c \<and> c \<le> 0x39"

fun parse_uint_loop :: "u32 \<Rightarrow> bytes \<Rightarrow> u32" where
  "parse_uint_loop v [] = v"
| "parse_uint_loop v (c # cs) =
     (if \<not> is_digit c then v else parse_uint_loop (v * 10 + ucast (c - 0x30)) cs)"

definition parseVASTUint :: "bytes \<Rightarrow> u32" where
  "parseVASTUint b = parse_uint_loop 0 b"

text \<open>The loop of \<open>parseVASTDuration\<close>; the last round, with \<open>i = len(b)\<close>, is the empty list.\<close>

definition set_part :: "nat \<Rightarrow> u32 \<Rightarrow> u32 \<times> u32 \<times> u32 \<Rightarrow> u32 \<times> u32 \<times> u32" where
  "set_part part val hms =
     (let (h, m, s) = hms in
      if part = 0 then (val, m, s) else if part = 1 then (h, val, s) else if part = 2 then (h, m, val)
      else (h, m, s))"

fun duration_loop :: "nat \<Rightarrow> u32 \<Rightarrow> u32 \<times> u32 \<times> u32 \<Rightarrow> bytes \<Rightarrow> u32 \<times> u32 \<times> u32" where
  "duration_loop part val hms [] = set_part part val hms"
| "duration_loop part val hms (c # cs) =
     (if is_digit c then duration_loop part (val * 10 + ucast (c - 0x30)) hms cs
      else let hms' = set_part part val hms in
      if c \<noteq> 0x3a then hms' else duration_loop (Suc part) 0 hms' cs)"

definition parseVASTDuration :: "bytes \<Rightarrow> u32" where
  "parseVASTDuration b =
     (if b = [] then 0
      else let (h, m, s) = duration_loop 0 0 (0, 0, 0) b in h * 3600 + m * 60 + s)"

section \<open>Every round moves on\<close>

lemma length_open_needle: "0 < length (open_needle name)"
  by (simp add: open_needle_def)

lemma find_open_step:
  assumes "i < length xml" "Index (drop i xml) needle = Some j"
  shows "find_open xml needle i = find_open xml needle (i + j + 1) \<or>
    find_open xml needle i = (i + j + length needle, True)"
  using assms by (subst (1 3) find_open.simps) (simp add: Let_def)

lemma find_open_stop:
  assumes "\<not> i < length xml \<or> Index (drop i xml) needle = None"
  shows "find_open xml needle i = (i, False)"
  using assms by (subst find_open.simps) auto

lemma find_open_moves:
  assumes "0 < length needle"
  shows "find_open xml needle i = (i', ok) \<Longrightarrow> i \<le> i' \<and> (ok \<longrightarrow> i < i' \<and> i' \<le> length xml)"
proof (induction "length xml - i" arbitrary: i rule: less_induct)
  case less
  show ?case
  proof (cases "i < length xml \<and> Index (drop i xml) needle \<noteq> None")
    case False
    then show ?thesis using find_open_stop [of i xml needle] less.prems by auto
  next
    case True
    then obtain j where i: "i < length xml" and j: "Index (drop i xml) needle = Some j" by auto
    from find_open_step [OF i j] show ?thesis
    proof
      assume "find_open xml needle i = find_open xml needle (i + j + 1)"
      moreover have "length xml - (i + j + 1) < length xml - i" using i by linarith
      ultimately have "i + j + 1 \<le> i' \<and> (ok \<longrightarrow> i + j + 1 < i' \<and> i' \<le> length xml)"
        using less.hyps less.prems by metis
      then show ?thesis by auto
    next
      assume "find_open xml needle i = (i + j + length needle, True)"
      then show ?thesis using less.prems Index_Some [OF j] assms i by auto
    qed
  qed
qed

lemma findOpenTag_moves:
  "findOpenTag name xml i = (i', ok) \<Longrightarrow> i \<le> i' \<and> (ok \<longrightarrow> i < i' \<and> i' \<le> length xml)"
  unfolding findOpenTag_def by (rule find_open_moves [OF length_open_needle])

lemma readTextElement_moves: "i \<le> fst (readTextElement tag xml i)"
  by (auto simp: readTextElement_def Let_def split: option.splits)

lemma advancePastTag_moves: "i \<le> advancePastTag xml i" "i < length xml \<Longrightarrow> i < advancePastTag xml i"
proof -
  show "i \<le> advancePastTag xml i" by (simp add: advancePastTag_def Let_def)
  assume i: "i < length xml"
  have "xml ! i \<noteq> 0x3c \<Longrightarrow> 0 < length (takeWhile (\<lambda>c. c \<noteq> 0x3c) (drop i xml))"
    using i by (simp add: Cons_nth_drop_Suc [symmetric])
  then show "i < advancePastTag xml i" using i by (simp add: advancePastTag_def Let_def)
qed

section \<open>The document\<close>

definition readMediaFile :: "bytes \<Rightarrow> nat \<Rightarrow> nat \<times> VastMediaFile option" where
  "readMediaFile xml i =
     (let mime = attrValue ''type'' xml i;
          width = parseVASTUint (attrValue ''width'' xml i);
          height = parseVASTUint (attrValue ''height'' xml i);
          bitrate = parseVASTUint (attrValue ''bitrate'' xml i);
          (i', body) = readTextElement ''MediaFile'' xml i
      in if body = [] \<and> mime = [] then (i', None)
         else (i', Some \<lparr>mf_Uri = body, mf_MimeType = mime, mf_Width = width, mf_Height = height,
                          mf_Bitrate = bitrate\<rparr>))"

lemma readMediaFile_moves: "i \<le> fst (readMediaFile xml i)"
  using readTextElement_moves [of i "''MediaFile''" xml]
  by (auto simp: readMediaFile_def Let_def split: prod.splits)

text \<open>Each scanner is a loop up to its closing tag; \<open>linear_round\<close>, \<open>creative_round\<close>,
  \<open>inline_round\<close>, \<open>ad_round\<close> and \<open>document_round\<close> are the loop bodies.\<close>

definition past_close :: "string \<Rightarrow> nat \<Rightarrow> nat" where
  "past_close tag i = i + 2 + length tag + 1"

definition linear_round :: "bytes \<Rightarrow> nat \<Rightarrow> VastLinear \<Rightarrow> nat \<times> VastLinear" where
  "linear_round xml i linear =
     (let (i1, isDuration) = findOpenTag ''Duration'' xml i in
      if isDuration
      then let (i2, body) = readTextElement ''Duration'' xml i1
           in (i2, linear\<lparr>ln_DurationSec := parseVASTDuration body\<rparr>)
      else let (i2, isMedia) = findOpenTag ''MediaFile'' xml i1 in
      if isMedia
      then let (i3, mf) = readMediaFile xml i2
           in (i3, case mf of None \<Rightarrow> linear | Some f \<Rightarrow> linear\<lparr>ln_MediaFiles := ln_MediaFiles linear @ [f]\<rparr>)
      else (advancePastTag xml i2, linear))"

lemma found_then_read:
  assumes "findOpenTag tag xml i = (i1, True)" "i < length xml" "i1 \<le> i2"
  shows "i < i2"
  using findOpenTag_moves [OF assms(1)] assms(2,3) by auto

lemma none_then_advance:
  assumes "i \<le> i1" "i < length xml"
  shows "i < advancePastTag xml i1"
  using assms advancePastTag_moves [of i1 xml] by (cases "i1 < length xml") linarith+

lemma round_decreases:
  "(x, y) = p \<Longrightarrow> i < fst p \<Longrightarrow> i < length xml \<Longrightarrow> length xml - x < length (xml :: bytes) - i"
  by (metis diff_less_mono2 fst_conv)

lemma linear_round_moves:
  assumes "i < length xml"
  shows "i < fst (linear_round xml i linear)"
proof -
  obtain i1 d where f: "findOpenTag ''Duration'' xml i = (i1, d)" by fastforce
  obtain i2 md where g: "findOpenTag ''MediaFile'' xml i1 = (i2, md)" by fastforce
  show ?thesis
    using findOpenTag_moves [OF f] findOpenTag_moves [OF g] readTextElement_moves [of i1 "''Duration''" xml]
      readMediaFile_moves [of i2 xml] none_then_advance [of i i2 xml] assms
    by (cases d; cases md) (auto simp: linear_round_def f g Let_def split: prod.splits)
qed

function scanLinearBody :: "bytes \<Rightarrow> nat \<Rightarrow> VastLinear \<Rightarrow> nat \<times> VastLinear \<times> bool" where
  "scanLinearBody xml i linear =
     (if i < length xml
      then if atCloseTag ''Linear'' xml i
           then (past_close ''Linear'' i, linear, 0 < ln_DurationSec linear \<or> ln_MediaFiles linear \<noteq> [])
           else case linear_round xml i linear of (i', linear') \<Rightarrow> scanLinearBody xml i' linear'
      else (i, linear, False))"
  by pat_completeness auto
termination
proof (relation "measure (\<lambda>(xml, i, linear). length xml - i)")
  fix xml i x y and a
  assume i: "i < length xml" and "(x, y) = linear_round xml i a"
  from round_decreases [OF this(2) linear_round_moves [OF i] i]
  show "((xml, x, y), (xml, i, a)) \<in> measure (\<lambda>(xml, i, linear). length xml - i)" by simp
qed simp


declare scanLinearBody.simps [simp del]

lemma scanLinearBody_moves: "i \<le> fst (scanLinearBody xml i linear)"
proof (induction xml i linear rule: scanLinearBody.induct)
  case (1 xml i linear)
  show ?case
  proof (cases "i < length xml \<and> \<not> atCloseTag ''Linear'' xml i")
    case True
    then show ?thesis
      using 1 [of "fst (linear_round xml i linear)" "snd (linear_round xml i linear)"] linear_round_moves [of i xml linear]
      by (subst scanLinearBody.simps) (simp add: split_beta)
  next
    case False
    then show ?thesis by (subst scanLinearBody.simps) (auto simp: past_close_def)
  qed
qed

definition creative_round :: "bytes \<Rightarrow> nat \<Rightarrow> VastCreative \<Rightarrow> nat \<times> VastCreative" where
  "creative_round xml i cr =
     (let (i1, found) = findOpenTag ''Linear'' xml i in
      if found
      then let (i2, linear, ok) = scanLinearBody xml i1 \<lparr>ln_DurationSec = 0, ln_MediaFiles = []\<rparr>
           in (i2, if ok then cr\<lparr>vc_Linear := Some linear\<rparr> else cr)
      else (advancePastTag xml i1, cr))"

lemma creative_round_moves:
  assumes "i < length xml"
  shows "i < fst (creative_round xml i cr)"
proof -
  obtain i1 ok where f: "findOpenTag ''Linear'' xml i = (i1, ok)" by fastforce
  show ?thesis
    using findOpenTag_moves [OF f] none_then_advance [of i i1 xml] assms
    by (cases ok) (auto simp: creative_round_def f split_beta intro: less_le_trans [OF _ scanLinearBody_moves])
qed

function scanCreativeBody :: "bytes \<Rightarrow> nat \<Rightarrow> VastCreative \<Rightarrow> nat \<times> VastCreative \<times> bool" where
  "scanCreativeBody xml i cr =
     (if i < length xml
      then if atCloseTag ''Creative'' xml i then (past_close ''Creative'' i, cr, vc_Linear cr \<noteq> None)
           else case creative_round xml i cr of (i', cr') \<Rightarrow> scanCreativeBody xml i' cr'
      else (i, cr, False))"
  by pat_completeness auto
termination
proof (relation "measure (\<lambda>(xml, i, cr). length xml - i)")
  fix xml i x y and a
  assume i: "i < length xml" and "(x, y) = creative_round xml i a"
  from round_decreases [OF this(2) creative_round_moves [OF i] i]
  show "((xml, x, y), (xml, i, a)) \<in> measure (\<lambda>(xml, i, cr). length xml - i)" by simp
qed simp

declare scanCreativeBody.simps [simp del]

lemma scanCreativeBody_moves: "i \<le> fst (scanCreativeBody xml i cr)"
proof (induction xml i cr rule: scanCreativeBody.induct)
  case (1 xml i cr)
  show ?case
  proof (cases "i < length xml \<and> \<not> atCloseTag ''Creative'' xml i")
    case True
    then show ?thesis
      using 1 [of "fst (creative_round xml i cr)" "snd (creative_round xml i cr)"] creative_round_moves [of i xml cr]
      by (subst scanCreativeBody.simps) (simp add: split_beta)
  next
    case False
    then show ?thesis by (subst scanCreativeBody.simps) (auto simp: past_close_def)
  qed
qed

definition inline_round :: "bytes \<Rightarrow> nat \<Rightarrow> VastInline \<Rightarrow> nat \<times> VastInline" where
  "inline_round xml i inl =
     (let (i1, found) = findOpenTag ''Creative'' xml i in
      if found
      then let (i2, cr, ok) = scanCreativeBody xml i1 \<lparr>vc_Id = attrValue ''id'' xml i1, vc_Linear = None\<rparr>
           in (i2, if ok then inl\<lparr>il_Creatives := il_Creatives inl @ [cr]\<rparr> else inl)
      else (advancePastTag xml i1, inl))"

lemma inline_round_moves:
  assumes "i < length xml"
  shows "i < fst (inline_round xml i inl)"
proof -
  obtain i1 ok where f: "findOpenTag ''Creative'' xml i = (i1, ok)" by fastforce
  show ?thesis
    using findOpenTag_moves [OF f] none_then_advance [of i i1 xml] assms
    by (cases ok) (auto simp: inline_round_def f split_beta intro: less_le_trans [OF _ scanCreativeBody_moves])
qed

function scanInlineBody :: "bytes \<Rightarrow> nat \<Rightarrow> VastInline \<Rightarrow> nat \<times> VastInline \<times> bool" where
  "scanInlineBody xml i inl =
     (if i < length xml
      then if atCloseTag ''InLine'' xml i then (past_close ''InLine'' i, inl, il_Creatives inl \<noteq> [])
           else case inline_round xml i inl of (i', inl') \<Rightarrow> scanInlineBody xml i' inl'
      else (i, inl, False))"
  by pat_completeness auto
termination
proof (relation "measure (\<lambda>(xml, i, inl). length xml - i)")
  fix xml i x y and a
  assume i: "i < length xml" and "(x, y) = inline_round xml i a"
  from round_decreases [OF this(2) inline_round_moves [OF i] i]
  show "((xml, x, y), (xml, i, a)) \<in> measure (\<lambda>(xml, i, inl). length xml - i)" by simp
qed simp

declare scanInlineBody.simps [simp del]

lemma scanInlineBody_moves: "i \<le> fst (scanInlineBody xml i inl)"
proof (induction xml i inl rule: scanInlineBody.induct)
  case (1 xml i inl)
  show ?case
  proof (cases "i < length xml \<and> \<not> atCloseTag ''InLine'' xml i")
    case True
    then show ?thesis
      using 1 [of "fst (inline_round xml i inl)" "snd (inline_round xml i inl)"] inline_round_moves [of i xml inl]
      by (subst scanInlineBody.simps) (simp add: split_beta)
  next
    case False
    then show ?thesis by (subst scanInlineBody.simps) (auto simp: past_close_def)
  qed
qed

definition ad_round :: "bytes \<Rightarrow> nat \<Rightarrow> VastAd \<Rightarrow> nat \<times> VastAd" where
  "ad_round xml i ad =
     (let (i1, found) = findOpenTag ''InLine'' xml i in
      if found
      then let (i2, inl, ok) = scanInlineBody xml i1 \<lparr>il_Creatives = []\<rparr>
           in (i2, if ok then ad\<lparr>ad_Inline := Some inl\<rparr> else ad)
      else (advancePastTag xml i1, ad))"

lemma ad_round_moves:
  assumes "i < length xml"
  shows "i < fst (ad_round xml i ad)"
proof -
  obtain i1 ok where f: "findOpenTag ''InLine'' xml i = (i1, ok)" by fastforce
  show ?thesis
    using findOpenTag_moves [OF f] none_then_advance [of i i1 xml] assms
    by (cases ok) (auto simp: ad_round_def f split_beta intro: less_le_trans [OF _ scanInlineBody_moves])
qed

function scanAdBody :: "bytes \<Rightarrow> nat \<Rightarrow> VastAd \<Rightarrow> nat \<times> VastAd \<times> bool" where
  "scanAdBody xml i ad =
     (if i < length xml
      then if atCloseTag ''Ad'' xml i then (past_close ''Ad'' i, ad, ad_Inline ad \<noteq> None \<or> ad_Wrapper ad \<noteq> None)
           else case ad_round xml i ad of (i', ad') \<Rightarrow> scanAdBody xml i' ad'
      else (i, ad, False))"
  by pat_completeness auto
termination
proof (relation "measure (\<lambda>(xml, i, ad). length xml - i)")
  fix xml i x y and a
  assume i: "i < length xml" and "(x, y) = ad_round xml i a"
  from round_decreases [OF this(2) ad_round_moves [OF i] i]
  show "((xml, x, y), (xml, i, a)) \<in> measure (\<lambda>(xml, i, ad). length xml - i)" by simp
qed simp

declare scanAdBody.simps [simp del]

lemma scanAdBody_moves: "i \<le> fst (scanAdBody xml i ad)"
proof (induction xml i ad rule: scanAdBody.induct)
  case (1 xml i ad)
  show ?case
  proof (cases "i < length xml \<and> \<not> atCloseTag ''Ad'' xml i")
    case True
    then show ?thesis
      using 1 [of "fst (ad_round xml i ad)" "snd (ad_round xml i ad)"] ad_round_moves [of i xml ad]
      by (subst scanAdBody.simps) (simp add: split_beta)
  next
    case False
    then show ?thesis by (subst scanAdBody.simps) (auto simp: past_close_def)
  qed
qed

definition document_round :: "bytes \<Rightarrow> nat \<Rightarrow> VastDocument \<Rightarrow> nat \<times> VastDocument" where
  "document_round xml i doc =
     (let (i1, found) = findOpenTag ''Ad'' xml i in
      if \<not> found then (advancePastTag xml i1, doc)
      else let (i2, ad, ok) = scanAdBody xml i1
                 \<lparr>ad_Id = attrValue ''id'' xml i1, ad_Inline = None, ad_Wrapper = None\<rparr>
           in (i2, if ok then doc\<lparr>doc_Ads := doc_Ads doc @ [ad]\<rparr> else doc))"

lemma document_round_moves:
  assumes "i < length xml"
  shows "i < fst (document_round xml i doc)"
proof -
  obtain i1 ok where f: "findOpenTag ''Ad'' xml i = (i1, ok)" by fastforce
  show ?thesis
    using findOpenTag_moves [OF f] none_then_advance [of i i1 xml] assms
    by (cases ok) (auto simp: document_round_def f split_beta intro: less_le_trans [OF _ scanAdBody_moves])
qed

function document_loop :: "bytes \<Rightarrow> nat \<Rightarrow> VastDocument \<Rightarrow> VastDocument \<times> bool" where
  "document_loop xml i doc =
     (if i < length xml
      then if atCloseTag ''VAST'' xml i then (doc, True)
           else case document_round xml i doc of (i', doc') \<Rightarrow> document_loop xml i' doc'
      else (doc, doc_Ads doc \<noteq> []))"
  by pat_completeness auto
termination
proof (relation "measure (\<lambda>(xml, i, doc). length xml - i)")
  fix xml i x y and a
  assume i: "i < length xml" and "(x, y) = document_round xml i a"
  from round_decreases [OF this(2) document_round_moves [OF i] i]
  show "((xml, x, y), (xml, i, a)) \<in> measure (\<lambda>(xml, i, doc). length xml - i)" by simp
qed simp

declare document_loop.simps [simp del]

definition scanDocument :: "bytes \<Rightarrow> VastDocument \<times> bool" where
  "scanDocument xml =
     (let (i, found) = findOpenTag ''VAST'' xml 0 in
      if \<not> found then (\<lparr>doc_Version = [], doc_Ads = []\<rparr>, False)
      else document_loop xml i \<lparr>doc_Version = attrValue ''version'' xml i, doc_Ads = []\<rparr>)"

definition ParseVASTXML :: "bytes \<Rightarrow> vast_error + VastDocument" where
  "ParseVASTXML xml =
     (if xml = [] then Inl ErrVASTMalformed
      else let xml1 = TrimSpace xml;
               xml2 = (if HasPrefix xml1 (ascii ''<?'')
                       then case Index xml1 (ascii ''?>'') of
                              Some e \<Rightarrow> TrimSpace (drop (e + 2) xml1) | None \<Rightarrow> xml1
                       else xml1);
               (doc, ok) = scanDocument xml2
      in if \<not> ok then Inl ErrVASTMalformed
         else if doc_Ads doc = [] then Inl ErrVASTNoAds
         else Inr doc)"

section \<open>What the catalog takes from a document\<close>

fun vastCreativeDuration :: "VastCreative list \<Rightarrow> u32" where
  "vastCreativeDuration [] = 0"
| "vastCreativeDuration (cr # crs) =
     (case vc_Linear cr of
        None \<Rightarrow> vastCreativeDuration crs
      | Some l \<Rightarrow> if 0 < ln_DurationSec l then ln_DurationSec l else vastCreativeDuration crs)"

fun ads_duration :: "VastAd list \<Rightarrow> u32" where
  "ads_duration [] = 0"
| "ads_duration (ad # ads) =
     (let d = (case ad_Inline ad of None \<Rightarrow> 0 | Some inl \<Rightarrow> vastCreativeDuration (il_Creatives inl)) in
      if 0 < d then d
      else let d' = (case ad_Wrapper ad of None \<Rightarrow> 0 | Some w \<Rightarrow> vastCreativeDuration (wr_Creatives w)) in
      if 0 < d' then d' else ads_duration ads)"

definition VASTDurationSec :: "VastDocument \<Rightarrow> u32" where
  "VASTDurationSec doc = ads_duration (doc_Ads doc)"

definition VASTMediaMIME :: "VastDocument \<Rightarrow> bytes" where
  "VASTMediaMIME doc =
     (case filter (\<lambda>mf. mf_MimeType mf \<noteq> [])
        (concat (map ln_MediaFiles (List.map_filter vc_Linear
          (concat (map il_Creatives (List.map_filter ad_Inline (doc_Ads doc))))))) of
        [] \<Rightarrow> [] | mf # _ \<Rightarrow> mf_MimeType mf)"

text \<open>The generated protobuf code: \<open>MarshalVT\<close> and \<open>UnmarshalVT\<close>, which may fail.\<close>

record vast_codec =
  MarshalVT :: "VastDocument \<Rightarrow> bytes option"
  UnmarshalVT :: "bytes \<Rightarrow> VastDocument option"

definition MarshalVASTDocument :: "vast_codec \<Rightarrow> VastDocument \<Rightarrow> vast_error + bytes" where
  "MarshalVASTDocument pb doc = (case MarshalVT pb doc of None \<Rightarrow> Inl ErrProto | Some w \<Rightarrow> Inr w)"

definition UnmarshalVASTDocument :: "vast_codec \<Rightarrow> bytes \<Rightarrow> vast_error + VastDocument" where
  "UnmarshalVASTDocument pb wire =
     (if wire = [] then Inl ErrVASTMalformed
      else case UnmarshalVT pb wire of None \<Rightarrow> Inl ErrProto | Some doc \<Rightarrow> Inr doc)"

definition DecodeVASTWire :: "vast_codec \<Rightarrow> bytes \<Rightarrow> vast_error + VastDocument" where
  "DecodeVASTWire pb wire =
     (if wire = [] then Inl ErrVASTMalformed
      else case UnmarshalVT pb wire of None \<Rightarrow> Inl ErrProto | Some doc \<Rightarrow> Inr doc)"

record CreativeData =
  cd_ID :: u64
  cd_CampaignID :: u64
  cd_Bid :: int
  cd_CTRPPM :: u32
  cd_Weight :: u32
  cd_MediaType :: u8
  cd_DurationSec :: u32
  cd_VASTXML :: bytes
  cd_VASTWire :: bytes

definition PrepareCreativeVASTWire :: "vast_codec \<Rightarrow> CreativeData \<Rightarrow> vast_error + bytes \<times> u32" where
  "PrepareCreativeVASTWire pb c =
     (if cd_VASTWire c \<noteq> []
      then case UnmarshalVASTDocument pb (cd_VASTWire c) of
             Inl e \<Rightarrow> Inl e
           | Inr doc \<Rightarrow>
               Inr (cd_VASTWire c, if cd_DurationSec c = 0 then VASTDurationSec doc else cd_DurationSec c)
      else if cd_VASTXML c = [] then Inr ([], cd_DurationSec c)
      else case ParseVASTXML (cd_VASTXML c) of
             Inl e \<Rightarrow> Inl e
           | Inr doc \<Rightarrow>
               (case MarshalVASTDocument pb doc of
                  Inl e \<Rightarrow> Inl e
                | Inr wire \<Rightarrow>
                    Inr (wire, if cd_DurationSec c = 0 then VASTDurationSec doc else cd_DurationSec c)))"

section \<open>Durations\<close>

definition two_digits :: "nat \<Rightarrow> bytes" where
  "two_digits n = [word_of_nat (48 + n div 10), word_of_nat (48 + n mod 10)]"

definition hms :: "nat \<Rightarrow> nat \<Rightarrow> nat \<Rightarrow> bytes" where
  "hms h m s = two_digits h @ [0x3a] @ two_digits m @ [0x3a] @ two_digits s"

lemma digit_byte:
  assumes "n < 10"
  shows "is_digit (word_of_nat (48 + n))" "ucast ((word_of_nat (48 + n) :: byte) - 0x30) = (word_of_nat n :: u32)"
proof -
  have "n \<in> {0, 1, 2, 3, 4, 5, 6, 7, 8, 9}" using assms by auto
  then show "is_digit (word_of_nat (48 + n))"
    "ucast ((word_of_nat (48 + n) :: byte) - 0x30) = (word_of_nat n :: u32)"
    by (auto simp: is_digit_def)
qed

lemma duration_two_digits:
  assumes "n < 100"
  shows "duration_loop part 0 acc (two_digits n @ rest) = duration_loop part (word_of_nat n) acc rest"
proof -
  have "n div 10 < 10" "n mod 10 < 10" using assms by auto
  note d = digit_byte [OF this(1)] digit_byte [OF this(2)]
  have "(word_of_nat (n div 10) * 10 + word_of_nat (n mod 10) :: u32) = word_of_nat (n div 10 * 10 + n mod 10)"
    by (simp only: of_nat_add of_nat_mult of_nat_numeral)
  then have "(word_of_nat (n div 10) * 10 + word_of_nat (n mod 10) :: u32) = word_of_nat n"
    by (simp only: div_mult_mod_eq)
  then show ?thesis using d by (simp add: two_digits_def)
qed

text \<open>C35. A duration in the form HH:MM:SS, with or without a fraction or other text behind it, is
  read as its number of seconds.\<close>

theorem parseVASTDuration_hms:
  assumes "h < 100" and "m < 100" and "s < 100"
    and "rest = [] \<or> \<not> is_digit (hd rest) \<and> hd rest \<noteq> 0x3a"
  shows "unat (parseVASTDuration (hms h m s @ rest)) = h * 3600 + m * 60 + s"
proof -
  have colon: "\<not> is_digit 0x3a" by (simp add: is_digit_def)
  have "duration_loop 2 (word_of_nat s) (word_of_nat h, word_of_nat m, 0) rest =
      (word_of_nat h, word_of_nat m, word_of_nat s)"
    using assms(4) by (cases rest) (auto simp: set_part_def Let_def)
  then have "duration_loop 0 0 (0, 0, 0) (hms h m s @ rest) = (word_of_nat h, word_of_nat m, word_of_nat s)"
    using assms(1-3) colon
    by (simp add: hms_def duration_two_digits Let_def set_part_def numeral_2_eq_2)
  then have "parseVASTDuration (hms h m s @ rest) = u32_of (h * 3600 + m * 60 + s)"
    by (simp add: u32_of_def parseVASTDuration_def hms_def two_digits_def)
  then show ?thesis using assms(1-3) by simp
qed

theorem parseVASTDuration_hms_witness:
  "unat (parseVASTDuration (hms 0 1 30 @ ascii ''.500'')) = 0 * 3600 + 1 * 60 + 30"
  by (rule parseVASTDuration_hms) (simp_all add: ascii_def is_digit_def)

definition two_creatives :: bytes where
  "two_creatives = ascii (''<VAST><Ad><InLine>'' @
     ''<Creative id=\"a\"><Linear><Duration>0:0:9</Duration><MediaFile type=\"m\">u</MediaFile></Linear></Creative>'' @
     ''<Creative id=\"b\"><Linear><Duration>0:0:5</Duration><MediaFile type=\"n\">v</MediaFile></Linear></Creative>'' @
     ''</InLine></Ad></VAST>'')"


end
