(* ===== verification/RtbCatalog.thy ===== *)
theory RtbCatalog
  imports RtbEligibility RtbVast
begin

text \<open>
  The campaign catalog of the bidder: one shard of campaigns as a struct of arrays
  (\<open>src/internal/rtb/catalog_shard.go\<close>), its creatives (\<open>catalog_creative.go\<close>,
  \<open>creative_cache_soa.go\<close>), and the two indexes that hold a copy of each candidate row:
  by geography (\<open>catalog_geo_index.go\<close>) and by geography, device and category
  (\<open>catalog_targeting_index.go\<close>), sorted by score (\<open>catalog_bucket_sort.go\<close>).

  An index expression that Go would refuse is \<open>None\<close>. \<open>sort.Sort\<close> permutes a bucket
  by calls of \<open>Swap\<close>; which calls it makes is an argument, the schedule of swaps, and
  what its documentation promises of the result is the law of the locale \<open>go_sorter\<close>.
\<close>

section \<open>Slices read by index\<close>

definition go_nth :: "'a list \<Rightarrow> nat \<Rightarrow> 'a option" where
  "go_nth xs i = (if i < length xs then Some (xs ! i) else None)"

text \<open>\<open>sliceAtU32\<close> and its siblings for the other element types.\<close>

definition sliceAt :: "'a::zero list \<Rightarrow> nat \<Rightarrow> 'a" where
  "sliceAt s i = (if length s \<le> i then 0 else s ! i)"

section \<open>Candidate buckets\<close>

record candidateBucketSoA =
  bk_CatalogIdx :: "u32 list"
  bk_CreativeIDs :: "u64 list"
  bk_Bids :: "int list"
  bk_CTRPPM :: "u32 list"
  bk_Reserves :: "int list"
  bk_DailyBudgets :: "int list"
  bk_PacingOpen :: "u8 list"
  bk_DeviceMasks :: "u8 list"
  bk_CategoryMasks :: "u64 list"
  bk_Weights :: "u32 list"
  bk_BoostPPM :: "u32 list"
  bk_MediaTypes :: "u8 list"
  bk_DurationSec :: "u32 list"
  bk_BudgetIndices :: "u32 list"
  bk_CustomerBudgetIndices :: "u32 list"
  bk_DaypartMasks :: "u32 list"
  bk_TZOffsetSec :: "int list"
  bk_ScheduleStart :: "int list"
  bk_ScheduleEnd :: "int list"
  bk_FreqLimits :: "u32 list"
  bk_FcapPrefixHash :: "u64 list"

definition empty_bucket :: candidateBucketSoA where
  "empty_bucket = \<lparr>bk_CatalogIdx = [], bk_CreativeIDs = [], bk_Bids = [], bk_CTRPPM = [], bk_Reserves = [],
     bk_DailyBudgets = [], bk_PacingOpen = [], bk_DeviceMasks = [], bk_CategoryMasks = [], bk_Weights = [],
     bk_BoostPPM = [], bk_MediaTypes = [], bk_DurationSec = [], bk_BudgetIndices = [],
     bk_CustomerBudgetIndices = [], bk_DaypartMasks = [], bk_TZOffsetSec = [], bk_ScheduleStart = [],
     bk_ScheduleEnd = [], bk_FreqLimits = [], bk_FcapPrefixHash = []\<rparr>"

definition bucket_len :: "candidateBucketSoA \<Rightarrow> nat" where
  "bucket_len soa = length (bk_CatalogIdx soa)"

definition slicesValid :: "candidateBucketSoA \<Rightarrow> nat \<Rightarrow> bool" where
  "slicesValid soa e \<longleftrightarrow> e \<le> length (bk_CatalogIdx soa) \<and>
     e \<le> length (bk_CreativeIDs soa) \<and> e \<le> length (bk_Bids soa) \<and> e \<le> length (bk_CTRPPM soa) \<and>
     e \<le> length (bk_Reserves soa) \<and> e \<le> length (bk_DailyBudgets soa) \<and> e \<le> length (bk_PacingOpen soa) \<and>
     e \<le> length (bk_DeviceMasks soa) \<and> e \<le> length (bk_CategoryMasks soa) \<and> e \<le> length (bk_Weights soa) \<and>
     e \<le> length (bk_BoostPPM soa) \<and> e \<le> length (bk_MediaTypes soa) \<and> e \<le> length (bk_DurationSec soa) \<and>
     e \<le> length (bk_BudgetIndices soa) \<and> e \<le> length (bk_CustomerBudgetIndices soa) \<and>
     e \<le> length (bk_DaypartMasks soa) \<and> e \<le> length (bk_TZOffsetSec soa) \<and> e \<le> length (bk_ScheduleStart soa) \<and>
     e \<le> length (bk_ScheduleEnd soa) \<and> e \<le> length (bk_FreqLimits soa) \<and> e \<le> length (bk_FcapPrefixHash soa)"

definition resetBucketSoA :: "candidateBucketSoA \<Rightarrow> candidateBucketSoA" where
  "resetBucketSoA soa = empty_bucket"

definition swap_nth :: "nat \<Rightarrow> nat \<Rightarrow> 'a list \<Rightarrow> 'a list" where
  "swap_nth i j xs = xs[i := xs ! j, j := xs ! i]"

definition swapBucketSoA :: "candidateBucketSoA \<Rightarrow> nat \<Rightarrow> nat \<Rightarrow> candidateBucketSoA" where
  "swapBucketSoA soa i j = \<lparr>
     bk_CatalogIdx = swap_nth i j (bk_CatalogIdx soa), bk_CreativeIDs = swap_nth i j (bk_CreativeIDs soa),
     bk_Bids = swap_nth i j (bk_Bids soa), bk_CTRPPM = swap_nth i j (bk_CTRPPM soa),
     bk_Reserves = swap_nth i j (bk_Reserves soa), bk_DailyBudgets = swap_nth i j (bk_DailyBudgets soa),
     bk_PacingOpen = swap_nth i j (bk_PacingOpen soa), bk_DeviceMasks = swap_nth i j (bk_DeviceMasks soa),
     bk_CategoryMasks = swap_nth i j (bk_CategoryMasks soa), bk_Weights = swap_nth i j (bk_Weights soa),
     bk_BoostPPM = swap_nth i j (bk_BoostPPM soa), bk_MediaTypes = swap_nth i j (bk_MediaTypes soa),
     bk_DurationSec = swap_nth i j (bk_DurationSec soa), bk_BudgetIndices = swap_nth i j (bk_BudgetIndices soa),
     bk_CustomerBudgetIndices = swap_nth i j (bk_CustomerBudgetIndices soa),
     bk_DaypartMasks = swap_nth i j (bk_DaypartMasks soa), bk_TZOffsetSec = swap_nth i j (bk_TZOffsetSec soa),
     bk_ScheduleStart = swap_nth i j (bk_ScheduleStart soa), bk_ScheduleEnd = swap_nth i j (bk_ScheduleEnd soa),
     bk_FreqLimits = swap_nth i j (bk_FreqLimits soa), bk_FcapPrefixHash = swap_nth i j (bk_FcapPrefixHash soa)\<rparr>"

section \<open>A shard of the catalog\<close>

definition MediaTypeDisplay :: u8 where "MediaTypeDisplay = 1"
definition MediaTypeVideo :: u8 where "MediaTypeVideo = 2"

definition PacingOpen :: u8 where "PacingOpen = 1"
definition PacingClosed :: u8 where "PacingClosed = 2"

definition normalizePacingOpen :: "u8 \<Rightarrow> u8" where
  "normalizePacingOpen open = (if open = PacingClosed then PacingClosed else PacingOpen)"

record creativeCacheSoA =
  cc_Count :: nat
  cc_CreativeIDs :: "u64 list"
  cc_CampaignIdx :: "u32 list"
  cc_Bids :: "int list"
  cc_CTRPPM :: "u32 list"
  cc_Weights :: "u32 list"
  cc_MediaTypes :: "u8 list"
  cc_DurationSec :: "u32 list"
  cc_VASTWire :: "bytes list"

definition resetCreativeCacheSoA :: creativeCacheSoA where
  "resetCreativeCacheSoA = \<lparr>cc_Count = 0, cc_CreativeIDs = [], cc_CampaignIdx = [], cc_Bids = [],
     cc_CTRPPM = [], cc_Weights = [], cc_MediaTypes = [], cc_DurationSec = [], cc_VASTWire = []\<rparr>"

record campaign_columns =
  Count :: nat
  CampaignIDs :: "u64 list"
  Bids :: "int list"
  CTRPPM :: "u32 list"
  Reserves :: "int list"
  DailyBudgets :: "int list"
  PacingOpens :: "u8 list"
  DeviceMasks :: "u8 list"
  CategoryMasks :: "u64 list"
  GeoHashes :: "u32 list"
  Weights :: "u32 list"
  BoostPPM :: "u32 list"
  BudgetIndices :: "u32 list"
  CustomerBudgetIndices :: "u32 list"
  DaypartMasks :: "u32 list"
  TZOffsetSec :: "int list"
  ScheduleStart :: "int list"
  ScheduleEnd :: "int list"
  FreqLimits :: "u32 list"
  FcapPrefixHash :: "u64 list"

record CampaignAuctionRegistry = campaign_columns +
  GeoBucketCount :: nat
  GeoBucketHash :: "u32 list"
  GeoBucketStart :: "u32 list"
  GeoBucketSoA :: candidateBucketSoA
  TargetBucketCount :: nat
  TargetBucketKey :: "u64 list"
  TargetBucketStart :: "u32 list"
  TargetBucketSoA :: candidateBucketSoA
  CreativeCache :: creativeCacheSoA
  CampaignCreativeStart :: "u32 list"

record CampaignData =
  cp_ID :: u64
  cp_Bid :: int
  cp_CTRPPM :: u32
  cp_Reserve :: int
  cp_DailyBudget :: int
  cp_PacingOpen :: u8
  cp_CustomerID :: u64
  cp_CustomerBudget :: int
  cp_DeviceMask :: u8
  cp_CategoryMask :: u64
  cp_GeoHashVal :: u32
  cp_Weight :: u32
  cp_BoostPPM :: u32
  cp_Budget :: int
  cp_DaypartMask :: u32
  cp_TZOffsetSec :: int
  cp_ScheduleStart :: int
  cp_ScheduleEnd :: int
  cp_FreqLimit :: u32
  cp_FcapPrefixHash :: u64

definition campaignCreativeRange :: "CampaignAuctionRegistry \<Rightarrow> nat \<Rightarrow> (nat \<times> nat) option" where
  "campaignCreativeRange reg catalogIdx =
     (if Count reg \<le> catalogIdx then None
      else if length (CampaignCreativeStart reg) \<noteq> Count reg + 1 then None
      else let start = unat (CampaignCreativeStart reg ! catalogIdx);
               e = unat (CampaignCreativeStart reg ! (catalogIdx + 1))
      in if e > start then Some (start, e) else None)"

section \<open>Filling a bucket\<close>

definition appendBucketRow ::
  "CampaignAuctionRegistry \<Rightarrow> u32 \<Rightarrow> u64 \<Rightarrow> int \<Rightarrow> u32 \<Rightarrow> u32 \<Rightarrow> u8 \<Rightarrow> u32 \<Rightarrow>
   candidateBucketSoA \<Rightarrow> candidateBucketSoA option" where
  "appendBucketRow reg catalogIdx creativeID bid ctr weight media duration soa =
     (let i = unat catalogIdx; media' = (if media = 0 then MediaTypeDisplay else media) in
      do {
        reserve \<leftarrow> go_nth (Reserves reg) i;
        daily \<leftarrow> go_nth (DailyBudgets reg) i;
        pacing \<leftarrow> go_nth (PacingOpens reg) i;
        device \<leftarrow> go_nth (DeviceMasks reg) i;
        category \<leftarrow> go_nth (CategoryMasks reg) i;
        boost \<leftarrow> go_nth (BoostPPM reg) i;
        budgetIdx \<leftarrow> go_nth (BudgetIndices reg) i;
        customerIdx \<leftarrow> go_nth (CustomerBudgetIndices reg) i;
        Some \<lparr>
          bk_CatalogIdx = bk_CatalogIdx soa @ [catalogIdx],
          bk_CreativeIDs = bk_CreativeIDs soa @ [creativeID],
          bk_Bids = bk_Bids soa @ [bid],
          bk_CTRPPM = bk_CTRPPM soa @ [ctr],
          bk_Reserves = bk_Reserves soa @ [reserve],
          bk_DailyBudgets = bk_DailyBudgets soa @ [daily],
          bk_PacingOpen = bk_PacingOpen soa @ [pacing],
          bk_DeviceMasks = bk_DeviceMasks soa @ [device],
          bk_CategoryMasks = bk_CategoryMasks soa @ [category],
          bk_Weights = bk_Weights soa @ [weight],
          bk_BoostPPM = bk_BoostPPM soa @ [boost],
          bk_MediaTypes = bk_MediaTypes soa @ [media'],
          bk_DurationSec = bk_DurationSec soa @ [duration],
          bk_BudgetIndices = bk_BudgetIndices soa @ [budgetIdx],
          bk_CustomerBudgetIndices = bk_CustomerBudgetIndices soa @ [customerIdx],
          bk_DaypartMasks = bk_DaypartMasks soa @ [sliceAt (DaypartMasks reg) i],
          bk_TZOffsetSec = bk_TZOffsetSec soa @ [sliceAt (TZOffsetSec reg) i],
          bk_ScheduleStart = bk_ScheduleStart soa @ [sliceAt (ScheduleStart reg) i],
          bk_ScheduleEnd = bk_ScheduleEnd soa @ [sliceAt (ScheduleEnd reg) i],
          bk_FreqLimits = bk_FreqLimits soa @ [sliceAt (FreqLimits reg) i],
          bk_FcapPrefixHash = bk_FcapPrefixHash soa @ [sliceAt (FcapPrefixHash reg) i]\<rparr>
      })"

definition append_creative ::
  "CampaignAuctionRegistry \<Rightarrow> u32 \<Rightarrow> nat \<Rightarrow> candidateBucketSoA \<Rightarrow> candidateBucketSoA option" where
  "append_creative reg catalogIdx k soa =
     (let cr = CreativeCache reg in
      do {
        cid \<leftarrow> go_nth (cc_CreativeIDs cr) k;
        bid \<leftarrow> go_nth (cc_Bids cr) k;
        ctr \<leftarrow> go_nth (cc_CTRPPM cr) k;
        weight \<leftarrow> go_nth (cc_Weights cr) k;
        media \<leftarrow> go_nth (cc_MediaTypes cr) k;
        dur \<leftarrow> go_nth (cc_DurationSec cr) k;
        appendBucketRow reg catalogIdx cid bid ctr weight media dur soa
      })"

primrec foldM_opt :: "('a \<Rightarrow> 's \<Rightarrow> 's option) \<Rightarrow> 'a list \<Rightarrow> 's \<Rightarrow> 's option" where
  "foldM_opt f [] s = Some s"
| "foldM_opt f (x # xs) s = (case f x s of None \<Rightarrow> None | Some s' \<Rightarrow> foldM_opt f xs s')"

definition appendBucketCandidate ::
  "CampaignAuctionRegistry \<Rightarrow> u32 \<Rightarrow> candidateBucketSoA \<Rightarrow> candidateBucketSoA option" where
  "appendBucketCandidate reg catalogIdx soa =
     (case campaignCreativeRange reg (unat catalogIdx) of
        Some (crStart, crEnd) \<Rightarrow> foldM_opt (append_creative reg catalogIdx) [crStart..<crEnd] soa
      | None \<Rightarrow>
          do {
            bid \<leftarrow> go_nth (Bids reg) (unat catalogIdx);
            ctr \<leftarrow> go_nth (CTRPPM reg) (unat catalogIdx);
            weight \<leftarrow> go_nth (Weights reg) (unat catalogIdx);
            appendBucketRow reg catalogIdx 0 bid ctr weight 0 0 soa
          })"

section \<open>The indexes\<close>

text \<open>A Go map from keys to slices that only grows by \<open>append\<close>, as an association list; the order
  of its entries plays no role because the keys are sorted afterwards.\<close>

fun bucket_add :: "'k \<Rightarrow> 'v \<Rightarrow> ('k \<times> 'v list) list \<Rightarrow> ('k \<times> 'v list) list" where
  "bucket_add k v [] = [(k, [v])]"
| "bucket_add k v ((k', vs) # bs) = (if k = k' then (k', vs @ [v]) # bs else (k', vs) # bucket_add k v bs)"

definition bucket_of :: "('k \<times> 'v list) list \<Rightarrow> 'k \<Rightarrow> 'v list" where
  "bucket_of bs k = (case map_of bs k of None \<Rightarrow> [] | Some vs \<Rightarrow> vs)"

text \<open>The loop over the sorted keys: the start of each bucket and the rows.\<close>

primrec fill_buckets :: "CampaignAuctionRegistry \<Rightarrow> ('k \<Rightarrow> u32 list) \<Rightarrow> 'k list \<Rightarrow> candidateBucketSoA \<Rightarrow>
    (u32 list \<times> candidateBucketSoA) option" where
  "fill_buckets reg idxs [] soa = Some ([u32_of (bucket_len soa)], soa)"
| "fill_buckets reg idxs (k # ks) soa =
     do {
       soa1 \<leftarrow> foldM_opt (appendBucketCandidate reg) (idxs k) soa;
       (starts, soa2) \<leftarrow> fill_buckets reg idxs ks soa1;
       Some (u32_of (bucket_len soa) # starts, soa2)
     }"

definition geo_buckets :: "u32 list \<Rightarrow> nat \<Rightarrow> (u32 \<times> u32 list) list" where
  "geo_buckets hashes n = fold (\<lambda>i. bucket_add (hashes ! i) (u32_of i)) [0..<n] []"

definition buildGeoIndex :: "CampaignAuctionRegistry \<Rightarrow> CampaignAuctionRegistry option" where
  "buildGeoIndex reg =
     (if Count reg = 0 then Some (reg\<lparr>GeoBucketCount := 0, GeoBucketSoA := resetBucketSoA (GeoBucketSoA reg)\<rparr>)
      else if length (GeoHashes reg) < Count reg then None
      else let buckets = geo_buckets (GeoHashes reg) (Count reg);
               hashes = sort (map fst buckets)
      in do {
           (starts, soa) \<leftarrow> fill_buckets reg (bucket_of buckets) hashes (resetBucketSoA (GeoBucketSoA reg));
           Some (reg\<lparr>GeoBucketCount := length buckets, GeoBucketHash := hashes,
                     GeoBucketStart := starts, GeoBucketSoA := soa\<rparr>)
         })"

text \<open>\<open>sort.Search\<close>: the smallest index in \<open>[i, j)\<close> that satisfies \<open>f\<close>, by bisection.\<close>

function search_loop :: "(nat \<Rightarrow> bool) \<Rightarrow> nat \<Rightarrow> nat \<Rightarrow> nat" where
  "search_loop f i j =
     (if i < j then let h = (i + j) div 2 in if \<not> f h then search_loop f (h + 1) j else search_loop f i h
      else i)"
  by pat_completeness auto
termination by (relation "measure (\<lambda>(f, i, j). j - i)") auto

declare search_loop.simps [simp del]

definition Search :: "nat \<Rightarrow> (nat \<Rightarrow> bool) \<Rightarrow> nat" where
  "Search n f = search_loop f 0 n"

definition geoRange :: "CampaignAuctionRegistry \<Rightarrow> u32 \<Rightarrow> (nat \<times> nat) option" where
  "geoRange reg geoHash =
     (if GeoBucketCount reg = 0 then None
      else let hashes = GeoBucketHash reg;
               idx = Search (GeoBucketCount reg) (\<lambda>i. hashes ! i \<ge> geoHash)
      in if GeoBucketCount reg \<le> idx \<or> hashes ! idx \<noteq> geoHash then None
         else Some (unat (GeoBucketStart reg ! idx), unat (GeoBucketStart reg ! (idx + 1))))"

definition trailing_zeros :: "nat \<Rightarrow> 'a::len word \<Rightarrow> nat" where
  "trailing_zeros n w = length (takeWhile (\<lambda>k. \<not> bit w k) [0..<n])"

definition targetingBucketKey :: "u32 \<Rightarrow> u8 \<Rightarrow> u64 \<Rightarrow> u64" where
  "targetingBucketKey geo deviceBit categoryBit =
     (let devIdx = u64_of (trailing_zeros 8 deviceBit); catIdx = u64_of (trailing_zeros 64 categoryBit)
      in push_bit 32 (ucast geo) OR push_bit 16 devIdx OR catIdx)"

definition forEachDeviceBit :: "u8 \<Rightarrow> u8 list" where
  "forEachDeviceBit m = filter (\<lambda>b. m AND b \<noteq> 0) (map (\<lambda>k. push_bit k 1) [0..<8])"

definition forEachCategoryBit :: "u64 \<Rightarrow> u64 list" where
  "forEachCategoryBit m =
     (if m = 0 then [1] else filter (\<lambda>b. m AND b \<noteq> 0) (map (\<lambda>k. push_bit k 1) [0..<64]))"

definition targeting_keys :: "CampaignAuctionRegistry \<Rightarrow> nat \<Rightarrow> u64 list" where
  "targeting_keys reg i =
     concat (map (\<lambda>d. map (\<lambda>c. targetingBucketKey (GeoHashes reg ! i) d c)
       (forEachCategoryBit (CategoryMasks reg ! i))) (forEachDeviceBit (DeviceMasks reg ! i)))"

definition targeting_buckets :: "CampaignAuctionRegistry \<Rightarrow> (u64 \<times> u32 list) list" where
  "targeting_buckets reg =
     fold (\<lambda>i bs. fold (\<lambda>k. bucket_add k (u32_of i)) (targeting_keys reg i) bs) [0..<Count reg] []"

definition buildTargetingIndex :: "CampaignAuctionRegistry \<Rightarrow> CampaignAuctionRegistry option" where
  "buildTargetingIndex reg =
     (if Count reg = 0
      then Some (reg\<lparr>TargetBucketCount := 0, TargetBucketSoA := resetBucketSoA (TargetBucketSoA reg)\<rparr>)
      else if length (GeoHashes reg) < Count reg \<or> length (DeviceMasks reg) < Count reg \<or>
              length (CategoryMasks reg) < Count reg then None
      else let buckets = targeting_buckets reg;
               keys = sort (map fst buckets)
      in do {
           (starts, soa) \<leftarrow> fill_buckets reg (bucket_of buckets) keys (resetBucketSoA (TargetBucketSoA reg));
           Some (reg\<lparr>TargetBucketCount := length buckets, TargetBucketKey := keys,
                     TargetBucketStart := starts, TargetBucketSoA := soa\<rparr>)
         })"

definition targetingRange :: "CampaignAuctionRegistry \<Rightarrow> u32 \<Rightarrow> u8 \<Rightarrow> u64 \<Rightarrow> (nat \<times> nat) option" where
  "targetingRange reg geo deviceType categoryMask =
     (if TargetBucketCount reg = 0 then None
      else let device = (if deviceType = 0 then 1 else deviceType);
               category = (if categoryMask = 0 then 1 else categoryMask);
               key = targetingBucketKey geo device category;
               keys = TargetBucketKey reg;
               idx = Search (TargetBucketCount reg) (\<lambda>i. keys ! i \<ge> key)
      in if TargetBucketCount reg \<le> idx \<or> keys ! idx \<noteq> key then None
         else Some (unat (TargetBucketStart reg ! idx), unat (TargetBucketStart reg ! (idx + 1))))"

section \<open>Sorting a bucket\<close>

definition bucket_less :: "candidateBucketSoA \<Rightarrow> nat \<Rightarrow> nat \<Rightarrow> bool" where
  "bucket_less soa ia ib =
     (let sa = effectiveScoreWithBoost (bk_Bids soa ! ia) (bk_CTRPPM soa ! ia) (bk_BoostPPM soa ! ia);
          sb = effectiveScoreWithBoost (bk_Bids soa ! ib) (bk_CTRPPM soa ! ib) (bk_BoostPPM soa ! ib)
      in if sa \<noteq> sb then sa > sb
         else if bk_Weights soa ! ia \<noteq> bk_Weights soa ! ib then bk_Weights soa ! ia > bk_Weights soa ! ib
         else bk_Bids soa ! ia > bk_Bids soa ! ib)"

text \<open>The calls \<open>Swap(i, j)\<close> that \<open>sort.Sort\<close> makes on a bucket, relative to its start.\<close>

type_synonym sort_schedule = "candidateBucketSoA \<Rightarrow> nat \<Rightarrow> nat \<Rightarrow> (nat \<times> nat) list"

definition run_swaps :: "nat \<Rightarrow> (nat \<times> nat) list \<Rightarrow> candidateBucketSoA \<Rightarrow> candidateBucketSoA" where
  "run_swaps start swaps soa = fold (\<lambda>(i, j) s. swapBucketSoA s (start + i) (start + j)) swaps soa"

definition sortBucketSoA :: "sort_schedule \<Rightarrow> candidateBucketSoA \<Rightarrow> nat \<Rightarrow> nat \<Rightarrow> candidateBucketSoA" where
  "sortBucketSoA sched soa start e =
     (if e - start < 2 then soa else run_swaps start (sched soa start e) soa)"

definition sort_all :: "sort_schedule \<Rightarrow> u32 list \<Rightarrow> nat \<Rightarrow> candidateBucketSoA \<Rightarrow> candidateBucketSoA" where
  "sort_all sched starts n soa =
     fold (\<lambda>i s. sortBucketSoA sched s (unat (starts ! i)) (unat (starts ! (i + 1)))) [0..<n] soa"

definition sortRegistryBuckets :: "sort_schedule \<Rightarrow> CampaignAuctionRegistry \<Rightarrow> CampaignAuctionRegistry" where
  "sortRegistryBuckets sched reg =
     (if GeoBucketCount reg = 0 then reg
      else let reg1 = reg\<lparr>GeoBucketSoA := sort_all sched (GeoBucketStart reg) (GeoBucketCount reg) (GeoBucketSoA reg)\<rparr>
      in if TargetBucketCount reg1 = 0 then reg1
         else reg1\<lparr>TargetBucketSoA := sort_all sched (TargetBucketStart reg1) (TargetBucketCount reg1) (TargetBucketSoA reg1)\<rparr>)"

section \<open>Creatives\<close>

record preparedCreative =
  pc_catalogIdx :: nat
  pc_id :: u64
  pc_bid :: int
  pc_ctr :: u32
  pc_weight :: u32
  pc_media :: u8
  pc_duration :: u32
  pc_wire :: bytes

definition campaign_pos :: "CampaignAuctionRegistry \<Rightarrow> u64 \<rightharpoonup> nat" where
  "campaign_pos reg = fold (\<lambda>i m. m(CampaignIDs reg ! i \<mapsto> i)) [0..<Count reg] Map.empty"

definition prepare_creative :: "vast_codec \<Rightarrow> CampaignAuctionRegistry \<Rightarrow> CreativeData \<Rightarrow> preparedCreative option" where
  "prepare_creative pb reg c =
     (case campaign_pos reg (cd_CampaignID c) of
        None \<Rightarrow> None
      | Some catalogIdx \<Rightarrow>
          (case PrepareCreativeVASTWire pb c of
             Inl _ \<Rightarrow> None
           | Inr (wire, dur) \<Rightarrow>
               Some \<lparr>pc_catalogIdx = catalogIdx, pc_id = cd_ID c,
                 pc_bid = (if cd_Bid c = 0 then Bids reg ! catalogIdx else cd_Bid c),
                 pc_ctr = normalizeCTRPPM (if cd_CTRPPM c = 0 then CTRPPM reg ! catalogIdx else cd_CTRPPM c),
                 pc_weight = (if cd_Weight c = 0 then Weights reg ! catalogIdx else cd_Weight c),
                 pc_media = (if cd_MediaType c = 0 then MediaTypeDisplay else cd_MediaType c),
                 pc_duration = dur, pc_wire = wire\<rparr>))"

definition per_campaign :: "preparedCreative list \<Rightarrow> nat \<Rightarrow> nat" where
  "per_campaign prepared i = length (filter (\<lambda>p. pc_catalogIdx p = i) prepared)"

definition creative_starts :: "preparedCreative list \<Rightarrow> nat \<Rightarrow> nat list" where
  "creative_starts prepared n = map (\<lambda>i. \<Sum>j\<leftarrow>[0..<i]. per_campaign prepared j) [0..<n + 1]"

definition place_creative ::
  "u32 list \<Rightarrow> preparedCreative \<Rightarrow> creativeCacheSoA \<times> nat list \<Rightarrow> creativeCacheSoA \<times> nat list" where
  "place_creative starts p st =
     (let (soa, writePos) = st;
          ci = pc_catalogIdx p;
          k = unat (starts ! ci) + writePos ! ci
      in (soa\<lparr>cc_CreativeIDs := (cc_CreativeIDs soa)[k := pc_id p],
              cc_CampaignIdx := (cc_CampaignIdx soa)[k := u32_of (pc_catalogIdx p)],
              cc_Bids := (cc_Bids soa)[k := pc_bid p],
              cc_CTRPPM := (cc_CTRPPM soa)[k := pc_ctr p],
              cc_Weights := (cc_Weights soa)[k := pc_weight p],
              cc_MediaTypes := (cc_MediaTypes soa)[k := pc_media p],
              cc_DurationSec := (cc_DurationSec soa)[k := pc_duration p],
              cc_VASTWire := (cc_VASTWire soa)[k := pc_wire p]\<rparr>,
          writePos[ci := writePos ! ci + 1]))"

definition sized_cache :: "nat \<Rightarrow> creativeCacheSoA" where
  "sized_cache n = \<lparr>cc_Count = n, cc_CreativeIDs = replicate n 0, cc_CampaignIdx = replicate n 0,
     cc_Bids = replicate n 0, cc_CTRPPM = replicate n 0, cc_Weights = replicate n 0,
     cc_MediaTypes = replicate n 0, cc_DurationSec = replicate n 0, cc_VASTWire = replicate n []\<rparr>"

definition buildCreativeCache ::
  "vast_codec \<Rightarrow> CreativeData list \<Rightarrow> CampaignAuctionRegistry \<Rightarrow> CampaignAuctionRegistry" where
  "buildCreativeCache pb creatives reg =
     (let count = Count reg;
          reg1 = reg\<lparr>CreativeCache := resetCreativeCacheSoA, CampaignCreativeStart := replicate (count + 1) 0\<rparr>
      in if count = 0 \<or> creatives = [] then reg1
         else let prepared = List.map_filter (prepare_creative pb reg) creatives;
                  sums = creative_starts prepared count;
                  starts = map u32_of sums;
                  reg2 = reg1\<lparr>CampaignCreativeStart := starts\<rparr>
         in if sums ! count = 0 then reg2
            else reg2\<lparr>CreativeCache :=
                   fst (fold (place_creative starts) prepared (sized_cache (sums ! count), replicate count 0))\<rparr>)"

section \<open>Rows\<close>

text \<open>A candidate is a row of a bucket; \<open>soa_of\<close> is the struct of arrays of a list of rows. The
  buckets that the code builds all have this form, so that what it does to the columns is
  an operation on a list of rows.\<close>

record candidate =
  ca_CatalogIdx :: u32
  ca_CreativeID :: u64
  ca_Bid :: int
  ca_CTRPPM :: u32
  ca_Reserve :: int
  ca_DailyBudget :: int
  ca_PacingOpen :: u8
  ca_DeviceMask :: u8
  ca_CategoryMask :: u64
  ca_Weight :: u32
  ca_BoostPPM :: u32
  ca_MediaType :: u8
  ca_DurationSec :: u32
  ca_BudgetIdx :: u32
  ca_CustomerBudgetIdx :: u32
  ca_DaypartMask :: u32
  ca_TZOffsetSec :: int
  ca_ScheduleStart :: int
  ca_ScheduleEnd :: int
  ca_FreqLimit :: u32
  ca_FcapPrefixHash :: u64

definition soa_of :: "candidate list \<Rightarrow> candidateBucketSoA" where
  "soa_of rs = \<lparr>
     bk_CatalogIdx = map ca_CatalogIdx rs, bk_CreativeIDs = map ca_CreativeID rs,
     bk_Bids = map ca_Bid rs, bk_CTRPPM = map ca_CTRPPM rs,
     bk_Reserves = map ca_Reserve rs, bk_DailyBudgets = map ca_DailyBudget rs,
     bk_PacingOpen = map ca_PacingOpen rs, bk_DeviceMasks = map ca_DeviceMask rs,
     bk_CategoryMasks = map ca_CategoryMask rs, bk_Weights = map ca_Weight rs,
     bk_BoostPPM = map ca_BoostPPM rs, bk_MediaTypes = map ca_MediaType rs,
     bk_DurationSec = map ca_DurationSec rs, bk_BudgetIndices = map ca_BudgetIdx rs,
     bk_CustomerBudgetIndices = map ca_CustomerBudgetIdx rs,
     bk_DaypartMasks = map ca_DaypartMask rs, bk_TZOffsetSec = map ca_TZOffsetSec rs,
     bk_ScheduleStart = map ca_ScheduleStart rs, bk_ScheduleEnd = map ca_ScheduleEnd rs,
     bk_FreqLimits = map ca_FreqLimit rs, bk_FcapPrefixHash = map ca_FcapPrefixHash rs\<rparr>"

definition cand_at :: "candidateBucketSoA \<Rightarrow> nat \<Rightarrow> candidate" where
  "cand_at soa i = \<lparr>
     ca_CatalogIdx = bk_CatalogIdx soa ! i, ca_CreativeID = bk_CreativeIDs soa ! i,
     ca_Bid = bk_Bids soa ! i, ca_CTRPPM = bk_CTRPPM soa ! i,
     ca_Reserve = bk_Reserves soa ! i, ca_DailyBudget = bk_DailyBudgets soa ! i,
     ca_PacingOpen = bk_PacingOpen soa ! i, ca_DeviceMask = bk_DeviceMasks soa ! i,
     ca_CategoryMask = bk_CategoryMasks soa ! i, ca_Weight = bk_Weights soa ! i,
     ca_BoostPPM = bk_BoostPPM soa ! i, ca_MediaType = bk_MediaTypes soa ! i,
     ca_DurationSec = bk_DurationSec soa ! i, ca_BudgetIdx = bk_BudgetIndices soa ! i,
     ca_CustomerBudgetIdx = bk_CustomerBudgetIndices soa ! i,
     ca_DaypartMask = bk_DaypartMasks soa ! i, ca_TZOffsetSec = bk_TZOffsetSec soa ! i,
     ca_ScheduleStart = bk_ScheduleStart soa ! i, ca_ScheduleEnd = bk_ScheduleEnd soa ! i,
     ca_FreqLimit = bk_FreqLimits soa ! i, ca_FcapPrefixHash = bk_FcapPrefixHash soa ! i\<rparr>"

lemma cand_at_soa_of [simp]: "i < length rs \<Longrightarrow> cand_at (soa_of rs) i = rs ! i"
  by (simp add: cand_at_def soa_of_def)

lemma bucket_len_soa_of [simp]: "bucket_len (soa_of rs) = length rs"
  by (simp add: bucket_len_def soa_of_def)

lemma slicesValid_soa_of [simp]: "slicesValid (soa_of rs) e \<longleftrightarrow> e \<le> length rs"
  by (simp add: slicesValid_def soa_of_def)

lemma resetBucketSoA_soa_of [simp]: "resetBucketSoA soa = soa_of []"
  by (simp add: resetBucketSoA_def empty_bucket_def soa_of_def)

lemma swap_nth_map: "i < length rs \<Longrightarrow> j < length rs \<Longrightarrow> swap_nth i j (map f rs) = map f (swap_nth i j rs)"
  by (simp add: swap_nth_def map_update)

lemma swapBucketSoA_soa_of:
  "i < length rs \<Longrightarrow> j < length rs \<Longrightarrow> swapBucketSoA (soa_of rs) i j = soa_of (swap_nth i j rs)"
  by (simp add: swapBucketSoA_def soa_of_def swap_nth_map)

lemma soa_of_inj: "soa_of rs = soa_of rs' \<longleftrightarrow> rs = rs'"
proof
  assume eq: "soa_of rs = soa_of rs'"
  then have len: "length rs = length rs'" using bucket_len_soa_of by metis
  show "rs = rs'"
    by (rule nth_equalityI [OF len]) (metis cand_at_soa_of eq len)
qed simp

text \<open>The rows of one campaign.\<close>

definition base_cand ::
  "CampaignAuctionRegistry \<Rightarrow> nat \<Rightarrow> u64 \<Rightarrow> int \<Rightarrow> u32 \<Rightarrow> u32 \<Rightarrow> u8 \<Rightarrow> u32 \<Rightarrow> candidate" where
  "base_cand reg i cid bid ctr weight media dur = \<lparr>
     ca_CatalogIdx = u32_of i, ca_CreativeID = cid, ca_Bid = bid, ca_CTRPPM = ctr,
     ca_Reserve = Reserves reg ! i, ca_DailyBudget = DailyBudgets reg ! i,
     ca_PacingOpen = PacingOpens reg ! i, ca_DeviceMask = DeviceMasks reg ! i,
     ca_CategoryMask = CategoryMasks reg ! i, ca_Weight = weight, ca_BoostPPM = BoostPPM reg ! i,
     ca_MediaType = (if media = 0 then MediaTypeDisplay else media), ca_DurationSec = dur,
     ca_BudgetIdx = BudgetIndices reg ! i, ca_CustomerBudgetIdx = CustomerBudgetIndices reg ! i,
     ca_DaypartMask = sliceAt (DaypartMasks reg) i, ca_TZOffsetSec = sliceAt (TZOffsetSec reg) i,
     ca_ScheduleStart = sliceAt (ScheduleStart reg) i, ca_ScheduleEnd = sliceAt (ScheduleEnd reg) i,
     ca_FreqLimit = sliceAt (FreqLimits reg) i, ca_FcapPrefixHash = sliceAt (FcapPrefixHash reg) i\<rparr>"

definition creative_cand :: "CampaignAuctionRegistry \<Rightarrow> nat \<Rightarrow> nat \<Rightarrow> candidate" where
  "creative_cand reg i k =
     (let cr = CreativeCache reg
      in base_cand reg i (cc_CreativeIDs cr ! k) (cc_Bids cr ! k) (cc_CTRPPM cr ! k) (cc_Weights cr ! k)
           (cc_MediaTypes cr ! k) (cc_DurationSec cr ! k))"

definition campaign_rows :: "CampaignAuctionRegistry \<Rightarrow> nat \<Rightarrow> candidate list" where
  "campaign_rows reg i =
     (case campaignCreativeRange reg i of
        Some (s, e) \<Rightarrow> map (creative_cand reg i) [s..<e]
      | None \<Rightarrow> [base_cand reg i 0 (Bids reg ! i) (CTRPPM reg ! i) (Weights reg ! i) 0 0])"

definition columns_wf :: "CampaignAuctionRegistry \<Rightarrow> bool" where
  "columns_wf reg \<longleftrightarrow> Count reg < 2 ^ 32 \<and> length (CampaignIDs reg) = Count reg \<and> length (Bids reg) = Count reg \<and>
     length (CTRPPM reg) = Count reg \<and> length (Reserves reg) = Count reg \<and> length (DailyBudgets reg) = Count reg \<and>
     length (PacingOpens reg) = Count reg \<and> length (DeviceMasks reg) = Count reg \<and>
     length (CategoryMasks reg) = Count reg \<and> length (GeoHashes reg) = Count reg \<and>
     length (Weights reg) = Count reg \<and> length (BoostPPM reg) = Count reg \<and>
     length (BudgetIndices reg) = Count reg \<and> length (CustomerBudgetIndices reg) = Count reg"

definition creatives_wf :: "CampaignAuctionRegistry \<Rightarrow> bool" where
  "creatives_wf reg \<longleftrightarrow> (let cr = CreativeCache reg; n = cc_Count cr in
     length (cc_CreativeIDs cr) = n \<and> length (cc_Bids cr) = n \<and> length (cc_CTRPPM cr) = n \<and>
     length (cc_Weights cr) = n \<and> length (cc_MediaTypes cr) = n \<and> length (cc_DurationSec cr) = n \<and>
     length (cc_CampaignIdx cr) = n \<and> length (cc_VASTWire cr) = n \<and>
     list_all (\<lambda>st. unat st \<le> n) (CampaignCreativeStart reg))"

lemma appendBucketRow_rows:
  assumes "columns_wf reg" "i < Count reg"
  shows "appendBucketRow reg (u32_of i) cid bid ctr weight media dur (soa_of rs) =
    Some (soa_of (rs @ [base_cand reg i cid bid ctr weight media dur]))"
  using assms by (simp add: appendBucketRow_def columns_wf_def go_nth_def soa_of_def base_cand_def Let_def)

lemma append_creatives:
  assumes "columns_wf reg" "creatives_wf reg" "i < Count reg"
  shows "\<forall>k\<in>set ks. k < cc_Count (CreativeCache reg) \<Longrightarrow>
    foldM_opt (append_creative reg (u32_of i)) ks (soa_of rs) = Some (soa_of (rs @ map (creative_cand reg i) ks))"
proof (induction ks arbitrary: rs)
  case (Cons k ks)
  then have "append_creative reg (u32_of i) k (soa_of rs) = Some (soa_of (rs @ [creative_cand reg i k]))"
    using assms
    by (simp add: append_creative_def go_nth_def creatives_wf_def appendBucketRow_rows creative_cand_def Let_def)
  then show ?case using Cons by simp
qed simp

lemma appendBucketCandidate_rows:
  assumes "columns_wf reg" "creatives_wf reg" "i < Count reg"
  shows "appendBucketCandidate reg (u32_of i) (soa_of rs) = Some (soa_of (rs @ campaign_rows reg i))"
proof -
  have i: "unat (u32_of i) = i" using assms by (simp add: columns_wf_def)
  show ?thesis
  proof (cases "campaignCreativeRange reg i")
    case None
    then show ?thesis
      using assms i appendBucketRow_rows [OF assms(1,3)]
      by (simp add: appendBucketCandidate_def campaign_rows_def columns_wf_def go_nth_def)
  next
    case (Some r)
    then obtain s e where r: "r = (s, e)" by (cases r)
    have "e \<le> cc_Count (CreativeCache reg)"
      using Some r assms(2)
      by (auto simp: campaignCreativeRange_def creatives_wf_def list_all_length Let_def split: if_splits)
    then show ?thesis
      using Some r i append_creatives [OF assms, of "[s..<e]" rs]
      by (simp add: appendBucketCandidate_def campaign_rows_def)
  qed
qed

lemma appendBucketCandidates_rows:
  assumes "columns_wf reg" "creatives_wf reg"
  shows "\<forall>i\<in>set is. i < Count reg \<Longrightarrow> foldM_opt (appendBucketCandidate reg) (map u32_of is) (soa_of rs) =
    Some (soa_of (rs @ concat (map (campaign_rows reg) is)))"
  by (induction "is" arbitrary: rs) (simp_all add: appendBucketCandidate_rows [OF assms])

section \<open>Bisection\<close>

lemma search_loop_spec:
  assumes "i \<le> j" "j \<le> n" and mono: "\<And>a b. a \<le> b \<Longrightarrow> b < n \<Longrightarrow> f a \<Longrightarrow> f b"
    and "\<forall>k. k < i \<longrightarrow> \<not> f k" and "j < n \<longrightarrow> f j"
  shows "search_loop f i j \<le> n \<and> (\<forall>k. k < search_loop f i j \<longrightarrow> \<not> f k) \<and>
    (search_loop f i j < n \<longrightarrow> f (search_loop f i j))"
  using assms(1,2,4,5)
proof (induction "j - i" arbitrary: i j rule: less_induct)
  case less
  show ?case
  proof (cases "i < j")
    case True
    define h where "h = (i + j) div 2"
    have h: "i \<le> h" "h < j" using True by (auto simp: h_def)
    have step: "search_loop f i j = (if \<not> f h then search_loop f (h + 1) j else search_loop f i h)"
      using True by (subst search_loop.simps) (simp add: Let_def h_def)
    show ?thesis
    proof (cases "f h")
      case True
      have "h - i < j - i" "i \<le> h" "h \<le> n" using h less.prems(2) by auto
      then have "search_loop f i h \<le> n \<and> (\<forall>k. k < search_loop f i h \<longrightarrow> \<not> f k) \<and>
          (search_loop f i h < n \<longrightarrow> f (search_loop f i h))"
        using less.hyps less.prems(3) True by blast
      then show ?thesis unfolding step using True by simp
    next
      case False
      have "\<not> f k" if "k < h + 1" for k
      proof
        assume "f k"
        then have "f h" by (rule mono [rotated 2]) (use that h less.prems(2) in auto)
        then show False using False by simp
      qed
      moreover have "j - (h + 1) < j - i" "h + 1 \<le> j" using h by auto
      ultimately have "search_loop f (h + 1) j \<le> n \<and> (\<forall>k. k < search_loop f (h + 1) j \<longrightarrow> \<not> f k) \<and>
          (search_loop f (h + 1) j < n \<longrightarrow> f (search_loop f (h + 1) j))"
        using less.hyps less.prems(2,4) by blast
      then show ?thesis unfolding step using False by simp
    qed
  next
    case False
    then have "search_loop f i j = i" by (subst search_loop.simps) simp
    moreover have "i = j" using False less.prems(1) by simp
    ultimately show ?thesis using less.prems by simp
  qed
qed

lemma Search_sorted:
  fixes keys :: "'k::linorder list"
  assumes "sorted keys" "distinct keys"
  shows "let idx = Search (length keys) (\<lambda>i. keys ! i \<ge> x) in
    idx \<le> length keys \<and> (x \<in> set keys \<longleftrightarrow> idx < length keys \<and> keys ! idx = x)"
proof -
  define idx where "idx = Search (length keys) (\<lambda>i. keys ! i \<ge> x)"
  have r: "idx \<le> length keys" "\<forall>k. k < idx \<longrightarrow> \<not> keys ! k \<ge> x" "idx < length keys \<longrightarrow> keys ! idx \<ge> x"
    using search_loop_spec [of 0 "length keys" "length keys" "\<lambda>i. keys ! i \<ge> x"] sorted_nth_mono [OF assms(1)]
    by (auto simp: idx_def Search_def intro: order_trans)
  have "idx < length keys \<and> keys ! idx = x" if in_keys: "x \<in> set keys"
  proof -
    obtain i where i: "i < length keys" "keys ! i = x" using in_keys by (auto simp: in_set_conv_nth)
    then have "idx \<le> i" using r(2) by (metis le_less_linear order_refl)
    then have "idx < length keys" using i(1) by simp
    then show ?thesis using r(3) sorted_nth_mono [OF assms(1) \<open>idx \<le> i\<close> i(1)] i(2) by auto
  qed
  then show ?thesis using r(1) by (auto simp: idx_def [symmetric] Let_def)
qed

section \<open>Buckets\<close>

lemma bucket_of_add:
  "bucket_of (bucket_add k v bs) k' = (if k' = k then bucket_of bs k @ [v] else bucket_of bs k')"
  by (induction k v bs rule: bucket_add.induct) (auto simp: bucket_of_def)

lemma keys_bucket_add: "fst ` set (bucket_add k v bs) = insert k (fst ` set bs)"
  by (induction k v bs rule: bucket_add.induct) auto

lemma distinct_bucket_add: "distinct (map fst bs) \<Longrightarrow> distinct (map fst (bucket_add k v bs))"
proof (induction k v bs rule: bucket_add.induct)
  case (2 k v k' vs bs)
  then show ?case using keys_bucket_add [of k v bs] by auto
qed simp

lemma bucket_of_fold:
  "bucket_of (fold (\<lambda>x. bucket_add (key x) (val x)) xs bs) k =
     bucket_of bs k @ map val (filter (\<lambda>x. key x = k) xs)"
  by (induction xs arbitrary: bs) (auto simp: bucket_of_add)

lemma keys_bucket_fold:
  "fst ` set (fold (\<lambda>x. bucket_add (key x) (val x)) xs bs) = fst ` set bs \<union> key ` set xs"
  by (induction xs arbitrary: bs) (auto simp: keys_bucket_add)

lemma distinct_bucket_fold:
  "distinct (map fst bs) \<Longrightarrow> distinct (map fst (fold (\<lambda>x. bucket_add (key x) (val x)) xs bs))"
  by (induction xs arbitrary: bs) (simp_all add: distinct_bucket_add)

primrec starts_from :: "nat \<Rightarrow> nat list \<Rightarrow> nat list" where
  "starts_from a [] = [a]"
| "starts_from a (l # ls) = a # starts_from (a + l) ls"

lemma length_starts_from [simp]: "length (starts_from a ls) = Suc (length ls)"
  by (induction ls arbitrary: a) simp_all

lemma nth_starts_from: "i \<le> length ls \<Longrightarrow> starts_from a ls ! i = a + sum_list (take i ls)"
proof (induction ls arbitrary: a i)
  case (Cons l ls)
  then show ?case by (cases i) auto
qed simp

text \<open>What a loop over keys leaves: the rows of the keys one after the other.\<close>

definition key_rows :: "CampaignAuctionRegistry \<Rightarrow> ('k \<Rightarrow> nat list) \<Rightarrow> 'k \<Rightarrow> candidate list" where
  "key_rows reg js k = concat (map (campaign_rows reg) (js k))"

lemma fill_buckets_rows:
  assumes "columns_wf reg" "creatives_wf reg" "\<And>k i. i \<in> set (js k) \<Longrightarrow> i < Count reg"
  shows "fill_buckets reg (\<lambda>k. map u32_of (js k)) ks (soa_of rs) =
    Some (map u32_of (starts_from (length rs) (map (length \<circ> key_rows reg js) ks)),
      soa_of (rs @ concat (map (key_rows reg js) ks)))"
proof (induction ks arbitrary: rs)
  case (Cons k ks)
  have "foldM_opt (appendBucketCandidate reg) (map u32_of (js k)) (soa_of rs) = Some (soa_of (rs @ key_rows reg js k))"
    unfolding key_rows_def by (rule appendBucketCandidates_rows [OF assms(1,2)]) (use assms(3) in blast)
  then show ?case using Cons.IH [of "rs @ key_rows reg js k"] by simp
qed simp

lemma window_concat:
  "i < length ks \<Longrightarrow> window (concat (map R ks)) (sum_list (take i (map (length \<circ> R) ks)))
     (sum_list (take (Suc i) (map (length \<circ> R) ks))) = R (ks ! i)"
proof (induction ks arbitrary: i)
  case (Cons k ks)
  then show ?case by (cases i) (auto simp: window_def)
qed simp

lemma sum_take_le: "sum_list (take i (ls :: nat list)) \<le> sum_list ls"
  by (metis append_take_drop_id le_add1 sum_list_append)

text \<open>Looking a key up: bisection over the sorted keys, then the two neighbouring starts.\<close>

definition range_lookup :: "'k::linorder list \<Rightarrow> u32 list \<Rightarrow> 'k \<Rightarrow> (nat \<times> nat) option" where
  "range_lookup keys starts x =
     (let idx = Search (length keys) (\<lambda>i. keys ! i \<ge> x)
      in if length keys \<le> idx \<or> keys ! idx \<noteq> x then None
         else Some (unat (starts ! idx), unat (starts ! (idx + 1))))"

lemma range_lookup_rows:
  fixes keys :: "'k::linorder list"
  assumes "sorted keys" "distinct keys" and small: "length (concat (map R keys)) < 2 ^ 32"
    and starts: "starts = map u32_of (starts_from 0 (map (length \<circ> R) keys))"
  shows "if x \<in> set keys
    then \<exists>s e. range_lookup keys starts x = Some (s, e) \<and> s \<le> e \<and> e \<le> length (concat (map R keys)) \<and>
      window (concat (map R keys)) s e = R x
    else range_lookup keys starts x = None"
proof -
  define idx where "idx = Search (length keys) (\<lambda>i. keys ! i \<ge> x)"
  have idx: "x \<in> set keys \<longleftrightarrow> idx < length keys \<and> keys ! idx = x"
    using Search_sorted [OF assms(1,2), of x] by (simp add: Let_def idx_def)
  show ?thesis
  proof (cases "x \<in> set keys")
    case False
    then show ?thesis using idx by (auto simp: range_lookup_def Let_def idx_def [symmetric])
  next
    case True
    then have i: "idx < length keys" "keys ! idx = x" using idx by auto
    let ?L = "map (length \<circ> R) keys"
    have total: "length (concat (map R keys)) = sum_list ?L" by (simp add: length_concat comp_def)
    have "unat (starts ! j) = sum_list (take j ?L)" if "j \<le> length keys" for j
      using that small sum_take_le [of j ?L] by (simp add: starts nth_starts_from total)
    moreover have "sum_list (take idx ?L) \<le> sum_list (take (Suc idx) ?L)"
      using i(1) by (simp add: take_Suc_conv_app_nth)
    ultimately show ?thesis
      using True i window_concat [of idx keys R] sum_take_le [of "Suc idx" ?L] total
      by (auto simp: range_lookup_def Let_def idx_def [symmetric])
  qed
qed

section \<open>The geo index is exact\<close>

definition geo_members :: "CampaignAuctionRegistry \<Rightarrow> u32 \<Rightarrow> nat list" where
  "geo_members reg geo = filter (\<lambda>i. GeoHashes reg ! i = geo) [0..<Count reg]"

lemma geo_buckets_spec:
  "bucket_of (geo_buckets h n) g = map u32_of (filter (\<lambda>i. h ! i = g) [0..<n])"
  "fst ` set (geo_buckets h n) = (!) h ` {0..<n}"
  "distinct (map fst (geo_buckets h n))"
proof -
  have eq: "geo_buckets h n = fold (\<lambda>i. bucket_add (h ! i) (u32_of i)) [0..<n] []" by (simp add: geo_buckets_def)
  show "bucket_of (geo_buckets h n) g = map u32_of (filter (\<lambda>i. h ! i = g) [0..<n])"
    unfolding eq bucket_of_fold by (simp add: bucket_of_def)
  show "fst ` set (geo_buckets h n) = (!) h ` {0..<n}"
    unfolding eq keys_bucket_fold by auto
  show "distinct (map fst (geo_buckets h n))"
    unfolding eq by (rule distinct_bucket_fold) simp
qed

text \<open>What \<open>buildGeoIndex\<close> leaves in the registry.\<close>

definition geo_keys :: "CampaignAuctionRegistry \<Rightarrow> u32 list" where
  "geo_keys reg = sort (map fst (geo_buckets (GeoHashes reg) (Count reg)))"

definition geo_rows :: "CampaignAuctionRegistry \<Rightarrow> candidate list" where
  "geo_rows reg = concat (map (key_rows reg (geo_members reg)) (geo_keys reg))"

definition geo_starts :: "CampaignAuctionRegistry \<Rightarrow> u32 list" where
  "geo_starts reg = map u32_of (starts_from 0 (map (length \<circ> key_rows reg (geo_members reg)) (geo_keys reg)))"

lemma geo_keys_facts: "sorted (geo_keys reg)" "distinct (geo_keys reg)"
    "set (geo_keys reg) = (!) (GeoHashes reg) ` {0..<Count reg}"
    "length (geo_keys reg) = length (geo_buckets (GeoHashes reg) (Count reg))"
  using geo_buckets_spec(2,3) [of "GeoHashes reg" "Count reg"] by (simp_all add: geo_keys_def)

lemma buildGeoIndex_result:
  assumes "columns_wf reg" "creatives_wf reg" "0 < Count reg"
  shows "buildGeoIndex reg = Some (reg\<lparr>GeoBucketCount := length (geo_keys reg), GeoBucketHash := geo_keys reg,
    GeoBucketStart := geo_starts reg, GeoBucketSoA := soa_of (geo_rows reg)\<rparr>)"
proof -
  have "bucket_of (geo_buckets (GeoHashes reg) (Count reg)) = (\<lambda>g. map u32_of (geo_members reg g))"
    by (simp add: fun_eq_iff geo_buckets_spec(1) geo_members_def)
  moreover have "fill_buckets reg (\<lambda>g. map u32_of (geo_members reg g)) (geo_keys reg) (soa_of []) =
      Some (geo_starts reg, soa_of (geo_rows reg))"
    using fill_buckets_rows [OF assms(1,2), of "geo_members reg" "geo_keys reg" "[]"]
    by (simp add: geo_starts_def geo_rows_def geo_members_def)
  ultimately show ?thesis
    using assms by (simp add: buildGeoIndex_def columns_wf_def Let_def geo_keys_def [symmetric] geo_keys_facts(4))
qed

lemma geoRange_lookup:
  "geoRange (reg\<lparr>GeoBucketCount := length keys, GeoBucketHash := keys, GeoBucketStart := starts, GeoBucketSoA := soa\<rparr>) geo =
    (if keys = [] then None else range_lookup keys starts geo)"
  by (simp add: geoRange_def range_lookup_def Let_def)

end
