(* ===== verification/RtbIndex.thy ===== *)
theory RtbIndex
  imports RtbCatalog "HOL-Library.Multiset"
begin

text \<open>
  What the two indexes of a catalog shard promise: a lookup returns exactly the candidate
  rows of the campaigns that belong to the key, whether by geography alone or by
  geography, device and category, and sorting a bucket only permutes its rows. The
  targeting index agrees with the geo index for requests that name one device and one
  category.
\<close>

text \<open>The rows from \<open>s\<close> to \<open>e\<close> of a bucket, as the auction reads them.\<close>

definition bucket_rows :: "candidateBucketSoA \<Rightarrow> nat \<Rightarrow> nat \<Rightarrow> candidate list" where
  "bucket_rows soa s e = map (cand_at soa) [s..<e]"

lemma bucket_rows_window: "e \<le> length rs \<Longrightarrow> bucket_rows (soa_of rs) s e = window rs s e"
  unfolding bucket_rows_def by (rule nth_equalityI) (auto simp: window_def)

section \<open>The targeting index is exact\<close>

lemma targeting_buckets_flat:
  "targeting_buckets reg = fold (\<lambda>p. bucket_add (fst p) (u32_of (snd p)))
     (concat (map (\<lambda>i. map (\<lambda>k. (k, i)) (targeting_keys reg i)) [0..<Count reg])) []"
proof -
  have "fold (\<lambda>i bs. fold (\<lambda>k. bucket_add k (u32_of i)) (targeting_keys reg i) bs) is bs =
      fold (\<lambda>p. bucket_add (fst p) (u32_of (snd p))) (concat (map (\<lambda>i. map (\<lambda>k. (k, i)) (targeting_keys reg i)) is)) bs"
    for "is" bs
    by (induction "is" arbitrary: bs) (simp_all add: fold_map comp_def)
  then show ?thesis by (simp add: targeting_buckets_def)
qed

definition target_members :: "CampaignAuctionRegistry \<Rightarrow> u64 \<Rightarrow> nat list" where
  "target_members reg k = filter (\<lambda>i. k \<in> set (targeting_keys reg i)) [0..<Count reg]"

lemma filter_once: "distinct xs \<Longrightarrow> filter (\<lambda>x. x = k) xs = (if k \<in> set xs then [k] else [])"
  by (induction xs) auto

lemma members_flat:
  assumes "\<And>i. i \<in> set is \<Longrightarrow> distinct (f i)"
  shows "map snd (filter (\<lambda>p. fst p = k) (concat (map (\<lambda>i. map (\<lambda>x. (x, i)) (f i)) is))) =
    filter (\<lambda>i. k \<in> set (f i)) is"
  using assms
proof (induction "is")
  case (Cons i "is")
  have "map snd (filter (\<lambda>p. fst p = k) (map (\<lambda>x. (x, i)) (f i))) = map (\<lambda>x. i) (filter (\<lambda>x. x = k) (f i))"
    by (simp add: filter_map comp_def)
  then show ?case using Cons by (simp add: filter_once)
qed simp

text \<open>Keys are injective in the geography and the two bit positions.\<close>

lemma trailing_zeros_le: "trailing_zeros n w \<le> n"
  unfolding trailing_zeros_def by (rule order_trans [OF length_takeWhile_le]) simp

lemma trailing_zeros_bit:
  assumes "b < n" "n \<le> LENGTH('a)"
  shows "trailing_zeros n (push_bit b 1 :: 'a::len word) = b"
proof -
  have bits: "bit (push_bit b 1 :: 'a word) k \<longleftrightarrow> k = b" if "k < n" for k
    using that assms by (auto simp: bit_exp_iff)
  have "[0..<n] = [0..<b] @ b # [Suc b..<n]"
    using assms(1) upt_add_eq_append [of 0 b "n - b"] by (simp add: upt_conv_Cons)
  moreover have "takeWhile (\<lambda>k. \<not> bit (push_bit b 1 :: 'a word) k) ([0..<b] @ b # [Suc b..<n]) = [0..<b]"
    using bits assms(1) by (subst takeWhile_append2) auto
  ultimately show ?thesis by (simp add: trailing_zeros_def)
qed

lemma bit_small:
  assumes "n < 65536" "bit (u64_of n) k"
  shows "k < 16"
proof -
  have "take_bit 16 n = n" using assms(1) by (simp add: take_bit_nat_eq_self)
  then have "u64_of n = take_bit 16 (u64_of n)" by (simp add: u64_of_def take_bit_of_nat)
  then show ?thesis using assms(2) by (metis bit_take_bit_iff)
qed

lemma key_parts:
  fixes g :: u32
  assumes "d < 65536" "c < 65536"
  defines "key \<equiv> push_bit 32 (ucast g) OR push_bit 16 (u64_of d) OR u64_of c"
  shows "take_bit 16 key = u64_of c" "take_bit 16 (drop_bit 16 key) = u64_of d" "ucast (drop_bit 32 key) = g"
proof -
  have c: "16 \<le> k \<Longrightarrow> \<not> bit (u64_of c) k" and d: "16 \<le> k \<Longrightarrow> \<not> bit (u64_of d) k" for k
    using bit_small [OF assms(1), of k] bit_small [OF assms(2), of k] by linarith+
  show "take_bit 16 key = u64_of c"
    by (rule bit_word_eqI) (auto simp: key_def bit_simps dest: bit_small [OF assms(2)])
  show "take_bit 16 (drop_bit 16 key) = u64_of d"
    by (rule bit_word_eqI) (auto simp: key_def bit_simps c dest: bit_small [OF assms(1)])
  show "ucast (drop_bit 32 key) = g"
    by (rule bit_word_eqI) (auto simp: key_def bit_simps c d)
qed

lemma targetingBucketKey_inj:
  "targetingBucketKey g d c = targetingBucketKey g' d' c' \<longleftrightarrow>
    g = g' \<and> trailing_zeros 8 d = trailing_zeros 8 d' \<and> trailing_zeros 64 c = trailing_zeros 64 c'"
proof
  assume eq: "targetingBucketKey g d c = targetingBucketKey g' d' c'"
  have small: "trailing_zeros 8 w < 65536" "trailing_zeros 64 v < 65536" for w :: u8 and v :: u64
    using trailing_zeros_le [of 8 w] trailing_zeros_le [of 64 v] by linarith+
  note p = key_parts [OF small(1) [of d] small(2) [of c], of g]
    key_parts [OF small(1) [of d'] small(2) [of c'], of g']
  have "u64_of (trailing_zeros 8 d) = u64_of (trailing_zeros 8 d')" "u64_of (trailing_zeros 64 c) = u64_of (trailing_zeros 64 c')"
      "g = g'"
    using p eq unfolding targetingBucketKey_def Let_def by metis+
  moreover have "a = b" if "a < 65536" "b < 65536" "u64_of a = u64_of b" for a b
    using arg_cong [OF that(3), of unat] that(1,2) by simp
  ultimately show "g = g' \<and> trailing_zeros 8 d = trailing_zeros 8 d' \<and> trailing_zeros 64 c = trailing_zeros 64 c'"
    using small by metis
qed (simp add: targetingBucketKey_def)

lemma and_bit_iff: "k < LENGTH('a) \<Longrightarrow> (m :: 'a::len word) AND push_bit k 1 \<noteq> 0 \<longleftrightarrow> bit m k"
  by (auto simp: bit_eq_iff [where 'a = "'a word"] bit_and_iff bit_exp_iff)

lemma push_bit_1_inj:
  assumes "a < LENGTH('a)" "b < LENGTH('a)"
  shows "push_bit a (1 :: 'a::len word) = push_bit b 1 \<longleftrightarrow> a = b"
  using trailing_zeros_bit [OF assms(1) order_refl] trailing_zeros_bit [OF assms(2) order_refl] by metis

lemma device_bits: "set (forEachDeviceBit m) = {push_bit k 1 | k. k < 8 \<and> bit m k}" "distinct (forEachDeviceBit m)"
proof -
  show "set (forEachDeviceBit m) = {push_bit k 1 | k. k < 8 \<and> bit m k}"
    using and_bit_iff [where 'a = 8, of _ m] by (auto simp: forEachDeviceBit_def simp del: push_bit_of_1)
  show "distinct (forEachDeviceBit m)"
    using push_bit_1_inj [where 'a = 8]
    by (auto simp: forEachDeviceBit_def distinct_map inj_on_def simp del: push_bit_of_1 intro!: distinct_filter)
qed

lemma category_bits:
  "set (forEachCategoryBit m) = {push_bit k 1 | k. k < 64 \<and> (if m = 0 then k = 0 else bit m k)}"
  "distinct (forEachCategoryBit m)"
proof -
  show "set (forEachCategoryBit m) = {push_bit k 1 | k. k < 64 \<and> (if m = 0 then k = 0 else bit m k)}"
    using and_bit_iff [where 'a = 64, of _ m] by (auto simp: forEachCategoryBit_def simp del: push_bit_of_1)
  show "distinct (forEachCategoryBit m)"
    using push_bit_1_inj [where 'a = 64]
    by (auto simp: forEachCategoryBit_def distinct_map inj_on_def simp del: push_bit_of_1 intro!: distinct_filter)
qed

lemma targeting_keys_product:
  "targeting_keys reg i = map (\<lambda>(d, c). targetingBucketKey (GeoHashes reg ! i) d c)
     (List.product (forEachDeviceBit (DeviceMasks reg ! i)) (forEachCategoryBit (CategoryMasks reg ! i)))"
  by (simp add: targeting_keys_def product_concat_map map_concat comp_def)

lemma distinct_targeting_keys: "distinct (targeting_keys reg i)"
proof -
  have "inj_on (\<lambda>(d, c). targetingBucketKey g d c) (set (forEachDeviceBit m) \<times> set (forEachCategoryBit n))" for g m n
    by (rule inj_onI) (auto simp: device_bits category_bits targetingBucketKey_inj trailing_zeros_bit
        simp del: push_bit_of_1)
  then show ?thesis
    by (simp add: targeting_keys_product distinct_map distinct_product device_bits(2) category_bits(2))
qed

lemma image_pairs:
  "(\<lambda>(x, y). f x y) ` ({g k | k. P k} \<times> {h k | k. Q k}) = {f (g a) (h b) | a b. P a \<and> Q b}"
  by (auto simp: image_iff)

lemma targeting_keys_iff:
  assumes "a < 8" "b < 64"
  shows "targetingBucketKey g (push_bit a 1) (push_bit b 1) \<in> set (targeting_keys reg i) \<longleftrightarrow>
    GeoHashes reg ! i = g \<and> bit (DeviceMasks reg ! i) a \<and>
    (if CategoryMasks reg ! i = 0 then b = 0 else bit (CategoryMasks reg ! i) b)"
proof -
  define K where "K g' a' b' = targetingBucketKey g' (push_bit a' 1) (push_bit b' 1)" for g' a' b'
  have inj: "K g a b = K g' a' b' \<longleftrightarrow> g = g' \<and> a = a' \<and> b = b'" if "a' < 8" "b' < 64" for g' a' b'
    using assms that by (simp add: K_def targetingBucketKey_inj trailing_zeros_bit del: push_bit_of_1)
  have "set (targeting_keys reg i) = {K (GeoHashes reg ! i) a' b' | a' b'.
      (a' < 8 \<and> bit (DeviceMasks reg ! i) a') \<and>
      (b' < 64 \<and> (if CategoryMasks reg ! i = 0 then b' = 0 else bit (CategoryMasks reg ! i) b'))}"
    unfolding K_def targeting_keys_product set_map set_product device_bits(1) category_bits(1) by (rule image_pairs)
  then have "K g a b \<in> set (targeting_keys reg i) \<longleftrightarrow> GeoHashes reg ! i = g \<and> bit (DeviceMasks reg ! i) a \<and>
      (if CategoryMasks reg ! i = 0 then b = 0 else bit (CategoryMasks reg ! i) b)"
    using assms by (auto simp: inj)
  then show ?thesis by (simp only: K_def)
qed

definition target_keys :: "CampaignAuctionRegistry \<Rightarrow> u64 list" where
  "target_keys reg = sort (map fst (targeting_buckets reg))"

definition target_rows :: "CampaignAuctionRegistry \<Rightarrow> candidate list" where
  "target_rows reg = concat (map (key_rows reg (target_members reg)) (target_keys reg))"

definition target_starts :: "CampaignAuctionRegistry \<Rightarrow> u32 list" where
  "target_starts reg = map u32_of (starts_from 0 (map (length \<circ> key_rows reg (target_members reg)) (target_keys reg)))"

lemma targeting_buckets_spec:
  "bucket_of (targeting_buckets reg) k = map u32_of (target_members reg k)"
  "fst ` set (targeting_buckets reg) = (\<Union>i\<in>{0..<Count reg}. set (targeting_keys reg i))"
  "distinct (map fst (targeting_buckets reg))"
proof -
  let ?ps = "concat (map (\<lambda>i. map (\<lambda>k. (k, i)) (targeting_keys reg i)) [0..<Count reg])"
  show "bucket_of (targeting_buckets reg) k = map u32_of (target_members reg k)"
    unfolding targeting_buckets_flat bucket_of_fold target_members_def
      members_flat [of "[0..<Count reg]" "targeting_keys reg" k, OF distinct_targeting_keys, symmetric]
    by (simp add: bucket_of_def)
  show "fst ` set (targeting_buckets reg) = (\<Union>i\<in>{0..<Count reg}. set (targeting_keys reg i))"
    unfolding targeting_buckets_flat keys_bucket_fold by force
  show "distinct (map fst (targeting_buckets reg))"
    unfolding targeting_buckets_flat by (rule distinct_bucket_fold) simp
qed

lemma target_keys_facts: "sorted (target_keys reg)" "distinct (target_keys reg)"
    "set (target_keys reg) = {k. target_members reg k \<noteq> []}"
    "length (target_keys reg) = length (targeting_buckets reg)"
  using targeting_buckets_spec(2,3) [of reg]
  by (auto simp: target_keys_def target_members_def filter_empty_conv)

lemma buildTargetingIndex_result:
  assumes "columns_wf reg" "creatives_wf reg" "0 < Count reg"
  shows "buildTargetingIndex reg = Some (reg\<lparr>TargetBucketCount := length (target_keys reg),
    TargetBucketKey := target_keys reg, TargetBucketStart := target_starts reg, TargetBucketSoA := soa_of (target_rows reg)\<rparr>)"
proof -
  have "bucket_of (targeting_buckets reg) = (\<lambda>k. map u32_of (target_members reg k))"
    by (simp add: fun_eq_iff targeting_buckets_spec(1))
  moreover have "fill_buckets reg (\<lambda>k. map u32_of (target_members reg k)) (target_keys reg) (soa_of []) =
      Some (target_starts reg, soa_of (target_rows reg))"
    using fill_buckets_rows [OF assms(1,2), of "target_members reg" "target_keys reg" "[]"]
    by (simp add: target_starts_def target_rows_def target_members_def)
  ultimately show ?thesis
    using assms by (simp add: buildTargetingIndex_def columns_wf_def Let_def target_keys_def [symmetric] target_keys_facts(4))
qed

lemma targetingRange_lookup:
  "targetingRange (reg\<lparr>TargetBucketCount := length keys, TargetBucketKey := keys, TargetBucketStart := starts,
      TargetBucketSoA := soa\<rparr>) geo dev cat =
    (if keys = [] then None
     else range_lookup keys starts (targetingBucketKey geo (if dev = 0 then 1 else dev) (if cat = 0 then 1 else cat)))"
  by (simp add: targetingRange_def range_lookup_def Let_def)

section \<open>What the lookups return\<close>

lemma geo_lookup:
  assumes "columns_wf reg" "creatives_wf reg" "length (geo_rows reg) < 2 ^ 32" "buildGeoIndex reg = Some reg'"
  shows "case geoRange reg' geo of
      None \<Rightarrow> geo_members reg geo = []
    | Some (s, e) \<Rightarrow> s \<le> e \<and> e \<le> bucket_len (GeoBucketSoA reg') \<and>
        bucket_rows (GeoBucketSoA reg') s e = key_rows reg (geo_members reg) geo"
proof (cases "Count reg = 0")
  case True
  then have "GeoBucketCount reg' = 0" using assms(4) by (auto simp: buildGeoIndex_def)
  then show ?thesis using True by (simp add: geoRange_def geo_members_def)
next
  case False
  have reg': "reg' = reg\<lparr>GeoBucketCount := length (geo_keys reg), GeoBucketHash := geo_keys reg,
      GeoBucketStart := geo_starts reg, GeoBucketSoA := soa_of (geo_rows reg)\<rparr>"
    using buildGeoIndex_result [OF assms(1,2)] False assms(4) by simp
  have ne: "geo_keys reg \<noteq> []" using False geo_keys_facts(3) [of reg] by (metis empty_iff atLeastLessThan_iff image_eqI list.set(1) not_gr_zero order_refl)
  have "geo \<in> set (geo_keys reg) \<longleftrightarrow> geo_members reg geo \<noteq> []"
    by (auto simp: geo_keys_facts(3) geo_members_def filter_empty_conv)
  then show ?thesis
    using range_lookup_rows [OF geo_keys_facts(1,2) [of reg], of "key_rows reg (geo_members reg)" "geo_starts reg" geo] assms(3)
    unfolding reg' geoRange_lookup geo_rows_def [symmetric]
    by (auto simp: ne geo_starts_def bucket_rows_window split: if_splits)
qed

lemma target_lookup:
  assumes "columns_wf reg" "creatives_wf reg" "length (target_rows reg) < 2 ^ 32" "buildTargetingIndex reg = Some reg'"
    and key: "key = targetingBucketKey geo (if dev = 0 then 1 else dev) (if cat = 0 then 1 else cat)"
  shows "case targetingRange reg' geo dev cat of
      None \<Rightarrow> target_members reg key = []
    | Some (s, e) \<Rightarrow> s \<le> e \<and> e \<le> bucket_len (TargetBucketSoA reg') \<and>
        bucket_rows (TargetBucketSoA reg') s e = key_rows reg (target_members reg) key"
proof (cases "Count reg = 0")
  case True
  then have "TargetBucketCount reg' = 0" using assms(4) by (auto simp: buildTargetingIndex_def)
  then show ?thesis using True by (simp add: targetingRange_def target_members_def)
next
  case False
  have reg': "reg' = reg\<lparr>TargetBucketCount := length (target_keys reg), TargetBucketKey := target_keys reg,
      TargetBucketStart := target_starts reg, TargetBucketSoA := soa_of (target_rows reg)\<rparr>"
    using buildTargetingIndex_result [OF assms(1,2)] False assms(4) by simp
  have mem: "key \<in> set (target_keys reg) \<longleftrightarrow> target_members reg key \<noteq> []" by (simp add: target_keys_facts(3))
  show ?thesis
    using range_lookup_rows [OF target_keys_facts(1,2) [of reg], of "key_rows reg (target_members reg)" "target_starts reg" key]
      assms(3) mem
    unfolding reg' targetingRange_lookup target_rows_def [symmetric] key [symmetric]
    by (auto simp: target_starts_def bucket_rows_window split: if_splits)
qed


lemma campaign_rows_masks:
  "r \<in> set (campaign_rows reg i) \<Longrightarrow> ca_DeviceMask r = DeviceMasks reg ! i \<and> ca_CategoryMask r = CategoryMasks reg ! i"
  by (auto simp: campaign_rows_def creative_cand_def base_cand_def Let_def split: option.splits)

text \<open>The device and category tests of the auction.\<close>

definition fits_request :: "u8 \<Rightarrow> u64 \<Rightarrow> candidate \<Rightarrow> bool" where
  "fits_request dev cat r \<longleftrightarrow> ca_DeviceMask r AND dev \<noteq> 0 \<and> ca_CategoryMask r AND cat \<noteq> 0"

lemma filter_key_rows:
  assumes "\<And>i r. r \<in> set (campaign_rows reg i) \<Longrightarrow> P r \<longleftrightarrow> Q i"
  shows "filter P (key_rows reg js k) = concat (map (campaign_rows reg) (filter Q (js k)))"
proof -
  have "filter P (concat (map (campaign_rows reg) is)) = concat (map (campaign_rows reg) (filter Q is))" for "is"
  proof (induction "is")
    case (Cons i "is")
    have "filter P (campaign_rows reg i) = (if Q i then campaign_rows reg i else [])"
      using assms [of _ i] by (auto simp: filter_id_conv filter_empty_conv)
    then show ?case using Cons by simp
  qed simp
  then show ?thesis by (simp add: key_rows_def)
qed

lemma buildGeoIndex_shape:
  assumes "buildGeoIndex reg = Some reg1"
  shows "reg1 = reg\<lparr>GeoBucketCount := GeoBucketCount reg1, GeoBucketHash := GeoBucketHash reg1,
    GeoBucketStart := GeoBucketStart reg1, GeoBucketSoA := GeoBucketSoA reg1\<rparr>"
  using assms by (auto simp: buildGeoIndex_def Let_def Option.bind_eq_Some_conv split: if_splits)

lemma unaffected_by_geo_index:
  assumes "buildGeoIndex reg = Some reg1"
  shows "campaign_rows reg1 = campaign_rows reg" "target_members reg1 = target_members reg"
    "columns_wf reg1 = columns_wf reg" "creatives_wf reg1 = creatives_wf reg" "target_rows reg1 = target_rows reg"
    "Count reg1 = Count reg"
proof -
  obtain n h st soa where r: "reg1 = reg\<lparr>GeoBucketCount := n, GeoBucketHash := h, GeoBucketStart := st, GeoBucketSoA := soa\<rparr>"
    by (rule that [OF buildGeoIndex_shape [OF assms]])
  show rows: "campaign_rows reg1 = campaign_rows reg"
    unfolding r by (rule ext) (simp add: campaign_rows_def campaignCreativeRange_def creative_cand_def base_cand_def Let_def cong: option.case_cong)
  show mem: "target_members reg1 = target_members reg"
    unfolding r by (rule ext) (simp add: target_members_def targeting_keys_def)
  show "columns_wf reg1 = columns_wf reg" "creatives_wf reg1 = creatives_wf reg" "Count reg1 = Count reg"
    unfolding r by (simp_all add: columns_wf_def creatives_wf_def)
  have "targeting_buckets reg1 = targeting_buckets reg"
    unfolding r by (simp add: targeting_buckets_def targeting_keys_def)
  then show "target_rows reg1 = target_rows reg"
    by (simp add: target_rows_def target_keys_def key_rows_def [abs_def] rows mem)
qed

text \<open>C14. For a request that names one device type and one category the targeting index is
  equivalent to the geo index: the rows of its bucket that pass the device and category
  tests are those of the geo bucket, in the same order.\<close>

theorem targetingRange_equivalent_to_geoRange:
  assumes "columns_wf reg" and "creatives_wf reg" and "length (geo_rows reg) < 2 ^ 32"
    and "length (target_rows reg) < 2 ^ 32"
    and "buildGeoIndex reg = Some reg1" and "buildTargetingIndex reg1 = Some reg2"
    and "a < 8" and "b < 64" and "dev = push_bit a 1" and "cat = push_bit b 1"
    and "targetingRange reg2 geo dev cat = Some (s, e)" and "geoRange reg1 geo = Some (s', e')"
  shows "filter (fits_request dev cat) (bucket_rows (TargetBucketSoA reg2) s e) =
    filter (fits_request dev cat) (bucket_rows (GeoBucketSoA reg1) s' e')"
proof -
  note same = unaffected_by_geo_index [OF assms(5)]
  let ?key = "targetingBucketKey geo dev cat"
  let ?Q = "\<lambda>i. DeviceMasks reg ! i AND dev \<noteq> 0 \<and> CategoryMasks reg ! i AND cat \<noteq> 0"
  have nz: "dev \<noteq> 0" "cat \<noteq> 0"
    using and_bit_iff [of a "dev"] and_bit_iff [of b "cat"] assms(7-10) by (auto simp: bit_exp_iff)
  have t: "bucket_rows (TargetBucketSoA reg2) s e = key_rows reg (target_members reg) ?key"
    using target_lookup [of reg1 reg2 ?key geo dev cat] assms(1,2,4,6,11) nz
    by (simp add: same key_rows_def)
  have g: "bucket_rows (GeoBucketSoA reg1) s' e' = key_rows reg (geo_members reg) geo"
    using geo_lookup [OF assms(1,2,3,5), of geo] assms(12) by simp
  have fits: "fits_request dev cat r \<longleftrightarrow> ?Q i" if "r \<in> set (campaign_rows reg i)" for r i
    using campaign_rows_masks [OF that] by (simp add: fits_request_def)
  have "i \<in> set (target_members reg ?key) \<and> ?Q i \<longleftrightarrow> i \<in> set (geo_members reg geo) \<and> ?Q i" for i
    using assms(7-10) and_bit_iff [of a "DeviceMasks reg ! i"] and_bit_iff [of b "CategoryMasks reg ! i"]
    by (auto simp: target_members_def geo_members_def targeting_keys_iff simp del: push_bit_of_1 split: if_splits)
  then have "filter ?Q (target_members reg ?key) = filter ?Q (geo_members reg geo)"
    unfolding target_members_def geo_members_def filter_filter by (intro filter_cong) auto
  then show ?thesis
    using filter_key_rows [of reg "fits_request dev cat" ?Q "target_members reg" ?key, OF fits]
      filter_key_rows [of reg "fits_request dev cat" ?Q "geo_members reg" geo, OF fits] t g by simp
qed

section \<open>Sorting permutes within a bucket\<close>

definition cand_score :: "candidate \<Rightarrow> int" where
  "cand_score r = effectiveScoreWithBoost (ca_Bid r) (ca_CTRPPM r) (ca_BoostPPM r)"

definition cand_less :: "candidate \<Rightarrow> candidate \<Rightarrow> bool" where
  "cand_less x y =
     (if cand_score x \<noteq> cand_score y then cand_score x > cand_score y
      else if ca_Weight x \<noteq> ca_Weight y then ca_Weight x > ca_Weight y
      else ca_Bid x > ca_Bid y)"

abbreviation in_order :: "candidate \<Rightarrow> candidate \<Rightarrow> bool" where
  "in_order x y \<equiv> \<not> cand_less y x"

lemma bucket_less_rows: "i < length rs \<Longrightarrow> j < length rs \<Longrightarrow> bucket_less (soa_of rs) i j = cand_less (rs ! i) (rs ! j)"
  by (simp add: bucket_less_def cand_less_def cand_score_def soa_of_def Let_def)

lemma in_order_trans: "in_order x y \<Longrightarrow> in_order y z \<Longrightarrow> in_order x z"
  by (auto simp: cand_less_def split: if_splits)

lemma in_order_asym: "cand_less x y \<Longrightarrow> in_order x y"
  by (auto simp: cand_less_def split: if_splits)

lemma length_swap_nth [simp]: "length (swap_nth i j xs) = length xs"
  by (simp add: swap_nth_def)

lemma mset_swap_nth: "i < length xs \<Longrightarrow> j < length xs \<Longrightarrow> mset (swap_nth i j xs) = mset xs"
  unfolding swap_nth_def by (rule mset_swap)

lemma window_swap_nth:
  assumes "e \<le> length rs" "i < e - s" "j < e - s"
  shows "window (swap_nth (s + i) (s + j) rs) s e = swap_nth i j (window rs s e)"
  using assms by (intro nth_equalityI) (auto simp: window_def swap_nth_def nth_list_update)

text \<open>\<open>permutes rs rs' s e\<close>: the rows outside \<open>[s, e)\<close> are as before, those inside are rearranged.\<close>

definition permutes :: "candidate list \<Rightarrow> candidate list \<Rightarrow> nat \<Rightarrow> nat \<Rightarrow> bool" where
  "permutes rs rs' s e \<longleftrightarrow> length rs' = length rs \<and> take s rs' = take s rs \<and> drop e rs' = drop e rs \<and>
     mset (window rs' s e) = mset (window rs s e)"

lemma permutes_swap:
  assumes "e \<le> length rs" "i < e - s" "j < e - s"
  shows "permutes rs (swap_nth (s + i) (s + j) rs) s e"
  using assms mset_swap_nth [of i "window rs s e" j]
  by (simp add: permutes_def window_swap_nth length_window) (simp add: swap_nth_def)

lemma permutes_trans: "permutes rs rs1 s e \<Longrightarrow> permutes rs1 rs2 s e \<Longrightarrow> permutes rs rs2 s e"
  by (simp add: permutes_def)

lemma run_swaps_permutes:
  assumes "e \<le> length rs" "\<forall>(i, j)\<in>set swaps. i < e - s \<and> j < e - s"
  shows "\<exists>rs'. run_swaps s swaps (soa_of rs) = soa_of rs' \<and> permutes rs rs' s e"
  using assms
proof (induction swaps arbitrary: rs)
  case Nil
  then show ?case by (auto simp: run_swaps_def permutes_def)
next
  case (Cons p swaps)
  obtain i j where p: "p = (i, j)" by (cases p)
  have ij: "i < e - s" "j < e - s" using Cons.prems(2) p by auto
  define rs1 where "rs1 = swap_nth (s + i) (s + j) rs"
  have "run_swaps s (p # swaps) (soa_of rs) = run_swaps s swaps (soa_of rs1)"
    using ij Cons.prems(1) by (simp add: run_swaps_def p rs1_def swapBucketSoA_soa_of)
  moreover have "permutes rs rs1 s e" unfolding rs1_def by (rule permutes_swap [OF Cons.prems(1) ij])
  moreover obtain rs' where "run_swaps s swaps (soa_of rs1) = soa_of rs'" "permutes rs1 rs' s e"
    using Cons.IH [of rs1] Cons.prems by (auto simp: rs1_def)
  ultimately show ?case using permutes_trans by metis
qed

lemma take_eq_window_eq: "take n xs = take n ys \<Longrightarrow> j \<le> n \<Longrightarrow> window xs i j = window ys i j"
proof -
  assume "take n xs = take n ys" "j \<le> n"
  then have "take j xs = take j ys" by (metis min.absorb1 take_take)
  then show ?thesis by (simp add: window_def drop_take [symmetric])
qed

text \<open>What the code relies on of \<open>sort.Sort\<close>: it swaps inside the slice only, and when it
  returns no element is less than one before it.\<close>

locale go_sorter =
  fixes sched :: sort_schedule
  assumes swaps_in_range: "s \<le> e \<Longrightarrow> e \<le> length rs \<Longrightarrow>
      \<forall>(i, j)\<in>set (sched (soa_of rs) s e). i < e - s \<and> j < e - s"
    and sorts: "s \<le> e \<Longrightarrow> e \<le> length rs \<Longrightarrow> run_swaps s (sched (soa_of rs) s e) (soa_of rs) = soa_of rs' \<Longrightarrow>
      sorted_wrt in_order (window rs' s e)"
begin

lemma sortBucketSoA_sorts:
  assumes "s \<le> e" "e \<le> length rs"
  shows "\<exists>rs'. sortBucketSoA sched (soa_of rs) s e = soa_of rs' \<and> permutes rs rs' s e \<and>
    sorted_wrt in_order (window rs' s e)"
proof (cases "e - s < 2")
  case True
  then have "length (window rs s e) \<le> 1" using assms by (simp add: window_def)
  then have "sorted_wrt in_order (window rs s e)"
    by (cases "window rs s e") auto
  then show ?thesis using True by (auto simp: sortBucketSoA_def permutes_def)
next
  case False
  obtain rs' where "run_swaps s (sched (soa_of rs) s e) (soa_of rs) = soa_of rs'" "permutes rs rs' s e"
    using run_swaps_permutes [OF assms(2) swaps_in_range [OF assms]] by blast
  then show ?thesis using sorts [OF assms] False by (auto simp: sortBucketSoA_def)
qed

lemma sort_all_sorts:
  assumes "\<And>i j. i \<le> j \<Longrightarrow> j \<le> n \<Longrightarrow> unat (starts ! i) \<le> unat (starts ! j)"
    and "unat (starts ! n) \<le> length rs"
  shows "\<exists>rs'. sort_all sched starts n (soa_of rs) = soa_of rs' \<and> length rs' = length rs \<and>
    drop (unat (starts ! n)) rs' = drop (unat (starts ! n)) rs \<and>
    (\<forall>i<n. mset (window rs' (unat (starts ! i)) (unat (starts ! Suc i))) =
        mset (window rs (unat (starts ! i)) (unat (starts ! Suc i))) \<and>
      sorted_wrt in_order (window rs' (unat (starts ! i)) (unat (starts ! Suc i))))"
  using assms
proof (induction n)
  case 0
  then show ?case by (auto simp: sort_all_def)
next
  case (Suc n)
  let ?st = "\<lambda>i. unat (starts ! i)"
  have le: "?st n \<le> ?st (Suc n)" using Suc.prems(1) by simp
  have mono: "\<And>i j. i \<le> j \<Longrightarrow> j \<le> n \<Longrightarrow> ?st i \<le> ?st j" using Suc.prems(1) by simp
  obtain rs1 where rs1: "sort_all sched starts n (soa_of rs) = soa_of rs1" "length rs1 = length rs"
      "drop (?st n) rs1 = drop (?st n) rs"
      "\<And>i. i < n \<Longrightarrow> mset (window rs1 (?st i) (?st (Suc i))) = mset (window rs (?st i) (?st (Suc i)))"
      "\<And>i. i < n \<Longrightarrow> sorted_wrt in_order (window rs1 (?st i) (?st (Suc i)))"
    using Suc.IH [OF mono] le Suc.prems(2) by auto
  obtain rs2 where rs2: "sortBucketSoA sched (soa_of rs1) (?st n) (?st (Suc n)) = soa_of rs2"
      "permutes rs1 rs2 (?st n) (?st (Suc n))" "sorted_wrt in_order (window rs2 (?st n) (?st (Suc n)))"
    using sortBucketSoA_sorts [OF le, of rs1] Suc.prems(2) rs1(2) by auto
  have before: "window rs2 (?st i) (?st (Suc i)) = window rs1 (?st i) (?st (Suc i))" if "i < n" for i
    using rs2(2) mono [of "Suc i" n] that take_eq_window_eq [of "?st n" rs2 rs1 "?st (Suc i)" "?st i"]
    by (simp add: permutes_def)
  have same: "window rs1 (?st n) (?st (Suc n)) = window rs (?st n) (?st (Suc n))"
    using rs1(3) by (simp add: window_def)
  have rest: "drop (?st (Suc n)) rs1 = drop (?st (Suc n)) rs"
    using rs1(3) drop_drop [of "?st (Suc n) - ?st n" "?st n"] le by (metis le_add_diff_inverse2)
  have "mset (window rs2 (?st i) (?st (Suc i))) = mset (window rs (?st i) (?st (Suc i))) \<and>
      sorted_wrt in_order (window rs2 (?st i) (?st (Suc i)))" if "i < Suc n" for i
  proof (cases "i = n")
    case True
    then show ?thesis using rs2(2,3) same by (simp add: permutes_def)
  next
    case False
    then show ?thesis using that rs1(4,5) [of i] before [of i] by simp
  qed
  moreover have "sort_all sched starts (Suc n) (soa_of rs) = soa_of rs2"
    using rs1(1) rs2(1) by (simp add: sort_all_def)
  ultimately show ?case using rs2(2) rs1(2) rest by (auto simp: permutes_def)
qed

end

text \<open>The insertion sort that \<open>sort.Sort\<close> uses on short slices.\<close>

fun sink_swaps :: "candidateBucketSoA \<Rightarrow> nat \<Rightarrow> nat \<Rightarrow> (nat \<times> nat) list" where
  "sink_swaps soa s 0 = []"
| "sink_swaps soa s (Suc j) =
     (if bucket_less soa (s + Suc j) (s + j)
      then (Suc j, j) # sink_swaps (swapBucketSoA soa (s + Suc j) (s + j)) s j else [])"

definition insertion_swaps :: "candidateBucketSoA \<Rightarrow> nat \<Rightarrow> nat \<Rightarrow> (nat \<times> nat) list" where
  "insertion_swaps soa s e =
     fst (fold (\<lambda>i (swaps, b). let new = sink_swaps b s i in (swaps @ new, run_swaps s new b))
       [1..<e - s] ([], soa))"

lemma run_swaps_append: "run_swaps s (xs @ ys) soa = run_swaps s ys (run_swaps s xs soa)"
  by (simp add: run_swaps_def)

lemma sink_swaps_in_range: "(a, b) \<in> set (sink_swaps soa s j) \<Longrightarrow> a \<le> j \<and> b \<le> j"
  by (induction soa s j rule: sink_swaps.induct) (auto split: if_splits)

fun sink :: "nat \<Rightarrow> nat \<Rightarrow> candidate list \<Rightarrow> candidate list" where
  "sink s 0 rs = rs"
| "sink s (Suc j) rs =
     (if cand_less (rs ! (s + Suc j)) (rs ! (s + j)) then sink s j (swap_nth (s + Suc j) (s + j) rs) else rs)"

lemma run_sink_swaps:
  "s + j < length rs \<Longrightarrow> run_swaps s (sink_swaps (soa_of rs) s j) (soa_of rs) = soa_of (sink s j rs)"
proof (induction j arbitrary: rs)
  case 0
  then show ?case by (simp add: run_swaps_def)
next
  case (Suc j)
  have sw: "swapBucketSoA (soa_of rs) (s + Suc j) (s + j) = soa_of (swap_nth (s + Suc j) (s + j) rs)"
    using Suc.prems by (intro swapBucketSoA_soa_of) auto
  have "run_swaps s (p # ps) b = run_swaps s ps (swapBucketSoA b (s + fst p) (s + snd p))" for p ps b
    by (simp add: run_swaps_def split_def)
  moreover have "run_swaps s [] b = b" for b
    by (simp add: run_swaps_def)
  ultimately show ?case
    using Suc.IH [of "swap_nth (s + Suc j) (s + j) rs"] Suc.prems
    by (simp add: bucket_less_rows sw del: add_Suc_right)
qed

lemma length_sink [simp]: "length (sink s j rs) = length rs"
  by (induction s j rs rule: sink.induct) auto

text \<open>While an element sinks, all the others are in order and it precedes those it has passed.\<close>

definition sinking :: "nat \<Rightarrow> nat \<Rightarrow> nat \<Rightarrow> candidate list \<Rightarrow> bool" where
  "sinking s i j rs \<longleftrightarrow> (\<forall>a b. a < b \<longrightarrow> b \<le> i \<longrightarrow> a \<noteq> j \<longrightarrow> b \<noteq> j \<longrightarrow> in_order (rs ! (s + a)) (rs ! (s + b))) \<and>
     (\<forall>b. j < b \<longrightarrow> b \<le> i \<longrightarrow> in_order (rs ! (s + j)) (rs ! (s + b)))"

definition ordered_upto :: "nat \<Rightarrow> nat \<Rightarrow> candidate list \<Rightarrow> bool" where
  "ordered_upto s i rs \<longleftrightarrow> (\<forall>a b. a < b \<longrightarrow> b \<le> i \<longrightarrow> in_order (rs ! (s + a)) (rs ! (s + b)))"

lemma sinking_swap:
  assumes "sinking s i (Suc j) rs" "cand_less (rs ! (s + Suc j)) (rs ! (s + j))" "s + i < length rs" "Suc j \<le> i"
  shows "sinking s i j (swap_nth (s + Suc j) (s + j) rs)"
proof -
  let ?rs = "swap_nth (s + Suc j) (s + j) rs"
  have n: "?rs ! (s + k) = (if k = j then rs ! (s + Suc j) else if k = Suc j then rs ! (s + j) else rs ! (s + k))"
    if "k \<le> i" for k
    using that assms(3,4) by (auto simp: swap_nth_def nth_list_update)
  have o: "a < b \<Longrightarrow> b \<le> i \<Longrightarrow> a \<noteq> Suc j \<Longrightarrow> b \<noteq> Suc j \<Longrightarrow> in_order (rs ! (s + a)) (rs ! (s + b))" for a b
    using assms(1) by (simp add: sinking_def)
  have p: "Suc j < b \<Longrightarrow> b \<le> i \<Longrightarrow> in_order (rs ! (s + Suc j)) (rs ! (s + b))" for b
    using assms(1) unfolding sinking_def by blast
  have "in_order (?rs ! (s + a)) (?rs ! (s + b))" if "a < b" "b \<le> i" "a \<noteq> j" "b \<noteq> j" for a b
    using that o [of a b] o [of a j] o [of j b] assms(4) by (auto simp: n simp del: add_Suc_right)
  moreover have "in_order (?rs ! (s + j)) (?rs ! (s + b))" if "j < b" "b \<le> i" for b
    using that p [of b] in_order_asym [OF assms(2)] by (cases "b = Suc j") (auto simp: n simp del: add_Suc_right)
  ultimately show ?thesis by (simp add: sinking_def)
qed

lemma sink_ordered:
  "sinking s i j rs \<Longrightarrow> s + i < length rs \<Longrightarrow> j \<le> i \<Longrightarrow> ordered_upto s i (sink s j rs)"
proof (induction s j rs rule: sink.induct)
  case (1 s rs)
  have "in_order (rs ! (s + a)) (rs ! (s + b))" if "a < b" "b \<le> i" for a b
    using 1(1) that by (cases "a = 0") (auto simp: sinking_def)
  then show ?case by (simp add: ordered_upto_def)
next
  case (2 s j rs)
  show ?case
  proof (cases "cand_less (rs ! (s + Suc j)) (rs ! (s + j))")
    case True
    then show ?thesis using 2 sinking_swap [OF 2(2) True] by simp
  next
    case False
    have o: "a < b \<Longrightarrow> b \<le> i \<Longrightarrow> a \<noteq> Suc j \<Longrightarrow> b \<noteq> Suc j \<Longrightarrow> in_order (rs ! (s + a)) (rs ! (s + b))" for a b
      using 2(2) by (simp add: sinking_def)
    have p: "Suc j < b \<Longrightarrow> b \<le> i \<Longrightarrow> in_order (rs ! (s + Suc j)) (rs ! (s + b))" for b
      using 2(2) unfolding sinking_def by blast
    have q: "in_order (rs ! (s + a)) (rs ! (s + Suc j))" if "a < Suc j" for a
    proof (cases "a = j")
      case True
      then show ?thesis using False by simp
    next
      case ne: False
      then have "in_order (rs ! (s + a)) (rs ! (s + j))" using o [of a j] that 2(4) by simp
      then show ?thesis using in_order_trans False by blast
    qed
    have "in_order (rs ! (s + a)) (rs ! (s + b))" if "a < b" "b \<le> i" for a b
      using o [of a b] p [of b] q [of a] that by (cases "a = Suc j"; cases "b = Suc j") (auto simp del: add_Suc_right)
    then show ?thesis using False by (simp add: ordered_upto_def)
  qed
qed

lemma sinking_start: "ordered_upto s i rs \<Longrightarrow> sinking s (Suc i) (Suc i) rs"
  by (auto simp: sinking_def ordered_upto_def)

lemma insertion_fold:
  assumes "s + n \<le> length rs" "1 \<le> n"
  shows "\<exists>swaps rs'. fold (\<lambda>i (swaps, b). let new = sink_swaps b s i in (swaps @ new, run_swaps s new b))
      [1..<n] ([], soa_of rs) = (swaps, soa_of rs') \<and> run_swaps s swaps (soa_of rs) = soa_of rs' \<and>
    length rs' = length rs \<and> (\<forall>(a, b)\<in>set swaps. a < n \<and> b < n) \<and> ordered_upto s (n - 1) rs'"
  using assms
proof (induction n)
  case (Suc n)
  show ?case
  proof (cases "n = 0")
    case True
    then show ?thesis by (auto simp: run_swaps_def ordered_upto_def)
  next
    case False
    obtain swaps rs1 where ih: "fold (\<lambda>i (swaps, b). let new = sink_swaps b s i in (swaps @ new, run_swaps s new b))
        [1..<n] ([], soa_of rs) = (swaps, soa_of rs1)" "run_swaps s swaps (soa_of rs) = soa_of rs1"
        "length rs1 = length rs" "\<forall>(a, b)\<in>set swaps. a < n \<and> b < n" "ordered_upto s (n - 1) rs1"
      using Suc.IH Suc.prems False by auto
    have run: "run_swaps s (sink_swaps (soa_of rs1) s n) (soa_of rs1) = soa_of (sink s n rs1)"
      using run_sink_swaps Suc.prems ih(3) by simp
    have "ordered_upto s n (sink s n rs1)"
      using sink_ordered [of s n n rs1] sinking_start [OF ih(5)] False Suc.prems ih(3) by simp
    moreover have "\<forall>(a, b)\<in>set (swaps @ sink_swaps (soa_of rs1) s n). a < Suc n \<and> b < Suc n"
      using ih(4) sink_swaps_in_range [of _ _ "soa_of rs1" s n] by (fastforce simp: less_Suc_eq_le)
    moreover have "[1..<Suc n] = [1..<n] @ [n]" using False by simp
    ultimately show ?thesis
      using ih(1,2,3) run by (auto simp: run_swaps_append Let_def intro!: exI [of _ "sink s n rs1"])
  qed
qed simp

interpretation insertion: go_sorter insertion_swaps
proof
  fix s e :: nat and rs rs' :: "candidate list"
  assume le: "s \<le> e" "e \<le> length rs"
  have "insertion_swaps (soa_of rs) s e = []" if "e = s"
    using that by (simp add: insertion_swaps_def)
  moreover have "\<exists>rs'. run_swaps s (insertion_swaps (soa_of rs) s e) (soa_of rs) = soa_of rs' \<and> length rs' = length rs \<and>
      (\<forall>(a, b)\<in>set (insertion_swaps (soa_of rs) s e). a < e - s \<and> b < e - s) \<and> ordered_upto s (e - s - 1) rs'" if "s < e"
  proof -
    have "s + (e - s) \<le> length rs" "1 \<le> e - s" using le that by auto
    from insertion_fold [OF this]
    obtain swaps rs1 where "fold (\<lambda>i (swaps, b). let new = sink_swaps b s i in (swaps @ new, run_swaps s new b))
        [1..<e - s] ([], soa_of rs) = (swaps, soa_of rs1)" "run_swaps s swaps (soa_of rs) = soa_of rs1"
        "length rs1 = length rs" "\<forall>(a, b)\<in>set swaps. a < e - s \<and> b < e - s" "ordered_upto s (e - s - 1) rs1"
      by blast
    moreover from this(1) have "insertion_swaps (soa_of rs) s e = swaps" by (simp add: insertion_swaps_def)
    ultimately show ?thesis by blast
  qed
  moreover have "run_swaps s [] (soa_of rs) = soa_of rs" by (simp add: run_swaps_def)
  ultimately have *: "(\<forall>(i, j)\<in>set (insertion_swaps (soa_of rs) s e). i < e - s \<and> j < e - s) \<and>
     (run_swaps s (insertion_swaps (soa_of rs) s e) (soa_of rs) = soa_of rs' \<longrightarrow>
       length rs' = length rs \<and> (s < e \<longrightarrow> ordered_upto s (e - s - 1) rs'))"
    using le by (cases "s < e") (auto simp: soa_of_inj)
  then show "\<forall>(i, j)\<in>set (insertion_swaps (soa_of rs) s e). i < e - s \<and> j < e - s" by blast
  assume "run_swaps s (insertion_swaps (soa_of rs) s e) (soa_of rs) = soa_of rs'"
  then have "length rs' = length rs" "s < e \<longrightarrow> ordered_upto s (e - s - 1) rs'" using * by auto
  then have "in_order (window rs' s e ! a) (window rs' s e ! b)" if "a < b" "b < e - s" for a b
    using le that by (simp add: window_def ordered_upto_def)
  moreover have "length (window rs' s e) = e - s" using \<open>length rs' = length rs\<close> le by (simp add: length_window)
  ultimately show "sorted_wrt in_order (window rs' s e)"
    by (simp add: sorted_wrt_iff_nth_less)
qed

end
