(* ===== verification/RtbBudget.thy ===== *)
theory RtbBudget
  imports Prelude
begin

text \<open>
  The budget store of the real-time bidder (\<open>src/internal/rtb/budget_store.go\<close>,
  \<open>budget_spend.go\<close>): campaign and customer balances and the daily counters of the
  campaigns, in micro-units as \<open>int64\<close>.

  The first half models one call at a time. An \<open>atomic.Pointer[budgetSlice]\<close> is the
  list it points to, \<open>holder\<close> says which of the three pointers an operation works
  on, and the compare-and-swap loops succeed at their first round. The day number
  that \<open>currentDayEpochUTC\<close> reads off the clock is an argument.

  The second half models calls of \<open>CheckAndSpendAll\<close> that run at the same time: the
  slices live at addresses, every atomic load and compare-and-swap is a step of its
  own, and the scheduler is arbitrary. It shows that no interleaving of spenders
  overspends, that all of them finish, and that an allocation in between can lose a
  spend.
\<close>

section \<open>The store\<close>

record budget_store =
  slots :: "u64 \<rightharpoonup> u32"
  customerSlots :: "u64 \<rightharpoonup> u32"
  budgets :: "int list"
  customerBudgets :: "int list"
  dailySpent :: "int list"
  dailyEpoch :: u32

definition invalidCustomerBudgetIdx :: u32 where
  "invalidCustomerBudgetIdx = NOT 0"

definition NewBudgetStore :: budget_store where
  "NewBudgetStore = \<lparr>slots = Map.empty, customerSlots = Map.empty, budgets = [],
     customerBudgets = [], dailySpent = [], dailyEpoch = 0\<rparr>"

definition normalizeBudget :: "int \<Rightarrow> int" where
  "normalizeBudget val = (if val < 0 then 0 else val)"

datatype holder = HBudgets | HCustomer | HDaily

primrec held :: "holder \<Rightarrow> budget_store \<Rightarrow> int list" where
  "held HBudgets s = budgets s"
| "held HCustomer s = customerBudgets s"
| "held HDaily s = dailySpent s"

primrec set_held :: "holder \<Rightarrow> int list \<Rightarrow> budget_store \<Rightarrow> budget_store" where
  "set_held HBudgets xs s = s\<lparr>budgets := xs\<rparr>"
| "set_held HCustomer xs s = s\<lparr>customerBudgets := xs\<rparr>"
| "set_held HDaily xs s = s\<lparr>dailySpent := xs\<rparr>"

text \<open>The bounds check \<open>idx < uint32(len(slice.data))\<close> every access makes.\<close>

definition in_slice :: "u32 \<Rightarrow> int list \<Rightarrow> bool" where
  "in_slice idx xs \<longleftrightarrow> idx < u32_of (length xs)"

definition loadOn :: "holder \<Rightarrow> u32 \<Rightarrow> budget_store \<Rightarrow> int" where
  "loadOn h idx s = (if \<not> in_slice idx (held h s) then 0 else held h s ! unat idx)"

definition LoadBudget :: "u32 \<Rightarrow> budget_store \<Rightarrow> int" where
  "LoadBudget idx s = loadOn HBudgets idx s"

definition LoadCustomerBudget :: "u32 \<Rightarrow> budget_store \<Rightarrow> int" where
  "LoadCustomerBudget customerIdx s =
     (if customerIdx = invalidCustomerBudgetIdx then 0 else loadOn HCustomer customerIdx s)"

definition budgetSlotExists :: "u32 \<Rightarrow> budget_store \<Rightarrow> bool" where
  "budgetSlotExists idx s \<longleftrightarrow> in_slice idx (budgets s)"

section \<open>Allocation\<close>

definition growDailyLocked :: "nat \<Rightarrow> budget_store \<Rightarrow> budget_store" where
  "growDailyLocked n s =
     (if n \<le> length (dailySpent s) then s
      else s\<lparr>dailySpent := dailySpent s @ replicate (n - length (dailySpent s)) 0\<rparr>)"

definition appendSlotLocked :: "int \<Rightarrow> budget_store \<Rightarrow> budget_store \<times> u32" where
  "appendSlotLocked val s =
     (let idx = u32_of (length (budgets s));
          newData = budgets s @ [val]
      in (growDailyLocked (length newData) (s\<lparr>budgets := newData\<rparr>), idx))"

definition appendCustomerSlotLocked :: "int \<Rightarrow> budget_store \<Rightarrow> budget_store \<times> u32" where
  "appendCustomerSlotLocked val s =
     (let idx = u32_of (length (customerBudgets s))
      in (s\<lparr>customerBudgets := customerBudgets s @ [val]\<rparr>, idx))"

definition GetOrAllocateSlot :: "u64 \<Rightarrow> int \<Rightarrow> budget_store \<Rightarrow> budget_store \<times> u32" where
  "GetOrAllocateSlot cid initialBudget s =
     (case slots s cid of
        Some idx \<Rightarrow> (s, idx)
      | None \<Rightarrow>
          let (s', idx) = appendSlotLocked (normalizeBudget initialBudget) s
          in (s'\<lparr>slots := (slots s')(cid \<mapsto> idx)\<rparr>, idx))"

definition GetOrAllocateCustomerSlot :: "u64 \<Rightarrow> int \<Rightarrow> budget_store \<Rightarrow> budget_store \<times> u32" where
  "GetOrAllocateCustomerSlot cid initialBudget s =
     (if cid = 0 then (s, invalidCustomerBudgetIdx)
      else case customerSlots s cid of
        Some idx \<Rightarrow> (s, idx)
      | None \<Rightarrow>
          let (s', idx) = appendCustomerSlotLocked (normalizeBudget initialBudget) s
          in (s'\<lparr>customerSlots := (customerSlots s')(cid \<mapsto> idx)\<rparr>, idx))"

definition CampaignSlot :: "u64 \<Rightarrow> budget_store \<Rightarrow> u32 option" where
  "CampaignSlot cid s = slots s cid"

definition CustomerSlot :: "u64 \<Rightarrow> budget_store \<Rightarrow> u32 option" where
  "CustomerSlot cid s = (if cid = 0 then None else customerSlots s cid)"

definition GetBudget :: "u64 \<Rightarrow> budget_store \<Rightarrow> int" where
  "GetBudget cid s = (case slots s cid of None \<Rightarrow> 0 | Some idx \<Rightarrow> loadOn HBudgets idx s)"

definition SetBudget :: "u64 \<Rightarrow> int \<Rightarrow> budget_store \<Rightarrow> budget_store" where
  "SetBudget cid val s =
     (case slots s cid of
        None \<Rightarrow>
          let (s', idx) = appendSlotLocked (normalizeBudget val) s
          in s'\<lparr>slots := (slots s')(cid \<mapsto> idx)\<rparr>
      | Some idx \<Rightarrow>
          if length (budgets s) \<le> unat idx then s
          else s\<lparr>budgets := (budgets s)[unat idx := normalizeBudget val]\<rparr>)"

definition SetCustomerBudget :: "u64 \<Rightarrow> int \<Rightarrow> budget_store \<Rightarrow> budget_store" where
  "SetCustomerBudget cid val s =
     (if cid = 0 then s
      else case customerSlots s cid of
        None \<Rightarrow>
          let (s', idx) = appendCustomerSlotLocked (normalizeBudget val) s
          in s'\<lparr>customerSlots := (customerSlots s')(cid \<mapsto> idx)\<rparr>
      | Some idx \<Rightarrow>
          if length (customerBudgets s) \<le> unat idx then s
          else s\<lparr>customerBudgets := (customerBudgets s)[unat idx := normalizeBudget val]\<rparr>)"

section \<open>Spending\<close>

definition maybeRollDaily :: "u32 \<Rightarrow> budget_store \<Rightarrow> budget_store" where
  "maybeRollDaily day s =
     (if dailyEpoch s = day then s
      else s\<lparr>dailySpent := replicate (length (dailySpent s)) 0, dailyEpoch := day\<rparr>)"

definition addDailySpendLocked :: "u32 \<Rightarrow> int \<Rightarrow> budget_store \<Rightarrow> budget_store" where
  "addDailySpendLocked idx spent s =
     (if \<not> in_slice idx (dailySpent s) then s
      else s\<lparr>dailySpent := (dailySpent s)[unat idx := spent]\<rparr>)"

definition SetDailySpend :: "u32 \<Rightarrow> u32 \<Rightarrow> int \<Rightarrow> budget_store \<Rightarrow> budget_store" where
  "SetDailySpend day campaignIdx spent s =
     addDailySpendLocked campaignIdx (if spent < 0 then 0 else spent) (maybeRollDaily day s)"

definition loadDailyHeadroom :: "u32 \<Rightarrow> int \<Rightarrow> budget_store \<Rightarrow> int" where
  "loadDailyHeadroom campaignIdx dailyLimit s =
     (if dailyLimit \<le> 0 then dailyLimit
      else wrap64 (dailyLimit - loadOn HDaily campaignIdx s))"

definition checkAndSpendOn :: "holder \<Rightarrow> u32 \<Rightarrow> int \<Rightarrow> budget_store \<Rightarrow> budget_store \<times> bool" where
  "checkAndSpendOn h idx price s =
     (if \<not> in_slice idx (held h s) then (s, False)
      else let curr = held h s ! unat idx
           in if curr < price then (s, False)
              else (set_held h ((held h s)[unat idx := wrap64 (curr - price)]) s, True))"

definition creditOn :: "holder \<Rightarrow> u32 \<Rightarrow> int \<Rightarrow> budget_store \<Rightarrow> budget_store" where
  "creditOn h idx price s =
     (if \<not> in_slice idx (held h s) then s
      else let curr = held h s ! unat idx
           in set_held h ((held h s)[unat idx := wrap64 (curr + price)]) s)"

definition checkAndAddDailySpend ::
  "u32 \<Rightarrow> int \<Rightarrow> int \<Rightarrow> budget_store \<Rightarrow> budget_store \<times> bool" where
  "checkAndAddDailySpend idx price dailyLimit s =
     (if \<not> in_slice idx (dailySpent s) then (s, False)
      else let curr = dailySpent s ! unat idx
           in if wrap64 (curr + price) > dailyLimit then (s, False)
              else (s\<lparr>dailySpent := (dailySpent s)[unat idx := wrap64 (curr + price)]\<rparr>, True))"

definition CheckAndSpend :: "u32 \<Rightarrow> int \<Rightarrow> budget_store \<Rightarrow> budget_store \<times> bool" where
  "CheckAndSpend idx limit s = checkAndSpendOn HBudgets idx limit s"

definition CheckAndSpendAll ::
  "u32 \<Rightarrow> u32 \<Rightarrow> u32 \<Rightarrow> int \<Rightarrow> int \<Rightarrow> budget_store \<Rightarrow> budget_store \<times> bool" where
  "CheckAndSpendAll day campaignIdx customerIdx price dailyLimit s =
     (let s0 = (if dailyLimit > 0 then maybeRollDaily day s else s) in
      if dailyLimit > 0 \<and> loadDailyHeadroom campaignIdx dailyLimit s0 < price then (s0, False)
      else let (s1, ok1) = checkAndSpendOn HBudgets campaignIdx price s0 in
      if \<not> ok1 then (s1, False)
      else let (s2, ok2) = (if customerIdx \<noteq> invalidCustomerBudgetIdx
                            then checkAndSpendOn HCustomer customerIdx price s1 else (s1, True)) in
      if \<not> ok2 then (creditOn HBudgets campaignIdx price s2, False)
      else if dailyLimit > 0
      then let (s3, ok3) = checkAndAddDailySpend campaignIdx price dailyLimit s2 in
           if \<not> ok3
           then let s4 = (if customerIdx \<noteq> invalidCustomerBudgetIdx
                          then creditOn HCustomer customerIdx price s3 else s3)
                in (creditOn HBudgets campaignIdx price s4, False)
           else (s3, True)
      else (s2, True))"

section \<open>The invariant of the store\<close>

named_theorems budget_simps \<open>operations of the budget store on their fields\<close>

definition amounts :: "int list \<Rightarrow> bool" where
  "amounts xs \<longleftrightarrow> length xs < 2 ^ 32 \<and> list_all (\<lambda>x. 0 \<le> x \<and> x < 2 ^ 63) xs"

definition slot_map :: "(u64 \<rightharpoonup> u32) \<Rightarrow> int list \<Rightarrow> bool" where
  "slot_map m xs \<longleftrightarrow> inj_on m (dom m) \<and> (\<forall>cid idx. m cid = Some idx \<longrightarrow> unat idx < length xs)"

definition store_inv :: "budget_store \<Rightarrow> bool" where
  "store_inv s \<longleftrightarrow> amounts (budgets s) \<and> amounts (customerBudgets s) \<and> amounts (dailySpent s) \<and>
     length (budgets s) \<le> length (dailySpent s) \<and>
     slot_map (slots s) (budgets s) \<and> slot_map (customerSlots s) (customerBudgets s)"

lemma held_set_held [simp]: "held h (set_held k xs s) = (if h = k then xs else held h s)"
  by (cases h; cases k) simp_all

lemma amounts_in_slice: "amounts xs \<Longrightarrow> in_slice idx xs \<longleftrightarrow> unat idx < length xs"
  by (simp add: amounts_def in_slice_def word_less_nat_alt)

lemma amounts_nth: "amounts xs \<Longrightarrow> i < length xs \<Longrightarrow> 0 \<le> xs ! i \<and> xs ! i < 2 ^ 63"
  by (simp add: amounts_def list_all_length)

lemma amounts_update: "amounts xs \<Longrightarrow> 0 \<le> v \<Longrightarrow> v < 2 ^ 63 \<Longrightarrow> amounts (xs[i := v])"
  by (cases "i < length xs") (auto simp: amounts_def list_all_length nth_list_update list_update_beyond)

lemma amounts_append:
  "amounts xs \<Longrightarrow> Suc (length xs) < 2 ^ 32 \<Longrightarrow> 0 \<le> v \<Longrightarrow> v < 2 ^ 63 \<Longrightarrow> amounts (xs @ [v])"
  by (simp add: amounts_def)

lemma amounts_zeros: "n < 2 ^ 32 \<Longrightarrow> amounts (replicate n 0)"
  by (simp add: amounts_def list_all_length)

lemma slot_map_update [simp]: "slot_map m (xs[i := v]) = slot_map m xs"
  by (simp add: slot_map_def)

lemma slot_map_append:
  assumes "slot_map m xs" and "m cid = None" and "length xs < 2 ^ 32"
  shows "slot_map (m(cid \<mapsto> u32_of (length xs))) (xs @ [v])"
proof -
  have fresh: "m k \<noteq> Some (u32_of (length xs))" for k
    using assms(1,3) by (fastforce simp: slot_map_def)
  have "inj_on (m(cid \<mapsto> u32_of (length xs))) (insert cid (dom m))"
    using assms(1) fresh unfolding slot_map_def inj_on_def by (auto split: if_splits)
  then show ?thesis
    using assms by (auto simp: slot_map_def less_SucI)
qed

lemma slot_map_fits: "slot_map m xs \<Longrightarrow> m cid = Some idx \<Longrightarrow> unat idx < length xs"
  by (simp add: slot_map_def)

lemma in_i64_diff: "0 \<le> p \<Longrightarrow> p \<le> x \<Longrightarrow> x < 2 ^ 63 \<Longrightarrow> in_i64 (x - p)"
  by (simp add: in_i64_def)

lemma not_invalid: "unat idx < length xs \<Longrightarrow> amounts xs \<Longrightarrow> idx \<noteq> invalidCustomerBudgetIdx"
  by (auto simp: amounts_def invalidCustomerBudgetIdx_def unsigned_minus_1_eq_mask mask_eq_exp_minus_1)

subsection \<open>Every operation keeps it\<close>

lemma store_inv_New: "store_inv NewBudgetStore"
  by (simp add: store_inv_def NewBudgetStore_def amounts_def slot_map_def)

lemma store_inv_appendSlot:
  assumes "store_inv s" and "slots s cid = None" and "0 \<le> v" "v < 2 ^ 63"
    and "Suc (length (budgets s)) < 2 ^ 32"
  shows "let (s', idx) = appendSlotLocked v s in store_inv (s'\<lparr>slots := (slots s')(cid \<mapsto> idx)\<rparr>)"
proof -
  have "amounts (dailySpent s @ replicate (Suc (length (budgets s)) - length (dailySpent s)) 0)"
    using assms(1,5) by (auto simp: store_inv_def amounts_def list_all_length nth_append)
  then show ?thesis
    using assms slot_map_append [of "slots s" "budgets s" cid v]
    by (auto simp: store_inv_def appendSlotLocked_def growDailyLocked_def Let_def amounts_append)
qed

lemma store_inv_appendCustomerSlot:
  assumes "store_inv s" and "customerSlots s cid = None" and "0 \<le> v" "v < 2 ^ 63"
    and "Suc (length (customerBudgets s)) < 2 ^ 32"
  shows "let (s', idx) = appendCustomerSlotLocked v s
    in store_inv (s'\<lparr>customerSlots := (customerSlots s')(cid \<mapsto> idx)\<rparr>)"
  using assms slot_map_append [of "customerSlots s" "customerBudgets s" cid v]
  by (auto simp: store_inv_def appendCustomerSlotLocked_def Let_def amounts_append)

lemma normalizeBudget_range: "in_i64 v \<Longrightarrow> 0 \<le> normalizeBudget v \<and> normalizeBudget v < 2 ^ 63"
  by (simp add: normalizeBudget_def in_i64_def)

lemma store_inv_GetOrAllocateSlot:
  assumes "store_inv s" and "in_i64 v" and "Suc (length (budgets s)) < 2 ^ 32"
  shows "store_inv (fst (GetOrAllocateSlot cid v s))"
  using assms store_inv_appendSlot [of s cid "normalizeBudget v"] normalizeBudget_range [of v]
  by (auto simp: GetOrAllocateSlot_def Let_def split: option.splits prod.splits)

lemma store_inv_GetOrAllocateCustomerSlot:
  assumes "store_inv s" and "in_i64 v" and "Suc (length (customerBudgets s)) < 2 ^ 32"
  shows "store_inv (fst (GetOrAllocateCustomerSlot cid v s))"
  using assms store_inv_appendCustomerSlot [of s cid "normalizeBudget v"] normalizeBudget_range [of v]
  by (auto simp: GetOrAllocateCustomerSlot_def Let_def split: option.splits prod.splits)

lemma store_inv_SetBudget:
  assumes "store_inv s" and "in_i64 v" and "Suc (length (budgets s)) < 2 ^ 32"
  shows "store_inv (SetBudget cid v s)"
proof (cases "slots s cid")
  case None
  then show ?thesis
    using assms store_inv_appendSlot [of s cid "normalizeBudget v"] normalizeBudget_range [of v]
    by (auto simp: SetBudget_def Let_def split: prod.splits)
next
  case (Some idx)
  then show ?thesis
    using assms normalizeBudget_range [of v]
    by (auto simp: SetBudget_def store_inv_def amounts_update)
qed

lemma store_inv_SetCustomerBudget:
  assumes "store_inv s" and "in_i64 v" and "Suc (length (customerBudgets s)) < 2 ^ 32"
  shows "store_inv (SetCustomerBudget cid v s)"
proof (cases "customerSlots s cid")
  case None
  then show ?thesis
    using assms store_inv_appendCustomerSlot [of s cid "normalizeBudget v"] normalizeBudget_range [of v]
    by (auto simp: SetCustomerBudget_def Let_def split: prod.splits)
next
  case (Some idx)
  then show ?thesis
    using assms normalizeBudget_range [of v]
    by (auto simp: SetCustomerBudget_def store_inv_def amounts_update)
qed

lemma store_inv_maybeRollDaily: "store_inv s \<Longrightarrow> store_inv (maybeRollDaily day s)"
  by (auto simp: store_inv_def maybeRollDaily_def intro!: amounts_zeros) (simp add: amounts_def)

lemma store_inv_SetDailySpend:
  "store_inv s \<Longrightarrow> in_i64 spent \<Longrightarrow> store_inv (SetDailySpend day idx spent s)"
  using store_inv_maybeRollDaily [of s day]
  by (auto simp: SetDailySpend_def addDailySpendLocked_def store_inv_def amounts_update in_i64_def)

section \<open>What a spend does\<close>

lemma loadOn_nth: "amounts (held h s) \<Longrightarrow> loadOn h idx s = (if unat idx < length (held h s) then held h s ! unat idx else 0)"
  by (simp add: loadOn_def amounts_in_slice)

lemma store_inv_amounts: "store_inv s \<Longrightarrow> amounts (held h s)"
  by (cases h) (simp_all add: store_inv_def)

lemma store_inv_set_held:
  "store_inv s \<Longrightarrow> amounts xs \<Longrightarrow> length xs = length (held h s) \<Longrightarrow> store_inv (set_held h xs s)"
  by (cases h) (auto simp: store_inv_def slot_map_def)

lemma set_held_same [simp]: "set_held h (held h s) s = s"
  by (cases h) simp_all

lemma set_held_twice [simp]: "set_held h ys (set_held h xs s) = set_held h ys s"
  by (cases h) simp_all

lemma set_held_swap:
  "h \<noteq> k \<Longrightarrow> set_held h xs (set_held k ys s) = set_held k ys (set_held h xs s)"
  by (cases h; cases k) simp_all

text \<open>\<open>charge h idx p s\<close> takes \<open>p\<close> out of a balance and \<open>funded\<close> says that it may.\<close>

definition charge :: "holder \<Rightarrow> u32 \<Rightarrow> int \<Rightarrow> budget_store \<Rightarrow> budget_store" where
  "charge h idx p s = set_held h ((held h s)[unat idx := held h s ! unat idx - p]) s"

definition funded :: "holder \<Rightarrow> u32 \<Rightarrow> int \<Rightarrow> budget_store \<Rightarrow> bool" where
  "funded h idx p s \<longleftrightarrow> unat idx < length (held h s) \<and> p \<le> held h s ! unat idx"

lemma checkAndSpendOn_eq:
  assumes "store_inv s" and "0 \<le> p"
  shows "checkAndSpendOn h idx p s = (if funded h idx p s then (charge h idx p s, True) else (s, False))"
proof (cases "unat idx < length (held h s)")
  case True
  then have "0 \<le> held h s ! unat idx \<and> held h s ! unat idx < 2 ^ 63"
    using store_inv_amounts [OF assms(1)] amounts_nth by blast
  then show ?thesis
    using True assms(2) amounts_in_slice [OF store_inv_amounts [OF assms(1)]]
    by (auto simp: checkAndSpendOn_def charge_def funded_def Let_def in_i64_diff)
next
  case False
  then show ?thesis
    using amounts_in_slice [OF store_inv_amounts [OF assms(1)]]
    by (simp add: checkAndSpendOn_def funded_def)
qed

lemma store_inv_charge:
  assumes "store_inv s" and "0 \<le> p" and "funded h idx p s"
  shows "store_inv (charge h idx p s)"
  using assms amounts_nth [OF store_inv_amounts [OF assms(1)], of "unat idx" h]
  by (auto simp: charge_def funded_def intro!: store_inv_set_held amounts_update store_inv_amounts)

lemma charge_commute:
  "h \<noteq> k \<Longrightarrow> charge h i p (charge k j q s) = charge k j q (charge h i p s)"
  by (simp add: charge_def set_held_swap)

lemma funded_charge_other [simp]: "h \<noteq> k \<Longrightarrow> funded h i p (charge k j q s) = funded h i p s"
  by (simp add: funded_def charge_def)

lemma creditOn_charge:
  assumes "store_inv s" and "0 \<le> p" and "funded h idx p s"
  shows "creditOn h idx p (charge h idx p s) = s"
proof -
  have "0 \<le> held h s ! unat idx \<and> held h s ! unat idx < 2 ^ 63"
    using amounts_nth [OF store_inv_amounts [OF assms(1)]] assms(3) by (simp add: funded_def)
  then have "in_i64 (held h s ! unat idx)" by (simp add: in_i64_def)
  then show ?thesis
    using assms(3) amounts_in_slice [OF store_inv_amounts [OF assms(1)], of idx h]
    by (auto simp: creditOn_def charge_def funded_def in_slice_def Let_def)
qed

lemma loadOn_charge:
  assumes "store_inv s" and "funded h idx p s"
  shows "loadOn k j (charge h idx p s) = loadOn k j s - (if k = h \<and> j = idx then p else 0)"
proof (cases "k = h")
  case True
  have "(held h s)[unat idx := v] ! unat j = (if j = idx then v else held h s ! unat j)"
    if "unat j < length (held h s)" for v
    using that assms(2) by (auto simp: funded_def nth_list_update word_unat_eq_iff)
  then show ?thesis
    using True assms(2) amounts_in_slice [OF store_inv_amounts [OF assms(1)], of j h]
    by (auto simp: loadOn_def charge_def in_slice_def funded_def)
next
  case False
  then show ?thesis by (simp add: loadOn_def charge_def)
qed

lemma loadDailyHeadroom_eq:
  assumes "store_inv s" and "0 < limit" "limit < 2 ^ 63"
  shows "loadDailyHeadroom idx limit s = limit - loadOn HDaily idx s"
proof -
  have "0 \<le> loadOn HDaily idx s \<and> loadOn HDaily idx s < 2 ^ 63"
    using amounts_nth [OF store_inv_amounts [OF assms(1)], of "unat idx" HDaily]
    by (auto simp: loadOn_nth [OF store_inv_amounts [OF assms(1)]])
  then show ?thesis using assms by (simp add: loadDailyHeadroom_def in_i64_def)
qed

lemma checkAndAddDailySpend_eq:
  assumes "store_inv s" and "0 \<le> p" and "unat idx < length (dailySpent s)"
    and "dailySpent s ! unat idx + p \<le> limit" and "limit < 2 ^ 63"
  shows "checkAndAddDailySpend idx p limit s = (charge HDaily idx (- p) s, True)"
proof -
  have "0 \<le> dailySpent s ! unat idx"
    using amounts_nth [OF store_inv_amounts [OF assms(1)], of "unat idx" HDaily] assms(3) by simp
  then have "in_i64 (dailySpent s ! unat idx + p)" using assms by (simp add: in_i64_def)
  then show ?thesis
    using assms amounts_in_slice [OF store_inv_amounts [OF assms(1)], of idx HDaily]
    by (simp add: checkAndAddDailySpend_def charge_def Let_def)
qed

section \<open>All or nothing\<close>

text \<open>The day's store that a spend works on, what it needs and what it takes.\<close>

definition rolled :: "u32 \<Rightarrow> int \<Rightarrow> budget_store \<Rightarrow> budget_store" where
  "rolled day limit s = (if limit > 0 then maybeRollDaily day s else s)"

definition affordable :: "u32 \<Rightarrow> u32 \<Rightarrow> int \<Rightarrow> int \<Rightarrow> budget_store \<Rightarrow> bool" where
  "affordable ci ui p limit s \<longleftrightarrow> funded HBudgets ci p s \<and>
     (ui = invalidCustomerBudgetIdx \<or> funded HCustomer ui p s) \<and>
     (limit \<le> 0 \<or> loadOn HDaily ci s + p \<le> limit)"

definition charge_all :: "u32 \<Rightarrow> u32 \<Rightarrow> int \<Rightarrow> int \<Rightarrow> budget_store \<Rightarrow> budget_store" where
  "charge_all ci ui p limit s =
     (let s1 = charge HBudgets ci p s;
          s2 = (if ui = invalidCustomerBudgetIdx then s1 else charge HCustomer ui p s1)
      in if limit \<le> 0 then s2 else charge HDaily ci (- p) s2)"

lemma store_inv_rolled: "store_inv s \<Longrightarrow> store_inv (rolled day limit s)"
  by (simp add: rolled_def store_inv_maybeRollDaily)

lemma loadOn_charge_other [simp]: "h \<noteq> k \<Longrightarrow> loadOn h i (charge k j q s) = loadOn h i s"
  by (simp add: loadOn_def charge_def)

lemma daily_slot:
  "store_inv s \<Longrightarrow> funded HBudgets ci p s \<Longrightarrow> unat ci < length (dailySpent s)"
  by (simp add: store_inv_def funded_def)

lemma dailySpent_charge [simp]: "h \<noteq> HDaily \<Longrightarrow> dailySpent (charge h i p s) = dailySpent s"
  by (cases h) (simp_all add: charge_def)

lemma daily_add_succeeds:
  assumes "store_inv s" and "0 \<le> p" "limit < 2 ^ 63" and "unat ci < length (dailySpent s)"
    and "loadOn HDaily ci s + p \<le> limit"
  shows "checkAndAddDailySpend ci p limit s = (charge HDaily ci (- p) s, True)"
  using assms loadOn_nth [OF store_inv_amounts [OF assms(1)], of HDaily ci]
  by (intro checkAndAddDailySpend_eq) auto

lemma CheckAndSpendAll_eq:
  assumes inv: "store_inv s" and p: "0 \<le> p" and limit: "limit < 2 ^ 63"
  shows "CheckAndSpendAll day ci ui p limit s =
    (if affordable ci ui p limit (rolled day limit s)
     then (charge_all ci ui p limit (rolled day limit s), True) else (rolled day limit s, False))"
proof -
  define s0 where "s0 = rolled day limit s"
  have i0: "store_inv s0" using inv by (simp add: s0_def store_inv_rolled)
  have head: "loadDailyHeadroom ci limit s0 < p \<longleftrightarrow> \<not> loadOn HDaily ci s0 + p \<le> limit" if "0 < limit"
    using loadDailyHeadroom_eq [OF i0 that limit, of ci] by auto
  have camp: "checkAndSpendOn HBudgets ci p s0 =
      (if funded HBudgets ci p s0 then (charge HBudgets ci p s0, True) else (s0, False))"
    by (rule checkAndSpendOn_eq [OF i0 p])
  have i1: "store_inv (charge HBudgets ci p s0)" if "funded HBudgets ci p s0"
    by (rule store_inv_charge [OF i0 p that])
  have cust: "checkAndSpendOn HCustomer ui p (charge HBudgets ci p s0) =
      (if funded HCustomer ui p s0 then (charge HCustomer ui p (charge HBudgets ci p s0), True)
       else (charge HBudgets ci p s0, False))" if "funded HBudgets ci p s0"
    using checkAndSpendOn_eq [OF i1 [OF that] p, of HCustomer ui] by simp
  have i2: "store_inv (charge HCustomer ui p (charge HBudgets ci p s0))"
    if "funded HBudgets ci p s0" "funded HCustomer ui p s0"
    using store_inv_charge [OF i1 [OF that(1)] p, of HCustomer ui] that(2) by simp
  have undo: "creditOn HBudgets ci p (charge HBudgets ci p s0) = s0" if "funded HBudgets ci p s0"
    by (rule creditOn_charge [OF i0 p that])
  have d1: "checkAndAddDailySpend ci p limit (charge HBudgets ci p s0) =
      (charge HDaily ci (- p) (charge HBudgets ci p s0), True)"
    if "funded HBudgets ci p s0" "loadOn HDaily ci s0 + p \<le> limit"
    using daily_slot [OF i0 that(1)] that(2)
    by (intro daily_add_succeeds [OF i1 [OF that(1)] p limit]) simp_all
  have d2: "checkAndAddDailySpend ci p limit (charge HCustomer ui p (charge HBudgets ci p s0)) =
      (charge HDaily ci (- p) (charge HCustomer ui p (charge HBudgets ci p s0)), True)"
    if "funded HBudgets ci p s0" "funded HCustomer ui p s0" "loadOn HDaily ci s0 + p \<le> limit"
    using daily_slot [OF i0 that(1)] that(3)
    by (intro daily_add_succeeds [OF i2 [OF that(1,2)] p limit]) simp_all
  show ?thesis
    unfolding CheckAndSpendAll_def rolled_def [symmetric] s0_def [symmetric]
    by (auto simp: Let_def affordable_def charge_all_def head camp cust undo d1 d2)
qed

lemma store_inv_daily_charge:
  assumes "store_inv s" "0 \<le> p" "unat ci < length (dailySpent s)" "loadOn HDaily ci s + p \<le> limit"
    "limit < 2 ^ 63"
  shows "store_inv (charge HDaily ci (- p) s)"
  using assms amounts_nth [OF store_inv_amounts [OF assms(1)], of "unat ci" HDaily]
    loadOn_nth [OF store_inv_amounts [OF assms(1)], of HDaily ci]
  by (auto simp: charge_def simp del: set_held.simps
      intro!: store_inv_set_held amounts_update store_inv_amounts [OF assms(1), of HDaily, simplified])

lemma store_inv_charge_all:
  assumes "store_inv s" "0 \<le> p" "limit < 2 ^ 63" "affordable ci ui p limit s"
  shows "store_inv (charge_all ci ui p limit s)"
proof -
  define s1 where "s1 = charge HBudgets ci p s"
  define s2 where "s2 = (if ui = invalidCustomerBudgetIdx then s1 else charge HCustomer ui p s1)"
  have camp: "funded HBudgets ci p s" using assms(4) by (simp add: affordable_def)
  have "store_inv s1" unfolding s1_def by (rule store_inv_charge [OF assms(1,2) camp])
  then have i2: "store_inv s2"
    using assms(4) store_inv_charge [of s1 p HCustomer ui] assms(2)
    by (auto simp: s2_def affordable_def s1_def)
  have "store_inv (charge HDaily ci (- p) s2)" if "0 < limit"
    using i2 assms that daily_slot [OF assms(1) camp]
    by (intro store_inv_daily_charge) (auto simp: s2_def s1_def affordable_def)
  then show ?thesis
    using i2 by (auto simp: charge_all_def Let_def s2_def s1_def)
qed

lemma store_inv_CheckAndSpendAll:
  "store_inv s \<Longrightarrow> 0 \<le> p \<Longrightarrow> limit < 2 ^ 63 \<Longrightarrow> store_inv (fst (CheckAndSpendAll day ci ui p limit s))"
  by (simp add: CheckAndSpendAll_eq store_inv_rolled store_inv_charge_all)

section \<open>Ledgers\<close>

text \<open>What the bidder relies on: an account whose requests take their charge out of the
  account and never overdraw it. \<open>serve\<close> runs a history of requests and adds up the
  charges.\<close>

locale ledger =
  fixes good :: "'s \<Rightarrow> bool" and valid :: "'r \<Rightarrow> bool"
    and funds :: "'s \<Rightarrow> int" and request :: "'r \<Rightarrow> 's \<Rightarrow> 's \<times> int"
  assumes good_request: "good s \<Longrightarrow> valid r \<Longrightarrow> good (fst (request r s))"
    and funds_nonneg: "good s \<Longrightarrow> 0 \<le> funds s"
    and funds_request: "good s \<Longrightarrow> valid r \<Longrightarrow> funds (fst (request r s)) = funds s - snd (request r s)"
begin

primrec serve :: "'r list \<Rightarrow> 's \<Rightarrow> 's \<times> int" where
  "serve [] s = (s, 0)"
| "serve (r # rs) s =
     (let (s', c) = request r s; (s'', total) = serve rs s' in (s'', c + total))"

lemma serve_good: "good s \<Longrightarrow> list_all valid rs \<Longrightarrow> good (fst (serve rs s))"
proof (induction rs arbitrary: s)
  case (Cons r rs)
  then show ?case using good_request [of s r] by (fastforce simp: Let_def split: prod.splits)
qed simp

lemma serve_funds:
  "good s \<Longrightarrow> list_all valid rs \<Longrightarrow> funds (fst (serve rs s)) = funds s - snd (serve rs s)"
proof (induction rs arbitrary: s)
  case (Cons r rs)
  then show ?case
    using good_request [of s r] funds_request [of s r] by (fastforce simp: Let_def split: prod.splits)
qed simp

lemma serve_never_overdraws:
  assumes "good s" "list_all valid rs"
  shows "snd (serve rs s) \<le> funds s"
  using serve_funds [OF assms] funds_nonneg [OF serve_good [OF assms]] by simp

end

record spend_request =
  sr_day :: u32
  sr_campaign :: u32
  sr_customer :: u32
  sr_price :: int
  sr_limit :: int

definition spend_valid :: "spend_request \<Rightarrow> bool" where
  "spend_valid r \<longleftrightarrow> 0 \<le> sr_price r \<and> sr_limit r < 2 ^ 63"

definition run_spend :: "spend_request \<Rightarrow> budget_store \<Rightarrow> budget_store \<times> bool" where
  "run_spend r = CheckAndSpendAll (sr_day r) (sr_campaign r) (sr_customer r) (sr_price r) (sr_limit r)"

definition campaign_request :: "u32 \<Rightarrow> spend_request \<Rightarrow> budget_store \<Rightarrow> budget_store \<times> int" where
  "campaign_request c r s =
     (let (s', ok) = run_spend r s in (s', if ok \<and> sr_campaign r = c then sr_price r else 0))"

definition customer_request :: "u32 \<Rightarrow> spend_request \<Rightarrow> budget_store \<Rightarrow> budget_store \<times> int" where
  "customer_request u r s =
     (let (s', ok) = run_spend r s in (s', if ok \<and> sr_customer r = u then sr_price r else 0))"

lemma loadOn_rolled [simp]: "h \<noteq> HDaily \<Longrightarrow> loadOn h i (rolled day limit s) = loadOn h i s"
  by (cases h) (simp_all add: rolled_def maybeRollDaily_def loadOn_def)

lemma loadOn_charge_all_campaign:
  assumes "store_inv s" "affordable ci ui p limit s"
  shows "loadOn HBudgets c (charge_all ci ui p limit s) = loadOn HBudgets c s - (if c = ci then p else 0)"
  using assms by (auto simp: charge_all_def Let_def affordable_def loadOn_charge)

lemma loadOn_charge_all_customer:
  assumes "store_inv s" "affordable ci ui p limit s" "u \<noteq> invalidCustomerBudgetIdx" "0 \<le> p"
  shows "loadOn HCustomer u (charge_all ci ui p limit s) = loadOn HCustomer u s - (if u = ui then p else 0)"
  using assms store_inv_charge [OF assms(1,4), of HBudgets ci]
  by (auto simp: charge_all_def Let_def affordable_def loadOn_charge)

lemma loadOn_nonneg: "store_inv s \<Longrightarrow> 0 \<le> loadOn h i s"
  using amounts_nth [OF store_inv_amounts, of s "unat i" h]
  by (auto simp: loadOn_nth store_inv_amounts)

interpretation camp_ledger: ledger store_inv spend_valid "loadOn HBudgets c" "campaign_request c" for c
  by unfold_locales
    (auto simp: campaign_request_def run_spend_def spend_valid_def CheckAndSpendAll_eq store_inv_rolled
      store_inv_charge_all loadOn_charge_all_campaign loadOn_nonneg)

interpretation cust_ledger: ledger store_inv spend_valid
    "\<lambda>s. if u = invalidCustomerBudgetIdx then 0 else loadOn HCustomer u s"
    "\<lambda>r s. if u = invalidCustomerBudgetIdx then (fst (customer_request u r s), 0) else customer_request u r s" for u
  by unfold_locales
    (auto simp: customer_request_def run_spend_def spend_valid_def CheckAndSpendAll_eq store_inv_rolled
      store_inv_charge_all loadOn_charge_all_customer loadOn_nonneg)

section \<open>Spenders that run at the same time\<close>

text \<open>Shared memory: the slices by address and the three atomic pointers. A goroutine in
  \<open>CheckAndSpendAll\<close> is a \<open>spender\<close>; its program counter names the atomic operation it
  is about to execute. The five places where the code runs a compare-and-swap loop are
  the \<open>phase\<close>s: the charge of the campaign, of the customer and of the daily counter,
  and the two credits of a rollback.\<close>

record spend_mem =
  heap :: "nat \<Rightarrow> int list"
  budgetsPtr :: nat
  customerPtr :: nat
  dailyPtr :: nat
  freePtr :: nat
  memEpoch :: u32

datatype phase = Camp | Cust | Daily | UndoCust | UndoCamp

datatype spend_pc = Start | Slice phase | LoadAt phase nat | CasAt phase nat int | Done bool

record spender =
  sp_campaign :: u32
  sp_customer :: u32
  sp_price :: int
  sp_limit :: int
  sp_pc :: spend_pc

primrec holder_ptr :: "holder \<Rightarrow> spend_mem \<Rightarrow> nat" where
  "holder_ptr HBudgets m = budgetsPtr m"
| "holder_ptr HCustomer m = customerPtr m"
| "holder_ptr HDaily m = dailyPtr m"

definition view :: "holder \<Rightarrow> spend_mem \<Rightarrow> int list" where
  "view h m = heap m (holder_ptr h m)"

primrec phase_holder :: "phase \<Rightarrow> holder" where
  "phase_holder Camp = HBudgets"
| "phase_holder Cust = HCustomer"
| "phase_holder Daily = HDaily"
| "phase_holder UndoCust = HCustomer"
| "phase_holder UndoCamp = HBudgets"

primrec holder_slot :: "holder \<Rightarrow> spender \<Rightarrow> u32" where
  "holder_slot HBudgets t = sp_campaign t"
| "holder_slot HCustomer t = sp_customer t"
| "holder_slot HDaily t = sp_campaign t"

definition phase_slot :: "phase \<Rightarrow> spender \<Rightarrow> u32" where
  "phase_slot p t = holder_slot (phase_holder p) t"

text \<open>The loop bodies: the test before the compare-and-swap and the value it installs.\<close>

primrec refuses :: "phase \<Rightarrow> spender \<Rightarrow> int \<Rightarrow> bool" where
  "refuses Camp t cur \<longleftrightarrow> cur < sp_price t"
| "refuses Cust t cur \<longleftrightarrow> cur < sp_price t"
| "refuses Daily t cur \<longleftrightarrow> wrap64 (cur + sp_price t) > sp_limit t"
| "refuses UndoCust t cur \<longleftrightarrow> False"
| "refuses UndoCamp t cur \<longleftrightarrow> False"

primrec installs :: "phase \<Rightarrow> spender \<Rightarrow> int \<Rightarrow> int" where
  "installs Camp t cur = wrap64 (cur - sp_price t)"
| "installs Cust t cur = wrap64 (cur - sp_price t)"
| "installs Daily t cur = wrap64 (cur + sp_price t)"
| "installs UndoCust t cur = wrap64 (cur + sp_price t)"
| "installs UndoCamp t cur = wrap64 (cur + sp_price t)"

text \<open>Where \<open>CheckAndSpendAll\<close> goes after a loop that returned true, and after one that
  returned false (or found the slot missing).\<close>

primrec after_ok :: "phase \<Rightarrow> spender \<Rightarrow> spend_pc" where
  "after_ok Camp t =
     (if sp_customer t \<noteq> invalidCustomerBudgetIdx then Slice Cust
      else if sp_limit t > 0 then Slice Daily else Done True)"
| "after_ok Cust t = (if sp_limit t > 0 then Slice Daily else Done True)"
| "after_ok Daily t = Done True"
| "after_ok UndoCust t = Slice UndoCamp"
| "after_ok UndoCamp t = Done False"

primrec after_fail :: "phase \<Rightarrow> spender \<Rightarrow> spend_pc" where
  "after_fail Camp t = Done False"
| "after_fail Cust t = Slice UndoCamp"
| "after_fail Daily t =
     (if sp_customer t \<noteq> invalidCustomerBudgetIdx then Slice UndoCust else Slice UndoCamp)"
| "after_fail UndoCust t = Slice UndoCamp"
| "after_fail UndoCamp t = Done False"

definition roll_mem :: "u32 \<Rightarrow> spend_mem \<Rightarrow> spend_mem" where
  "roll_mem day m =
     (if memEpoch m = day then m
      else m\<lparr>heap := (heap m)(freePtr m := replicate (length (view HDaily m)) 0),
             dailyPtr := freePtr m, freePtr := Suc (freePtr m), memEpoch := day\<rparr>)"

definition headroom :: "spend_mem \<Rightarrow> spender \<Rightarrow> int" where
  "headroom m t =
     wrap64 (sp_limit t - (if in_slice (sp_campaign t) (view HDaily m)
                           then view HDaily m ! unat (sp_campaign t) else 0))"

definition thread_step :: "u32 \<Rightarrow> spend_mem \<Rightarrow> spender \<Rightarrow> spend_mem \<times> spender" where
  "thread_step day m t =
     (case sp_pc t of
        Start \<Rightarrow>
          if sp_limit t > 0
          then let m' = roll_mem day m
               in (m', t\<lparr>sp_pc := if headroom m' t < sp_price t then Done False else Slice Camp\<rparr>)
          else (m, t\<lparr>sp_pc := Slice Camp\<rparr>)
      | Slice p \<Rightarrow>
          let a = holder_ptr (phase_holder p) m
          in (m, t\<lparr>sp_pc := if \<not> in_slice (phase_slot p t) (heap m a) then after_fail p t
                             else LoadAt p a\<rparr>)
      | LoadAt p a \<Rightarrow>
          let cur = heap m a ! unat (phase_slot p t)
          in (m, t\<lparr>sp_pc := if refuses p t cur then after_fail p t else CasAt p a cur\<rparr>)
      | CasAt p a cur \<Rightarrow>
          if heap m a ! unat (phase_slot p t) = cur
          then (m\<lparr>heap := (heap m)(a := (heap m a)[unat (phase_slot p t) := installs p t cur])\<rparr>,
                t\<lparr>sp_pc := after_ok p t\<rparr>)
          else (m, t\<lparr>sp_pc := LoadAt p a\<rparr>)
      | Done b \<Rightarrow> (m, t))"

primrec pc_done :: "spend_pc \<Rightarrow> bool" where
  "pc_done Start = False"
| "pc_done (Slice p) = False"
| "pc_done (LoadAt p a) = False"
| "pc_done (CasAt p a c) = False"
| "pc_done (Done b) = True"

inductive spend_step :: "u32 \<Rightarrow> spend_mem \<times> spender list \<Rightarrow> spend_mem \<times> spender list \<Rightarrow> bool"
  for day where
  spend_stepI: "i < length ts \<Longrightarrow> \<not> pc_done (sp_pc (ts ! i)) \<Longrightarrow> thread_step day m (ts ! i) = (m', t') \<Longrightarrow>
    spend_step day (m, ts) (m', ts[i := t'])"

text \<open>\<open>appendSlotLocked\<close> beside running spenders: it copies the slice and publishes the
  copy.\<close>

definition grow_mem :: "int \<Rightarrow> spend_mem \<Rightarrow> spend_mem" where
  "grow_mem val m =
     (let newData = view HBudgets m @ [val];
          m1 = m\<lparr>heap := (heap m)(freePtr m := newData), budgetsPtr := freePtr m,
                 freePtr := Suc (freePtr m)\<rparr>
      in if length newData \<le> length (view HDaily m1) then m1
         else m1\<lparr>heap := (heap m1)(freePtr m1 := view HDaily m1 @
                    replicate (length newData - length (view HDaily m1)) 0),
                 dailyPtr := freePtr m1, freePtr := Suc (freePtr m1)\<rparr>)"

inductive store_step :: "u32 \<Rightarrow> spend_mem \<times> spender list \<Rightarrow> spend_mem \<times> spender list \<Rightarrow> bool"
  for day where
  store_spend: "spend_step day c c' \<Longrightarrow> store_step day c c'"
| store_grow: "store_step day (m, ts) (grow_mem v m, ts)"

inductive_cases spend_stepE: "spend_step day (m, ts) c'"

subsection \<open>Money is conserved\<close>

text \<open>\<open>took h t\<close> is what spender \<open>t\<close> has taken and not given back.\<close>

primrec took_pc :: "holder \<Rightarrow> spender \<Rightarrow> spend_pc \<Rightarrow> bool" where
  "took_pc h t Start = False"
| "took_pc h t (Slice p) =
     (h = HBudgets \<and> p \<noteq> Camp \<or> h = HCustomer \<and> sp_customer t \<noteq> invalidCustomerBudgetIdx \<and> p \<in> {Daily, UndoCust})"
| "took_pc h t (LoadAt p a) =
     (h = HBudgets \<and> p \<noteq> Camp \<or> h = HCustomer \<and> sp_customer t \<noteq> invalidCustomerBudgetIdx \<and> p \<in> {Daily, UndoCust})"
| "took_pc h t (CasAt p a c) =
     (h = HBudgets \<and> p \<noteq> Camp \<or> h = HCustomer \<and> sp_customer t \<noteq> invalidCustomerBudgetIdx \<and> p \<in> {Daily, UndoCust})"
| "took_pc h t (Done b) =
     (b \<and> (h = HBudgets \<or> h = HCustomer \<and> sp_customer t \<noteq> invalidCustomerBudgetIdx \<or> h = HDaily \<and> sp_limit t > 0))"

definition took :: "holder \<Rightarrow> u32 \<Rightarrow> spender \<Rightarrow> int" where
  "took h idx t = (if holder_slot h t = idx \<and> took_pc h t (sp_pc t) then sp_price t else 0)"

primrec sign :: "holder \<Rightarrow> int" where
  "sign HBudgets = 1"
| "sign HCustomer = 1"
| "sign HDaily = -1"

definition phase_ok :: "phase \<Rightarrow> spender \<Rightarrow> bool" where
  "phase_ok p t \<longleftrightarrow> (p \<in> {Cust, UndoCust} \<longrightarrow> sp_customer t \<noteq> invalidCustomerBudgetIdx) \<and>
     (p \<in> {Daily, UndoCust} \<longrightarrow> sp_limit t > 0)"

primrec pc_ok :: "spend_mem \<Rightarrow> spender \<Rightarrow> spend_pc \<Rightarrow> bool" where
  "pc_ok m t Start = True"
| "pc_ok m t (Slice p) = phase_ok p t"
| "pc_ok m t (LoadAt p a) = (phase_ok p t \<and> a = holder_ptr (phase_holder p) m \<and>
     unat (phase_slot p t) < length (view (phase_holder p) m))"
| "pc_ok m t (CasAt p a c) = (phase_ok p t \<and> a = holder_ptr (phase_holder p) m \<and>
     unat (phase_slot p t) < length (view (phase_holder p) m) \<and> \<not> refuses p t c)"
| "pc_ok m t (Done b) = True"

definition spender_ok :: "spend_mem \<Rightarrow> spender \<Rightarrow> bool" where
  "spender_ok m t \<longleftrightarrow> 0 \<le> sp_price t \<and> sp_price t < 2 ^ 62 \<and> sp_limit t < 2 ^ 62 \<and>
     pc_ok m t (sp_pc t) \<and>
     (\<forall>h. took_pc h t (sp_pc t) \<longrightarrow> unat (holder_slot h t) < length (view h m))"

definition mem_ok :: "u32 \<Rightarrow> spend_mem \<Rightarrow> bool" where
  "mem_ok day m \<longleftrightarrow> memEpoch m = day \<and> amounts (view HBudgets m) \<and> amounts (view HCustomer m) \<and>
     amounts (view HDaily m) \<and> budgetsPtr m \<noteq> customerPtr m \<and> budgetsPtr m \<noteq> dailyPtr m \<and>
     customerPtr m \<noteq> dailyPtr m \<and> length (view HBudgets m) \<le> length (view HDaily m)"

definition put_slot :: "holder \<Rightarrow> nat \<Rightarrow> int \<Rightarrow> spend_mem \<Rightarrow> spend_mem" where
  "put_slot h i v m = m\<lparr>heap := (heap m)(holder_ptr h m := (view h m)[i := v])\<rparr>"

definition daily_small :: "spend_mem \<Rightarrow> bool" where
  "daily_small m \<longleftrightarrow> list_all (\<lambda>x. x < 2 ^ 62) (view HDaily m)"

lemma holder_ptr_put_slot [simp]: "holder_ptr k (put_slot h i v m) = holder_ptr k m"
  by (cases k) (simp_all add: put_slot_def)

lemma memEpoch_put_slot [simp]: "memEpoch (put_slot h i v m) = memEpoch m"
  by (simp add: put_slot_def)

lemma mem_ok_inj: "mem_ok day m \<Longrightarrow> holder_ptr k m = holder_ptr h m \<longleftrightarrow> k = h"
  by (cases k; cases h) (auto simp: mem_ok_def)

lemma view_put_slot:
  "mem_ok day m \<Longrightarrow> view k (put_slot h i v m) = (if k = h then (view h m)[i := v] else view k m)"
  using mem_ok_inj [of day m k h] by (simp add: view_def holder_ptr_put_slot) (simp add: put_slot_def view_def)

lemma mem_ok_amounts: "mem_ok day m \<Longrightarrow> amounts (view h m)"
  by (cases h) (simp_all add: mem_ok_def)

lemma mem_okI:
  assumes "mem_ok day m" and "\<And>k. holder_ptr k m' = holder_ptr k m" and "memEpoch m' = memEpoch m"
    and "\<And>k. length (view k m') = length (view k m)" and "\<And>k. amounts (view k m')"
  shows "mem_ok day m'"
  using assms(1) assms(2) [of HBudgets] assms(2) [of HCustomer] assms(2) [of HDaily] assms(3-5)
  by (simp add: mem_ok_def)

lemma length_view_put_slot: "mem_ok day m \<Longrightarrow> length (view k (put_slot h i v m)) = length (view k m)"
  by (simp add: view_put_slot)

lemma mem_ok_put_slot:
  assumes "mem_ok day m" "0 \<le> v" "v < 2 ^ 63"
  shows "mem_ok day (put_slot h i v m)"
  by (rule mem_okI [OF assms(1)])
    (use assms in \<open>simp_all add: length_view_put_slot view_put_slot amounts_update mem_ok_amounts\<close>)

text \<open>What the next step of a spender does: nothing to the memory, or one charge or credit.\<close>

lemma thread_step_cases:
  assumes "mem_ok day m" "spender_ok m t" "thread_step day m t = (m', t')"
  obtains (local_step) "m' = m" "t' = t\<lparr>sp_pc := sp_pc t'\<rparr>"
      "pc_ok m t (sp_pc t')" "\<And>h. took_pc h t (sp_pc t') \<longleftrightarrow> took_pc h t (sp_pc t)"
  | (swap) p c where "sp_pc t = CasAt p (holder_ptr (phase_holder p) m) c"
      "c = view (phase_holder p) m ! unat (phase_slot p t)"
      "m' = put_slot (phase_holder p) (unat (phase_slot p t)) (installs p t c) m"
      "t' = t\<lparr>sp_pc := after_ok p t\<rparr>"
proof (cases "sp_pc t")
  case Start
  then show thesis
    using assms local_step
    by (auto simp: thread_step_def roll_mem_def mem_ok_def Let_def phase_ok_def split: if_splits)
next
  case (Slice p)
  have "in_slice (phase_slot p t) (view (phase_holder p) m) \<longleftrightarrow>
      unat (phase_slot p t) < length (view (phase_holder p) m)"
    by (rule amounts_in_slice [OF mem_ok_amounts [OF assms(1)]])
  moreover have "took_pc HBudgets t (sp_pc t) \<Longrightarrow> unat (sp_campaign t) < length (view HBudgets m)"
      "took_pc HCustomer t (sp_pc t) \<Longrightarrow> unat (sp_customer t) < length (view HCustomer m)"
    using assms(2) by (auto simp: spender_ok_def dest: spec [of _ HBudgets] spec [of _ HCustomer])
  ultimately show thesis
    using Slice assms local_step
    by (cases p) (auto simp: thread_step_def spender_ok_def phase_ok_def phase_slot_def Let_def view_def split: if_splits)
next
  case (LoadAt p a)
  then show thesis
    using assms local_step
    by (cases p) (auto simp: thread_step_def spender_ok_def phase_ok_def phase_slot_def Let_def view_def split: if_splits)
next
  case (CasAt p a c)
  show thesis
  proof (cases "heap m a ! unat (phase_slot p t) = c")
    case True
    then show thesis
      using CasAt assms swap [of p c]
      by (auto simp: thread_step_def spender_ok_def put_slot_def view_def)
  next
    case False
    then show thesis
      using CasAt assms local_step by (auto simp: thread_step_def spender_ok_def)
  qed
next
  case (Done b)
  then show thesis using assms local_step by (auto simp: thread_step_def)
qed

lemma took_upd: "holder_slot h (t\<lparr>sp_pc := pc\<rparr>) = holder_slot h t"
  by (cases h) simp_all

lemma took_pc_upd [simp]: "took_pc h (t\<lparr>sp_pc := pc\<rparr>) pc' = took_pc h t pc'"
  by (cases pc') simp_all

lemma phase_ok_upd [simp]: "phase_ok p (t\<lparr>sp_pc := pc\<rparr>) = phase_ok p t"
  by (simp add: phase_ok_def)

lemma refuses_upd [simp]: "refuses p (t\<lparr>sp_pc := pc\<rparr>) c = refuses p t c"
  by (cases p) simp_all

lemma pc_ok_upd [simp]: "pc_ok m (t\<lparr>sp_pc := pc\<rparr>) pc' = pc_ok m t pc'"
  by (cases pc') (simp_all add: phase_slot_def took_upd)

lemma spender_ok_frame:
  assumes "spender_ok m t" "\<And>k. holder_ptr k m' = holder_ptr k m" "\<And>k. length (view k m') = length (view k m)"
  shows "spender_ok m' t"
proof -
  have "pc_ok m' t pc = pc_ok m t pc" for pc by (cases pc) (simp_all add: assms(2,3))
  then show ?thesis using assms(1,3) by (simp add: spender_ok_def)
qed

text \<open>A successful compare-and-swap moves the price between the slot and the spender.\<close>

lemma swap_value:
  assumes "mem_ok day m" "spender_ok m t" "daily_small m"
    and pc: "sp_pc t = CasAt p (holder_ptr (phase_holder p) m) c"
    and c: "c = view (phase_holder p) m ! unat (phase_slot p t)"
    and credit: "\<And>h. h \<noteq> HDaily \<Longrightarrow> took_pc h t (sp_pc t) \<Longrightarrow>
      view h m ! unat (holder_slot h t) + sp_price t < 2 ^ 63"
  shows "installs p t c = c + sign (phase_holder p) *
      ((if took_pc (phase_holder p) t (sp_pc t) then sp_price t else 0) -
       (if took_pc (phase_holder p) t (after_ok p t) then sp_price t else 0))"
    and "0 \<le> installs p t c" "installs p t c < 2 ^ 63"
    and "p = Daily \<Longrightarrow> installs p t c \<le> sp_limit t"
proof -
  have range: "0 \<le> c \<and> c < 2 ^ 63"
    using amounts_nth [OF mem_ok_amounts [OF assms(1)]] assms(2) pc unfolding c by (auto simp: spender_ok_def)
  have d: "p = Daily \<Longrightarrow> c < 2 ^ 62"
    using assms(2,3) pc unfolding c by (auto simp: spender_ok_def daily_small_def list_all_length)
  have ok: "\<not> refuses p t c" "phase_ok p t" "0 \<le> sp_price t" "sp_price t < 2 ^ 62"
    using assms(2) pc by (auto simp: spender_ok_def)
  have up: "p = UndoCamp \<or> p = UndoCust \<Longrightarrow> c + sp_price t < 2 ^ 63"
    using credit [of HBudgets] credit [of HCustomer] ok(2) pc unfolding c
    by (auto simp: phase_slot_def phase_ok_def)
  have "installs p t c = c + sign (phase_holder p) *
      ((if took_pc (phase_holder p) t (sp_pc t) then sp_price t else 0) -
       (if took_pc (phase_holder p) t (after_ok p t) then sp_price t else 0)) \<and>
    0 \<le> installs p t c \<and> installs p t c < 2 ^ 63 \<and> (p = Daily \<longrightarrow> installs p t c \<le> sp_limit t)"
    using range d ok up pc by (cases p) (auto simp: in_i64_def phase_ok_def)
  then show "installs p t c = c + sign (phase_holder p) *
      ((if took_pc (phase_holder p) t (sp_pc t) then sp_price t else 0) -
       (if took_pc (phase_holder p) t (after_ok p t) then sp_price t else 0))"
    and "0 \<le> installs p t c" "installs p t c < 2 ^ 63"
    and "p = Daily \<Longrightarrow> installs p t c \<le> sp_limit t" by blast+
qed

lemma took_pc_after_ok_other:
  "h \<noteq> phase_holder p \<Longrightarrow> phase_ok p t \<Longrightarrow> took_pc h t (after_ok p t) = took_pc h t (CasAt p a c)"
  by (cases p; cases h) (auto simp: phase_ok_def)

lemma pc_ok_after_ok: "phase_ok p t \<Longrightarrow> pc_ok m t (after_ok p t)"
  by (cases p) (auto simp: phase_ok_def)

lemma sum_list_map_update:
  "i < length xs \<Longrightarrow> sum_list (map f (xs[i := y])) = sum_list (map f xs) - f (xs ! i) + (f y :: int)"
  by (induction xs arbitrary: i) (auto split: nat.splits)

lemma nth_le_sum_list:
  "i < length xs \<Longrightarrow> (\<And>x. x \<in> set xs \<Longrightarrow> 0 \<le> f x) \<Longrightarrow> f (xs ! i) \<le> (sum_list (map f xs) :: int)"
proof (induction xs arbitrary: i)
  case (Cons x xs)
  then show ?case
    using sum_list_nonneg [of "map f xs"] Cons.IH [of "i - 1"]
    by (cases i) (force intro: order_trans)+
qed simp

definition balanced :: "spend_mem \<Rightarrow> spend_mem \<Rightarrow> spender list \<Rightarrow> bool" where
  "balanced m0 m ts \<longleftrightarrow> (\<forall>h idx. unat idx < length (view h m0) \<longrightarrow>
     view h m ! unat idx + sign h * (\<Sum>t\<leftarrow>ts. took h idx t) = view h m0 ! unat idx)"

definition capped :: "(u32 \<Rightarrow> int) \<Rightarrow> spend_mem \<Rightarrow> bool" where
  "capped lim m \<longleftrightarrow> (\<forall>idx. unat idx < length (view HDaily m) \<longrightarrow> 0 < lim idx \<longrightarrow>
     view HDaily m ! unat idx \<le> lim idx)"

definition conc_inv :: "u32 \<Rightarrow> (u32 \<Rightarrow> int) \<Rightarrow> spend_mem \<Rightarrow> spend_mem \<times> spender list \<Rightarrow> bool" where
  "conc_inv day lim m0 = (\<lambda>(m, ts). mem_ok day m \<and> daily_small m \<and>
     (\<forall>t\<in>set ts. spender_ok m t \<and> sp_limit t = lim (sp_campaign t)) \<and>
     (\<forall>h. length (view h m) = length (view h m0)) \<and> mem_ok day m0 \<and> balanced m0 m ts \<and> capped lim m)"

lemma took_nonneg: "spender_ok m t \<Longrightarrow> 0 \<le> took h idx t"
  by (simp add: took_def spender_ok_def)

lemma credit_bound:
  assumes inv: "conc_inv day lim m0 (m, ts)" and i: "i < length ts" and h: "h \<noteq> HDaily"
    and took: "took_pc h (ts ! i) (sp_pc (ts ! i))"
  shows "view h m ! unat (holder_slot h (ts ! i)) + sp_price (ts ! i) < 2 ^ 63"
proof -
  let ?t = "ts ! i" and ?idx = "holder_slot h (ts ! i)"
  have ok: "\<And>t. t \<in> set ts \<Longrightarrow> spender_ok m t" using inv by (simp add: conc_inv_def)
  have len: "unat ?idx < length (view h m0)"
    using ok [OF nth_mem [OF i]] took inv by (auto simp: spender_ok_def conc_inv_def)
  have "took h ?idx ?t \<le> (\<Sum>t\<leftarrow>ts. took h ?idx t)"
    by (rule nth_le_sum_list [OF i]) (rule took_nonneg [OF ok])
  moreover have "view h m ! unat ?idx + (\<Sum>t\<leftarrow>ts. took h ?idx t) = view h m0 ! unat ?idx"
    using inv len h by (cases h) (auto simp: conc_inv_def balanced_def dest!: spec [of _ h])
  moreover have "view h m0 ! unat ?idx < 2 ^ 63"
    using amounts_nth [OF mem_ok_amounts, of day m0] len inv by (auto simp: conc_inv_def)
  moreover have "took h ?idx ?t = sp_price ?t" using took by (simp add: took_def)
  ultimately show ?thesis by linarith
qed

lemma conc_inv_local:
  assumes inv: "conc_inv day lim m0 (m, ts)" and i: "i < length ts"
    and t': "t' = (ts ! i)\<lparr>sp_pc := sp_pc t'\<rparr>" and pc: "pc_ok m (ts ! i) (sp_pc t')"
    and same: "\<And>h. took_pc h (ts ! i) (sp_pc t') \<longleftrightarrow> took_pc h (ts ! i) (sp_pc (ts ! i))"
  shows "conc_inv day lim m0 (m, ts[i := t'])"
proof -
  let ?pc = "sp_pc t'"
  have fields: "sp_price t' = sp_price (ts ! i)" "sp_limit t' = sp_limit (ts ! i)"
      "sp_campaign t' = sp_campaign (ts ! i)" "\<And>h. holder_slot h t' = holder_slot h (ts ! i)"
      "\<And>h pc. took_pc h t' pc = took_pc h (ts ! i) pc" "\<And>pc. pc_ok m t' pc = pc_ok m (ts ! i) pc"
    by (subst t', simp add: took_upd)+
  have ok: "spender_ok m (ts ! i)" "sp_limit (ts ! i) = lim (sp_campaign (ts ! i))"
    using inv nth_mem [OF i] by (auto simp: conc_inv_def)
  have "spender_ok m t'" using ok(1) pc same by (simp add: spender_ok_def fields)
  moreover have "took h idx t' = took h idx (ts ! i)" for h idx by (simp add: took_def fields same)
  ultimately show ?thesis
    using inv ok(2) i set_update_subset_insert [of ts i t']
    by (auto simp: conc_inv_def balanced_def sum_list_map_update fields)
qed

lemma swap_conserves:
  assumes mo: "mem_ok day m" and pok: "phase_ok p t" and len: "unat idx < length (view h m)"
    and pc: "sp_pc t = CasAt p (holder_ptr (phase_holder p) m) c"
    and c: "c = view (phase_holder p) m ! unat (phase_slot p t)"
    and val: "installs p t c = c + sign (phase_holder p) *
      ((if took_pc (phase_holder p) t (sp_pc t) then sp_price t else 0) -
       (if took_pc (phase_holder p) t (after_ok p t) then sp_price t else 0))"
  shows "view h (put_slot (phase_holder p) (unat (phase_slot p t)) (installs p t c) m) ! unat idx +
      sign h * took h idx (t\<lparr>sp_pc := after_ok p t\<rparr>) = view h m ! unat idx + sign h * took h idx t"
proof (cases "h = phase_holder p")
  case True
  then show ?thesis
    using len val c pc
    by (cases "idx = phase_slot p t") (auto simp: view_put_slot [OF mo] took_def took_upd phase_slot_def
        nth_list_update word_unat_eq_iff algebra_simps)
next
  case False
  then show ?thesis
    using took_pc_after_ok_other [OF False pok] pc by (auto simp: view_put_slot [OF mo] took_def took_upd)
qed

lemma conc_inv_swap:
  assumes inv: "conc_inv day lim m0 (m, ts)" and i: "i < length ts"
    and pc: "sp_pc (ts ! i) = CasAt p (holder_ptr (phase_holder p) m) c"
    and c: "c = view (phase_holder p) m ! unat (phase_slot p (ts ! i))"
  shows "conc_inv day lim m0
    (put_slot (phase_holder p) (unat (phase_slot p (ts ! i))) (installs p (ts ! i) c) m,
     ts[i := (ts ! i)\<lparr>sp_pc := after_ok p (ts ! i)\<rparr>])"
proof -
  let ?t = "ts ! i" and ?h = "phase_holder p"
  let ?s = "phase_slot p ?t" and ?v = "installs p ?t c"
  let ?m = "put_slot ?h (unat ?s) ?v m" and ?u = "?t\<lparr>sp_pc := after_ok p ?t\<rparr>"
  have mo: "mem_ok day m" and ds: "daily_small m" and ok: "spender_ok m ?t"
    and lim: "sp_limit ?t = lim (sp_campaign ?t)"
    and len0: "\<And>h. length (view h m) = length (view h m0)"
    using inv nth_mem [OF i] by (auto simp: conc_inv_def)
  note val = swap_value [OF mo ok ds pc c credit_bound [OF inv i]]
  have pok: "phase_ok p ?t" and slot: "unat ?s < length (view ?h m)" using ok pc by (auto simp: spender_ok_def)
  have len: "length (view k ?m) = length (view k m)" for k by (rule length_view_put_slot [OF mo])
  have "mem_ok day ?m" by (rule mem_ok_put_slot [OF mo val(2,3)])
  moreover have dval: "p = Daily \<Longrightarrow> ?v \<le> sp_limit ?t \<and> ?v < 2 ^ 62"
    using val(4) ok by (auto simp: spender_ok_def)
  have "daily_small ?m"
    using ds dval slot by (cases p) (auto simp: daily_small_def view_put_slot [OF mo] list_all_length nth_list_update)
  moreover have "spender_ok ?m t" if "spender_ok m t" for t
    by (rule spender_ok_frame [OF that]) (simp_all add: len)
  moreover have u_ok: "spender_ok m ?u"
  proof -
    have "took_pc h ?t (after_ok p ?t) \<Longrightarrow> unat (holder_slot h ?t) < length (view h m)" for h
      using ok pc slot took_pc_after_ok_other [OF _ pok, of h]
      by (cases "h = ?h") (auto simp: spender_ok_def phase_slot_def)
    then show ?thesis
      using ok pc_ok_after_ok [OF pok] by (simp add: spender_ok_def took_upd)
  qed
  have "view h ?m ! unat idx + sign h * took h idx ?u = view h m ! unat idx + sign h * took h idx ?t"
    if "unat idx < length (view h m)" for h idx
    by (rule swap_conserves [OF mo pok that pc c val(1)])
  then have "balanced m0 ?m (ts[i := ?u])"
    using inv i len0 by (fastforce simp: conc_inv_def balanced_def sum_list_map_update algebra_simps)
  moreover have "capped lim ?m"
    using inv dval lim pok slot
    by (cases p) (auto simp: conc_inv_def capped_def view_put_slot [OF mo] nth_list_update phase_slot_def
        word_unat_eq_iff [symmetric])
  ultimately show ?thesis
    using inv lim len u_ok set_update_subset_insert [of ts i ?u] by (auto simp: conc_inv_def)
qed

lemma conc_inv_step:
  assumes "spend_step day (m, ts) (m', ts')" and inv: "conc_inv day lim m0 (m, ts)"
  shows "conc_inv day lim m0 (m', ts')"
proof -
  obtain i t' where i: "i < length ts" and st: "thread_step day m (ts ! i) = (m', t')" and ts': "ts' = ts[i := t']"
    using assms(1) by (blast elim: spend_stepE)
  have "mem_ok day m" "spender_ok m (ts ! i)" using inv nth_mem [OF i] by (auto simp: conc_inv_def)
  then show ?thesis
    using st
  proof (cases rule: thread_step_cases)
    case local_step
    then show ?thesis using conc_inv_local [OF inv i] ts' by simp
  next
    case (swap p c)
    then show ?thesis using conc_inv_swap [OF inv i swap(1,2)] ts' by simp
  qed
qed

lemma conc_inv_reachable:
  assumes "(spend_step day)\<^sup>*\<^sup>* (m, ts) (m', ts')" and "conc_inv day lim m0 (m, ts)"
  shows "conc_inv day lim m0 (m', ts')"
  using assms
proof (induction "(m', ts')" arbitrary: m' ts' rule: rtranclp_induct)
  case (step c)
  then show ?case using conc_inv_step by (cases c) blast
qed simp

text \<open>Spenders that are about to start, with the daily limit of their campaign.\<close>

definition spenders_start :: "u32 \<Rightarrow> (u32 \<Rightarrow> int) \<Rightarrow> spend_mem \<Rightarrow> spender list \<Rightarrow> bool" where
  "spenders_start day lim m ts \<longleftrightarrow> mem_ok day m \<and> daily_small m \<and> capped lim m \<and>
     list_all (\<lambda>t. sp_pc t = Start \<and> 0 \<le> sp_price t \<and> sp_price t < 2 ^ 62 \<and> sp_limit t < 2 ^ 62 \<and>
       sp_limit t = lim (sp_campaign t)) ts"

text \<open>What the spenders that returned true have charged to a slot.\<close>

definition accepted :: "holder \<Rightarrow> u32 \<Rightarrow> spender \<Rightarrow> int" where
  "accepted h idx t = (if sp_pc t = Done True \<and> holder_slot h t = idx \<and>
     (h = HCustomer \<longrightarrow> sp_customer t \<noteq> invalidCustomerBudgetIdx) \<and> (h = HDaily \<longrightarrow> sp_limit t > 0)
     then sp_price t else 0)"

lemma conc_inv_start:
  assumes "spenders_start day lim m ts"
  shows "conc_inv day lim m (m, ts)"
proof -
  have start: "sp_pc t = Start" if "t \<in> set ts" for t
    using assms that by (auto simp: spenders_start_def list_all_iff)
  have "(\<Sum>t\<leftarrow>ts. took h idx t) = 0" for h idx
    by (rule sum_list_0 [THEN trans [rotated]], rule arg_cong [where f = sum_list], rule map_cong)
      (auto simp: took_def start)
  then show ?thesis
    using assms by (auto simp: conc_inv_def spenders_start_def balanced_def list_all_iff spender_ok_def)
qed

lemma took_accepted: "pc_done (sp_pc t) \<Longrightarrow> took h idx t = accepted h idx t"
  by (cases "sp_pc t"; cases h) (auto simp: took_def accepted_def)

lemma conc_inv_final:
  assumes "conc_inv day lim m0 (m, ts)" "\<forall>t\<in>set ts. pc_done (sp_pc t)" "unat idx < length (view h m0)"
  shows "view h m ! unat idx = view h m0 ! unat idx - sign h * (\<Sum>t\<leftarrow>ts. accepted h idx t)"
proof -
  have "(\<Sum>t\<leftarrow>ts. took h idx t) = (\<Sum>t\<leftarrow>ts. accepted h idx t)"
    using assms(2) by (intro arg_cong [where f = sum_list] map_cong) (auto simp: took_accepted)
  then show ?thesis
    using assms(1,3) by (auto simp: conc_inv_def balanced_def algebra_simps dest!: spec [of _ h])
qed

subsection \<open>All spenders finish\<close>

primrec phase_rank :: "phase \<Rightarrow> int" where
  "phase_rank Camp = 5"
| "phase_rank Cust = 4"
| "phase_rank Daily = 3"
| "phase_rank UndoCust = 2"
| "phase_rank UndoCamp = 1"

primrec pc_rank :: "spend_pc \<Rightarrow> int" where
  "pc_rank Start = 6"
| "pc_rank (Slice p) = phase_rank p"
| "pc_rank (LoadAt p a) = phase_rank p"
| "pc_rank (CasAt p a c) = phase_rank p"
| "pc_rank (Done b) = 0"

text \<open>A compare-and-swap that will fail is two steps away from one that will succeed.\<close>

definition micro :: "spend_mem \<Rightarrow> spender \<Rightarrow> int" where
  "micro m t = (case sp_pc t of Slice p \<Rightarrow> 3 | LoadAt p a \<Rightarrow> 1
     | CasAt p a c \<Rightarrow> if heap m a ! unat (phase_slot p t) = c then 0 else 2 | _ \<Rightarrow> 0)"

definition steps_left :: "spend_mem \<times> spender list \<Rightarrow> int" where
  "steps_left = (\<lambda>(m, ts). (2 * int (length ts) + 4) * (\<Sum>t\<leftarrow>ts. pc_rank (sp_pc t)) + (\<Sum>t\<leftarrow>ts. micro m t))"

lemma rank_after: "pc_rank (after_ok p t) < phase_rank p" "pc_rank (after_fail p t) < phase_rank p"
  by (cases p; simp)+

lemma thread_step_progress:
  assumes "thread_step day m t = (m', t')" "\<not> pc_done (sp_pc t)"
  shows "pc_rank (sp_pc t') < pc_rank (sp_pc t) \<or>
    m' = m \<and> pc_rank (sp_pc t') = pc_rank (sp_pc t) \<and> micro m t' < micro m t"
  using assms rank_after
  by (cases "sp_pc t") (auto simp: thread_step_def micro_def phase_slot_def took_upd Let_def split: if_splits)

lemma micro_bounds: "0 \<le> micro m t" "micro m t \<le> 3" "micro m' t \<le> micro m t + 2"
  by (auto simp: micro_def split: spend_pc.split)

lemma sum_micro_le: "(\<Sum>t\<leftarrow>ts. micro m' t) \<le> (\<Sum>t\<leftarrow>ts. micro m t) + 2 * int (length ts)"
proof (induction ts)
  case (Cons t ts)
  then show ?case using micro_bounds(3) [of m' t m] by simp
qed simp

lemma steps_left_decreases:
  assumes "spend_step day (m, ts) (m', ts')"
  shows "steps_left (m', ts') < steps_left (m, ts)"
proof -
  obtain i t' where i: "i < length ts" and nd: "\<not> pc_done (sp_pc (ts ! i))"
    and st: "thread_step day m (ts ! i) = (m', t')" and ts': "ts' = ts[i := t']"
    using assms by (blast elim: spend_stepE)
  let ?N = "2 * int (length ts) + 4" and ?t = "ts ! i"
  let ?R = "\<Sum>t\<leftarrow>ts. pc_rank (sp_pc t)" and ?R' = "pc_rank (sp_pc t') - pc_rank (sp_pc ?t)"
  have left: "steps_left (m', ts') = ?N * (?R + ?R') + ((\<Sum>t\<leftarrow>ts. micro m' t) - micro m' ?t + micro m' t')"
    by (simp add: steps_left_def ts' sum_list_map_update [OF i] algebra_simps)
  from thread_step_progress [OF st nd] show ?thesis
  proof
    assume "pc_rank (sp_pc t') < pc_rank (sp_pc ?t)"
    then have "?N * (?R + ?R') \<le> ?N * (?R - 1)" by (intro mult_left_mono) auto
    then have "?N * (?R + ?R') \<le> ?N * ?R - ?N" by (simp add: algebra_simps)
    then show ?thesis
      using sum_micro_le [of m' ts m] micro_bounds(1) [of m' ?t] micro_bounds(2) [of m' t']
      unfolding left by (simp add: steps_left_def)
  next
    assume "m' = m \<and> pc_rank (sp_pc t') = pc_rank (sp_pc ?t) \<and> micro m t' < micro m ?t"
    then show ?thesis unfolding left by (simp add: steps_left_def)
  qed
qed

lemma steps_left_nonneg: "0 \<le> steps_left c"
proof -
  have "0 \<le> phase_rank p" for p by (cases p) simp_all
  then have "0 \<le> pc_rank pc" for pc by (cases pc) simp_all
  then show ?thesis
    by (cases c) (auto simp: steps_left_def micro_bounds intro!: add_nonneg_nonneg mult_nonneg_nonneg sum_list_nonneg)
qed

lemma run_length:
  "(spend_step day ^^ n) c c' \<Longrightarrow> int n + steps_left c' \<le> steps_left c"
proof (induction n arbitrary: c')
  case (Suc n)
  then obtain d where "(spend_step day ^^ n) c d" "spend_step day d c'" by auto
  then show ?case
    using Suc.IH [of d] steps_left_decreases [of day "fst d" "snd d" "fst c'" "snd c'"] by simp
qed simp

lemma steps_left_start:
  assumes "spenders_start day lim m ts"
  shows "steps_left (m, ts) = 12 * int (length ts) * int (length ts) + 24 * int (length ts)"
proof -
  have start: "sp_pc t = Start" if "t \<in> set ts" for t
    using assms that by (auto simp: spenders_start_def list_all_iff)
  have "map (\<lambda>t. pc_rank (sp_pc t)) ts = map (\<lambda>t. 6) ts" "map (micro m) ts = map (\<lambda>t. 0) ts"
    by (simp_all add: start micro_def)
  then show ?thesis
    by (simp add: steps_left_def sum_list_triv algebra_simps del: map_eq_conv)
qed

lemma spend_step_enabled:
  "(\<exists>c'. spend_step day (m, ts) c') \<longleftrightarrow> (\<exists>t\<in>set ts. \<not> pc_done (sp_pc t))"
proof
  assume "\<exists>t\<in>set ts. \<not> pc_done (sp_pc t)"
  then obtain i where "i < length ts" "\<not> pc_done (sp_pc (ts ! i))" by (auto simp: in_set_conv_nth)
  then show "\<exists>c'. spend_step day (m, ts) c'"
    using spend_stepI [of i ts day m] by (cases "thread_step day m (ts ! i)") blast
qed (auto elim!: spend_stepE)

subsection \<open>Schedules\<close>

text \<open>An executable scheduler: the list names the spender to run next.\<close>

primrec run_schedule :: "u32 \<Rightarrow> nat list \<Rightarrow> spend_mem \<times> spender list \<Rightarrow> spend_mem \<times> spender list" where
  "run_schedule day [] c = c"
| "run_schedule day (i # is) c =
     (let (m, ts) = c in
      if i < length ts \<and> \<not> pc_done (sp_pc (ts ! i))
      then let (m', t') = thread_step day m (ts ! i) in run_schedule day is (m', ts[i := t'])
      else run_schedule day is c)"

lemma run_schedule_steps: "(spend_step day)\<^sup>*\<^sup>* c (run_schedule day is c)"
proof (induction "is" arbitrary: c)
  case (Cons i "is")
  then show ?case
    by (auto simp: Let_def split: prod.splits intro: converse_rtranclp_into_rtranclp spend_stepI)
qed simp

text \<open>C4. Goroutines that run CheckAndSpendAll at the same time never overspend, however their
  atomic operations interleave: at every moment no campaign and no customer balance is
  negative and no daily counter is above its limit; once all of them have returned, each
  balance has lost exactly the prices of the calls that returned true.\<close>

theorem spenders_never_overspend:
  assumes "spenders_start day lim m ts" and "(spend_step day)\<^sup>*\<^sup>* (m, ts) (m', ts')"
    and "unat idx < length (view h m)"
  shows "0 \<le> view h m' ! unat idx \<and>
    (h = HDaily \<and> 0 < lim idx \<longrightarrow> view h m' ! unat idx \<le> lim idx) \<and>
    ((\<forall>t\<in>set ts'. pc_done (sp_pc t)) \<longrightarrow>
      view h m' ! unat idx = view h m ! unat idx - sign h * (\<Sum>t\<leftarrow>ts'. accepted h idx t))"
proof -
  have inv: "conc_inv day lim m (m', ts')"
    by (rule conc_inv_reachable [OF assms(2) conc_inv_start [OF assms(1)]])
  then have len: "unat idx < length (view h m')" and mo: "mem_ok day m'"
    using assms(3) by (auto simp: conc_inv_def)
  have "h = HDaily \<and> 0 < lim idx \<longrightarrow> view h m' ! unat idx \<le> lim idx"
    using inv len by (auto simp: conc_inv_def capped_def)
  then show ?thesis
    using amounts_nth [OF mem_ok_amounts [OF mo] len] conc_inv_final [OF inv _ assms(3)] by blast
qed

text \<open>C17. Every interleaving of \<open>n\<close> goroutines in CheckAndSpendAll comes to an end: it makes at
  most \<open>12 n\<^sup>2 + 24 n\<close> atomic steps, retries of lost compare-and-swaps included, and it can
  only stop when all calls have returned.\<close>

theorem spenders_finish:
  assumes "spenders_start day lim m ts" and "(spend_step day ^^ n) (m, ts) (m', ts')"
  shows "int n \<le> 12 * int (length ts) * int (length ts) + 24 * int (length ts) \<and>
    ((\<nexists>c. spend_step day (m', ts') c) \<longleftrightarrow> (\<forall>t\<in>set ts'. pc_done (sp_pc t)))"
  using run_length [OF assms(2)] steps_left_nonneg [of "(m', ts')"] steps_left_start [OF assms(1)]
    spend_step_enabled [of day m' ts'] by auto


definition solo_mem :: "u32 \<Rightarrow> int \<Rightarrow> spend_mem" where
  "solo_mem day b = \<lparr>heap = (\<lambda>_. [])(0 := [b], 1 := [b], 2 := [0]), budgetsPtr = 0, customerPtr = 1,
     dailyPtr = 2, freePtr = 3, memEpoch = day\<rparr>"

definition whole_spender :: "int \<Rightarrow> spender" where
  "whole_spender b = \<lparr>sp_campaign = 0, sp_customer = invalidCustomerBudgetIdx, sp_price = b, sp_limit = 0,
     sp_pc = Start\<rparr>"

lemma store_run: "(store_step day)\<^sup>*\<^sup>* c (run_schedule day is c)"
  using run_schedule_steps [of day c "is"]
  by (induction rule: rtranclp_induct) (auto intro: rtranclp.rtrancl_into_rtrancl store_spend)

text \<open>C34. An allocation beside running spenders can lose a spend: GetOrAllocateSlot copies the
  balances and publishes the copy, and a spender that fetched the slice before charges the
  old one. Two calls that each take the whole budget of a campaign can both succeed.\<close>

theorem allocation_loses_spend:
  assumes "0 < b" and "b < 2 ^ 62"
  shows "\<exists>m' ts'. (store_step day)\<^sup>*\<^sup>* (solo_mem day b, [whole_spender b, whole_spender b]) (m', ts') \<and>
    map sp_pc ts' = [Done True, Done True] \<and> view HBudgets (solo_mem day b) ! 0 = b \<and>
    (\<Sum>t\<leftarrow>ts'. accepted HBudgets 0 t) = 2 * b"
proof -
  define c1 where "c1 = run_schedule day [0, 0, 0] (solo_mem day b, [whole_spender b, whole_spender b])"
  define c2 where "c2 = run_schedule day [0, 1, 1, 1, 1] (grow_mem 0 (fst c1), snd c1)"
  have "(store_step day)\<^sup>*\<^sup>* (solo_mem day b, [whole_spender b, whole_spender b]) c1"
    unfolding c1_def by (rule store_run)
  also have "(store_step day) c1 (grow_mem 0 (fst c1), snd c1)"
    using store_grow [of day "fst c1" "snd c1" 0] by simp
  also have "(store_step day)\<^sup>*\<^sup>* (grow_mem 0 (fst c1), snd c1) c2"
    unfolding c2_def by (rule store_run)
  finally have "(store_step day)\<^sup>*\<^sup>* (solo_mem day b, [whole_spender b, whole_spender b]) c2" .
  moreover have "map sp_pc (snd c2) = [Done True, Done True] \<and>
      (\<Sum>t\<leftarrow>snd c2. accepted HBudgets 0 t) = 2 * b"
    using assms
    by (simp add: c1_def c2_def thread_step_def solo_mem_def whole_spender_def phase_slot_def in_slice_def
        u32_of_def view_def grow_mem_def Let_def accepted_def in_i64_def)
  moreover have "view HBudgets (solo_mem day b) ! 0 = b" by (simp add: view_def solo_mem_def)
  ultimately show ?thesis
    by (intro exI [of _ "fst c2"] exI [of _ "snd c2"]) simp
qed

section \<open>A spender on its own\<close>

text \<open>Run without interference the step model does what the sequential model does. \<open>models\<close>
  relates the two states.\<close>

definition models :: "spend_mem \<Rightarrow> budget_store \<Rightarrow> bool" where
  "models m s \<longleftrightarrow> (\<forall>h. view h m = held h s \<and> holder_ptr h m < freePtr m) \<and> memEpoch m = dailyEpoch s \<and>
     budgetsPtr m \<noteq> customerPtr m \<and> budgetsPtr m \<noteq> dailyPtr m \<and> customerPtr m \<noteq> dailyPtr m"

primrec solo :: "u32 \<Rightarrow> nat \<Rightarrow> spend_mem \<times> spender \<Rightarrow> spend_mem \<times> spender" where
  "solo day 0 c = c"
| "solo day (Suc n) c = solo day n (thread_step day (fst c) (snd c))"

lemma solo_add: "solo day (a + b) c = solo day b (solo day a c)"
  by (induction a arbitrary: c) simp_all

lemma solo_done: "solo day n (m, t\<lparr>sp_pc := Done b\<rparr>) = (m, t\<lparr>sp_pc := Done b\<rparr>)"
  by (induction n) (simp_all add: thread_step_def)

definition phase_result :: "phase \<Rightarrow> spender \<Rightarrow> budget_store \<Rightarrow> budget_store \<times> bool" where
  "phase_result p t s =
     (case p of
        Camp \<Rightarrow> checkAndSpendOn HBudgets (sp_campaign t) (sp_price t) s
      | Cust \<Rightarrow> checkAndSpendOn HCustomer (sp_customer t) (sp_price t) s
      | Daily \<Rightarrow> checkAndAddDailySpend (sp_campaign t) (sp_price t) (sp_limit t) s
      | UndoCust \<Rightarrow> (creditOn HCustomer (sp_customer t) (sp_price t) s, True)
      | UndoCamp \<Rightarrow> (creditOn HBudgets (sp_campaign t) (sp_price t) s, True))"

lemma all_holders: "(\<forall>h. P h) \<longleftrightarrow> P HBudgets \<and> P HCustomer \<and> P HDaily"
  by (metis holder.exhaust)

lemma models_put:
  assumes "models m s"
  shows "models (m\<lparr>heap := (heap m)(holder_ptr h m := xs)\<rparr>) (set_held h xs s)"
  using assms by (cases h) (auto simp: models_def view_def all_holders)

lemma models_view: "models m s \<Longrightarrow> heap m (holder_ptr h m) = held h s"
  by (simp add: models_def view_def)

definition ends :: "u32 \<Rightarrow> nat \<Rightarrow> spend_mem \<Rightarrow> spend_pc \<Rightarrow> spender \<Rightarrow> budget_store \<times> bool \<Rightarrow> bool" where
  "ends day k m pc t r \<longleftrightarrow> (\<exists>n\<le>k. \<exists>m'. models m' (fst r) \<and>
     solo day n (m, t\<lparr>sp_pc := pc\<rparr>) = (m', t\<lparr>sp_pc := Done (snd r)\<rparr>))"

lemma phase_slot_upd [simp]: "phase_slot p (t\<lparr>sp_pc := pc\<rparr>) = phase_slot p t"
  by (simp add: phase_slot_def took_upd)

lemma installs_upd [simp]: "installs p (t\<lparr>sp_pc := pc\<rparr>) c = installs p t c"
  by (cases p) simp_all

lemma after_upd [simp]: "after_ok p (t\<lparr>sp_pc := pc\<rparr>) = after_ok p t"
    "after_fail p (t\<lparr>sp_pc := pc\<rparr>) = after_fail p t"
  by (cases p; simp)+

lemma phase_result_eq:
  "phase_result p t s =
     (let xs = held (phase_holder p) s; i = unat (phase_slot p t) in
      if \<not> in_slice (phase_slot p t) xs then (s, p \<in> {UndoCust, UndoCamp})
      else if refuses p t (xs ! i) then (s, False)
      else (set_held (phase_holder p) (xs[i := installs p t (xs ! i)]) s, True))"
  by (cases p) (simp_all add: phase_result_def phase_slot_def checkAndSpendOn_def creditOn_def
      checkAndAddDailySpend_def Let_def)

lemma after_undo: "p \<in> {UndoCust, UndoCamp} \<Longrightarrow> after_fail p t = after_ok p t"
  by auto

lemma solo_phase:
  assumes "models m s"
  shows "\<exists>n\<le>3. \<exists>m'. models m' (fst (phase_result p t s)) \<and> solo day n (m, t\<lparr>sp_pc := Slice p\<rparr>) =
      (m', t\<lparr>sp_pc := if snd (phase_result p t s) then after_ok p t else after_fail p t\<rparr>)"
proof -
  let ?h = "phase_holder p" and ?i = "unat (phase_slot p t)"
  let ?xs = "held ?h s"
  note mv = models_view [OF assms, of ?h]
  consider (out) "\<not> in_slice (phase_slot p t) ?xs" | (refused) "in_slice (phase_slot p t) ?xs" "refuses p t (?xs ! ?i)"
    | (swap) "in_slice (phase_slot p t) ?xs" "\<not> refuses p t (?xs ! ?i)" by blast
  then show ?thesis
  proof cases
    case out
    then show ?thesis
      using assms after_undo [of p t]
      by (intro exI [of _ "Suc 0"] conjI exI [of _ m]) (auto simp: phase_result_eq Let_def thread_step_def mv)
  next
    case refused
    then show ?thesis
      using assms by (intro exI [of _ "Suc (Suc 0)"] conjI exI [of _ m]) (auto simp: phase_result_eq Let_def thread_step_def mv)
  next
    case swap
    then show ?thesis
      using models_put [OF assms, of ?h]
      by (intro exI [of _ "Suc (Suc (Suc 0))"] conjI
          exI [of _ "m\<lparr>heap := (heap m)(holder_ptr ?h m := ?xs[?i := installs p t (?xs ! ?i)])\<rparr>"])
        (auto simp: phase_result_eq Let_def thread_step_def mv)
  qed
qed

lemma ends_phase:
  assumes "models m s"
    and "\<And>m'. models m' (fst (phase_result p t s)) \<Longrightarrow>
      ends day k m' (if snd (phase_result p t s) then after_ok p t else after_fail p t) t r"
  shows "ends day (3 + k) m (Slice p) t r"
proof -
  obtain n m' where n: "n \<le> 3" "models m' (fst (phase_result p t s))"
    "solo day n (m, t\<lparr>sp_pc := Slice p\<rparr>) =
      (m', t\<lparr>sp_pc := if snd (phase_result p t s) then after_ok p t else after_fail p t\<rparr>)"
    using solo_phase [OF assms(1)] by blast
  obtain n' m'' where n': "n' \<le> k" "models m'' (fst r)"
    "solo day n' (m', t\<lparr>sp_pc := if snd (phase_result p t s) then after_ok p t else after_fail p t\<rparr>) =
      (m'', t\<lparr>sp_pc := Done (snd r)\<rparr>)"
    using assms(2) [OF n(2)] by (auto simp: ends_def)
  show ?thesis
    unfolding ends_def using n n' by (intro exI [of _ "n + n'"]) (auto simp: solo_add)
qed

lemma ends_done: "models m (fst r) \<Longrightarrow> pc = Done (snd r) \<Longrightarrow> ends day 0 m pc t r"
  by (auto simp: ends_def)

lemma ends_more: "ends day k m pc t r \<Longrightarrow> k \<le> k' \<Longrightarrow> ends day k' m pc t r"
  by (auto simp: ends_def intro: order_trans)

lemma ends_undo_camp:
  "models m s \<Longrightarrow> ends day 3 m (Slice UndoCamp) t (creditOn HBudgets (sp_campaign t) (sp_price t) s, False)"
  by (rule ends_phase [where k = 0, simplified]) (auto simp: phase_result_def intro!: ends_done)

definition undo_all :: "spender \<Rightarrow> budget_store \<Rightarrow> budget_store" where
  "undo_all t s = creditOn HBudgets (sp_campaign t) (sp_price t)
     (if sp_customer t \<noteq> invalidCustomerBudgetIdx then creditOn HCustomer (sp_customer t) (sp_price t) s else s)"

lemma ends_undo:
  assumes "models m s"
  shows "ends day 6 m (after_fail Daily t) t (undo_all t s, False)"
proof (cases "sp_customer t = invalidCustomerBudgetIdx")
  case True
  then show ?thesis using ends_undo_camp [OF assms, of day t] by (auto simp: undo_all_def intro: ends_more)
next
  case False
  have "ends day (3 + 3) m (Slice UndoCust) t (undo_all t s, False)"
    using False by (intro ends_phase [OF assms]) (auto simp: phase_result_def undo_all_def intro: ends_undo_camp)
  then show ?thesis using False by simp
qed

definition finish_daily :: "spender \<Rightarrow> budget_store \<Rightarrow> budget_store \<times> bool" where
  "finish_daily t s =
     (if sp_limit t > 0
      then let (s', ok) = checkAndAddDailySpend (sp_campaign t) (sp_price t) (sp_limit t) s
           in if ok then (s', True) else (undo_all t s', False)
      else (s, True))"

lemma ends_daily:
  assumes "models m s"
  shows "ends day 9 m (after_ok Cust t) t (finish_daily t s)"
proof (cases "sp_limit t > 0")
  case True
  have "ends day (3 + 6) m (Slice Daily) t (finish_daily t s)"
    using True by (intro ends_phase [OF assms])
      (auto simp: phase_result_def finish_daily_def simp del: after_fail.simps split: prod.splits
        intro: ends_undo ends_more [OF ends_done])
  then show ?thesis using True by simp
next
  case False
  then show ?thesis using assms by (auto simp: finish_daily_def intro: ends_more [OF ends_done])
qed

definition finish_customer :: "spender \<Rightarrow> budget_store \<Rightarrow> budget_store \<times> bool" where
  "finish_customer t s =
     (if sp_customer t \<noteq> invalidCustomerBudgetIdx
      then let (s', ok) = checkAndSpendOn HCustomer (sp_customer t) (sp_price t) s
           in if ok then finish_daily t s' else (creditOn HBudgets (sp_campaign t) (sp_price t) s', False)
      else finish_daily t s)"

lemma ends_customer:
  assumes "models m s"
  shows "ends day 12 m (after_ok Camp t) t (finish_customer t s)"
proof (cases "sp_customer t = invalidCustomerBudgetIdx")
  case True
  then show ?thesis
    using ends_more [OF ends_daily [OF assms, of day t], of 12] by (simp add: finish_customer_def)
next
  case False
  have "ends day (3 + 9) m (Slice Cust) t (finish_customer t s)"
    using False by (intro ends_phase [OF assms])
      (auto simp: phase_result_def finish_customer_def simp del: after_ok.simps split: prod.splits
        intro: ends_daily ends_more [OF ends_undo_camp])
  then show ?thesis using False by simp
qed

lemma CheckAndSpendAll_stages:
  "CheckAndSpendAll day (sp_campaign t) (sp_customer t) (sp_price t) (sp_limit t) s =
     (let s0 = (if sp_limit t > 0 then maybeRollDaily day s else s) in
      if sp_limit t > 0 \<and> loadDailyHeadroom (sp_campaign t) (sp_limit t) s0 < sp_price t then (s0, False)
      else let (s1, ok1) = checkAndSpendOn HBudgets (sp_campaign t) (sp_price t) s0
           in if ok1 then finish_customer t s1 else (s1, False))"
  by (auto simp: CheckAndSpendAll_def finish_customer_def finish_daily_def undo_all_def Let_def split: prod.splits)

lemma models_roll: "models m s \<Longrightarrow> models (roll_mem day m) (maybeRollDaily day s)"
  by (auto simp: models_def roll_mem_def maybeRollDaily_def view_def all_holders)

lemma headroom_models: "models m s \<Longrightarrow> sp_limit t > 0 \<Longrightarrow>
    headroom m t = loadDailyHeadroom (sp_campaign t) (sp_limit t) s"
  by (simp add: headroom_def loadDailyHeadroom_def loadOn_def models_def)

lemma ends_start:
  assumes "models m s" and "sp_pc t = Start"
  shows "ends day 16 m Start t (CheckAndSpendAll day (sp_campaign t) (sp_customer t) (sp_price t) (sp_limit t) s)"
    (is "ends _ _ _ _ _ ?r")
proof -
  define s0 where "s0 = (if sp_limit t > 0 then maybeRollDaily day s else s)"
  define m0 where "m0 = (if sp_limit t > 0 then roll_mem day m else m)"
  define blocked where "blocked \<longleftrightarrow> sp_limit t > 0 \<and> headroom m0 t < sp_price t"
  have mod: "models m0 s0" using assms(1) by (simp add: m0_def s0_def models_roll)
  have r: "?r = (if blocked then (s0, False)
      else let (s1, ok1) = checkAndSpendOn HBudgets (sp_campaign t) (sp_price t) s0
           in if ok1 then finish_customer t s1 else (s1, False))"
    unfolding CheckAndSpendAll_stages s0_def [symmetric]
    by (auto simp: Let_def blocked_def headroom_models [OF mod])
  have first: "solo day (Suc n) (m, t\<lparr>sp_pc := Start\<rparr>) =
      solo day n (m0, t\<lparr>sp_pc := if blocked then Done False else Slice Camp\<rparr>)" for n
    by (auto simp: thread_step_def m0_def blocked_def Let_def headroom_def)
  have "ends day 15 m0 (if blocked then Done False else Slice Camp) t ?r"
  proof (cases blocked)
    case True
    then show ?thesis using mod by (auto simp: r intro: ends_more [OF ends_done])
  next
    case False
    have "ends day (3 + 12) m0 (Slice Camp) t ?r"
      using False by (intro ends_phase [OF mod])
        (auto simp: r phase_result_def simp del: after_ok.simps split: prod.splits
          intro: ends_customer ends_more [OF ends_done])
    then show ?thesis using False by simp
  qed
  then obtain n m' where "n \<le> 15" "models m' (fst ?r)"
      "solo day n (m0, t\<lparr>sp_pc := if blocked then Done False else Slice Camp\<rparr>) = (m', t\<lparr>sp_pc := Done (snd ?r)\<rparr>)"
    by (auto simp: ends_def)
  then show ?thesis
    unfolding ends_def using first [of n] by (intro exI [of _ "Suc n"]) auto
qed


section \<open>Histories of the store\<close>

datatype store_op =
    OpSlot u64 int
  | OpCustomerSlot u64 int
  | OpSetBudget u64 int
  | OpSetCustomerBudget u64 int
  | OpSetDailySpend u32 u32 int
  | OpSpend u32 int
  | OpSpendAll u32 u32 u32 int int

primrec apply_op :: "store_op \<Rightarrow> budget_store \<Rightarrow> budget_store" where
  "apply_op (OpSlot cid v) s = fst (GetOrAllocateSlot cid v s)"
| "apply_op (OpCustomerSlot cid v) s = fst (GetOrAllocateCustomerSlot cid v s)"
| "apply_op (OpSetBudget cid v) s = SetBudget cid v s"
| "apply_op (OpSetCustomerBudget cid v) s = SetCustomerBudget cid v s"
| "apply_op (OpSetDailySpend day idx v) s = SetDailySpend day idx v s"
| "apply_op (OpSpend idx p) s = fst (CheckAndSpend idx p s)"
| "apply_op (OpSpendAll day ci ui p limit) s = fst (CheckAndSpendAll day ci ui p limit s)"

primrec op_ok :: "store_op \<Rightarrow> bool" where
  "op_ok (OpSlot cid v) = in_i64 v"
| "op_ok (OpCustomerSlot cid v) = in_i64 v"
| "op_ok (OpSetBudget cid v) = in_i64 v"
| "op_ok (OpSetCustomerBudget cid v) = in_i64 v"
| "op_ok (OpSetDailySpend day idx v) = in_i64 v"
| "op_ok (OpSpend idx p) = (0 \<le> p)"
| "op_ok (OpSpendAll day ci ui p limit) = (0 \<le> p \<and> limit < 2 ^ 63)"

lemma length_rolled [simp]:
  "length (budgets (rolled day l s)) = length (budgets s)"
  "length (customerBudgets (rolled day l s)) = length (customerBudgets s)"
  by (simp_all add: rolled_def maybeRollDaily_def)

lemma length_charge [simp]:
  "length (budgets (charge h i p s)) = length (budgets s)"
  "length (customerBudgets (charge h i p s)) = length (customerBudgets s)"
  by (cases h; simp add: charge_def)+

lemma length_charge_all [simp]:
  "length (budgets (charge_all ci ui p l s)) = length (budgets s)"
  "length (customerBudgets (charge_all ci ui p l s)) = length (customerBudgets s)"
  by (simp_all add: charge_all_def Let_def)

lemmas store_op_defs = GetOrAllocateSlot_def GetOrAllocateCustomerSlot_def SetBudget_def SetCustomerBudget_def
  SetDailySpend_def addDailySpendLocked_def maybeRollDaily_def appendSlotLocked_def growDailyLocked_def
  appendCustomerSlotLocked_def

lemma apply_op_step:
  assumes "store_inv s" "op_ok op" "length (budgets s) \<le> n" "length (customerBudgets s) \<le> n" "Suc n < 2 ^ 32"
  shows "store_inv (apply_op op s) \<and> length (budgets (apply_op op s)) \<le> Suc n \<and>
    length (customerBudgets (apply_op op s)) \<le> Suc n"
proof (cases op)
  case (OpSpend idx p)
  then show ?thesis
    using assms by (auto simp: CheckAndSpend_def checkAndSpendOn_eq store_inv_charge)
next
  case (OpSpendAll day ci ui p limit)
  then show ?thesis
    using assms by (auto simp: CheckAndSpendAll_eq store_inv_rolled store_inv_charge_all)
qed (use assms in \<open>auto simp: store_inv_GetOrAllocateSlot store_inv_GetOrAllocateCustomerSlot
      store_inv_SetBudget store_inv_SetCustomerBudget store_inv_SetDailySpend\<close>,
    auto simp: store_op_defs Let_def split: option.splits)

lemma history_inv:
  assumes "list_all op_ok ops" and "length ops + 1 < 2 ^ 32"
  shows "store_inv (fold apply_op ops NewBudgetStore) \<and>
    length (budgets (fold apply_op ops NewBudgetStore)) \<le> length ops \<and>
    length (customerBudgets (fold apply_op ops NewBudgetStore)) \<le> length ops"
  using assms
proof (induction ops rule: rev_induct)
  case Nil
  then show ?case by (simp add: store_inv_New) (simp add: NewBudgetStore_def)
next
  case (snoc op ops)
  then show ?case using apply_op_step [of "fold apply_op ops NewBudgetStore" op "length ops"] by simp
qed

lemma slot_map_inj: "slot_map m xs \<Longrightarrow> m a = Some i \<Longrightarrow> m b = Some i \<Longrightarrow> a = b"
  by (rule inj_onD [of m "dom m"]) (auto simp: slot_map_def)


text \<open>C10. CheckAndSpendAll is all or nothing: it succeeds exactly when the campaign and, where
  there is one, the customer can pay and today's spend stays within the daily limit; then
  both balances lose the price, and otherwise no balance changes.\<close>

theorem CheckAndSpendAll_all_or_nothing:
  assumes "store_inv s" and "0 \<le> price" and "limit < 2 ^ 63"
    and "CheckAndSpendAll day ci ui price limit s = (s', ok)"
  shows "(ok \<longleftrightarrow> budgetSlotExists ci s \<and> price \<le> LoadBudget ci s \<and>
      (ui = invalidCustomerBudgetIdx \<or>
        in_slice ui (customerBudgets s) \<and> price \<le> LoadCustomerBudget ui s) \<and>
      (limit \<le> 0 \<or> (if dailyEpoch s = day then loadOn HDaily ci s else 0) + price \<le> limit)) \<and>
    (\<forall>c. LoadBudget c s' = LoadBudget c s - (if ok \<and> c = ci then price else 0)) \<and>
    (\<forall>u. u \<noteq> invalidCustomerBudgetIdx \<longrightarrow>
      LoadCustomerBudget u s' = LoadCustomerBudget u s - (if ok \<and> u = ui then price else 0)) \<and>
    store_inv s'"
proof -
  let ?s0 = "rolled day limit s"
  have inv0: "store_inv ?s0" by (rule store_inv_rolled [OF assms(1)])
  have ok: "ok \<longleftrightarrow> affordable ci ui price limit ?s0"
    and s': "s' = (if ok then charge_all ci ui price limit ?s0 else ?s0)"
    using assms(4) unfolding CheckAndSpendAll_eq [OF assms(1,2,3)] by (auto split: if_splits)
  have f: "funded h idx price ?s0 \<longleftrightarrow> in_slice idx (held h s) \<and> price \<le> loadOn h idx s" if "h \<noteq> HDaily" for h idx
    using that amounts_in_slice [OF store_inv_amounts [OF assms(1), of h], of idx]
    by (cases h) (auto simp: funded_def loadOn_def rolled_def maybeRollDaily_def)
  have d: "0 < limit \<Longrightarrow> loadOn HDaily ci ?s0 = (if dailyEpoch s = day then loadOn HDaily ci s else 0)"
    using amounts_in_slice [OF store_inv_amounts [OF inv0, of HDaily], of ci]
    by (auto simp: rolled_def maybeRollDaily_def loadOn_def)
  have "ok \<longleftrightarrow> budgetSlotExists ci s \<and> price \<le> LoadBudget ci s \<and>
      (ui = invalidCustomerBudgetIdx \<or> in_slice ui (customerBudgets s) \<and> price \<le> LoadCustomerBudget ui s) \<and>
      (limit \<le> 0 \<or> (if dailyEpoch s = day then loadOn HDaily ci s else 0) + price \<le> limit)"
    unfolding ok affordable_def
    by (cases "0 < limit") (auto simp: f d budgetSlotExists_def LoadBudget_def LoadCustomerBudget_def)
  moreover have "store_inv s'"
    using store_inv_charge_all [OF inv0 assms(2,3)] inv0 ok by (simp add: s')
  moreover have "LoadBudget c s' = LoadBudget c s - (if ok \<and> c = ci then price else 0)" for c
    using loadOn_charge_all_campaign [OF inv0, of ci ui price limit c] ok
    by (auto simp: s' LoadBudget_def)
  moreover have "LoadCustomerBudget u s' = LoadCustomerBudget u s - (if ok \<and> u = ui then price else 0)"
    if "u \<noteq> invalidCustomerBudgetIdx" for u
    using loadOn_charge_all_customer [OF inv0 _ that assms(2), of ci ui limit] ok that
    by (auto simp: s' LoadCustomerBudget_def)
  ultimately show ?thesis by blast
qed

section \<open>Instances\<close>

definition two_spenders :: "spender list" where
  "two_spenders = [\<lparr>sp_campaign = 0, sp_customer = 0, sp_price = 60, sp_limit = 80, sp_pc = Start\<rparr>,
     \<lparr>sp_campaign = 0, sp_customer = 0, sp_price = 50, sp_limit = 80, sp_pc = Start\<rparr>]"

lemma two_spenders_start: "spenders_start 1 (\<lambda>_. 80) (solo_mem 1 100) two_spenders"
  by (simp add: spenders_start_def mem_ok_def daily_small_def capped_def solo_mem_def view_def amounts_def
      two_spenders_def less_Suc_eq_0_disj)

definition two_spenders_end :: "spend_mem \<times> spender list" where
  "two_spenders_end = run_schedule 1 [0, 1, 0, 1, 0, 1, 0, 1, 1, 0, 0, 0, 0, 0, 0] (solo_mem 1 100, two_spenders)"

lemma two_spenders_pcs: "map sp_pc (snd two_spenders_end) = [Done True, Done False]"
  by (simp add: two_spenders_end_def thread_step_def solo_mem_def two_spenders_def phase_slot_def in_slice_def
      u32_of_def view_def roll_mem_def headroom_def Let_def in_i64_def invalidCustomerBudgetIdx_def)

text \<open>An instance: both goroutines read the balance before either charges it.\<close>

theorem spenders_never_overspend_witness:
  "spenders_start 1 (\<lambda>_. 80) (solo_mem 1 100) two_spenders \<and>
   map sp_pc (snd two_spenders_end) = [Done True, Done False] \<and>
   view HBudgets (fst two_spenders_end) ! unat (0 :: u32) = view HBudgets (solo_mem 1 100) ! unat (0 :: u32) -
     sign HBudgets * (\<Sum>t\<leftarrow>snd two_spenders_end. accepted HBudgets 0 t)"
proof -
  have "(spend_step 1)\<^sup>*\<^sup>* (solo_mem 1 100, two_spenders) (fst two_spenders_end, snd two_spenders_end)"
    unfolding two_spenders_end_def prod.collapse by (rule run_schedule_steps)
  moreover have "unat (0 :: u32) < length (view HBudgets (solo_mem 1 100))" by (simp add: view_def solo_mem_def)
  moreover have "\<forall>t\<in>set (snd two_spenders_end). pc_done (sp_pc t)"
    using two_spenders_pcs by auto
  ultimately show ?thesis
    using spenders_never_overspend [OF two_spenders_start] two_spenders_start two_spenders_pcs by blast
qed

theorem spenders_finish_witness:
  "spenders_start 1 (\<lambda>_. 80) (solo_mem 1 100) two_spenders \<and>
   ((\<nexists>c. spend_step 1 (solo_mem 1 100, two_spenders) c) \<longleftrightarrow> (\<forall>t\<in>set two_spenders. pc_done (sp_pc t)))"
  using spenders_finish [OF two_spenders_start, of 0] two_spenders_start by simp

theorem allocation_loses_spend_witness:
  "\<exists>m' ts'. (store_step 1)\<^sup>*\<^sup>* (solo_mem 1 100, [whole_spender 100, whole_spender 100]) (m', ts') \<and>
    map sp_pc ts' = [Done True, Done True] \<and> view HBudgets (solo_mem 1 100) ! 0 = 100 \<and>
    (\<Sum>t\<leftarrow>ts'. accepted HBudgets 0 t) = 200"
  using allocation_loses_spend [of 100 1] by simp

definition small_store :: budget_store where
  "small_store = \<lparr>slots = [7 \<mapsto> 0], customerSlots = [9 \<mapsto> 0], budgets = [100], customerBudgets = [100],
     dailySpent = [0], dailyEpoch = 1\<rparr>"

lemma small_store_inv: "store_inv small_store"
  by (simp add: store_inv_def small_store_def amounts_def slot_map_def)


theorem CheckAndSpendAll_all_or_nothing_witness:
  "snd (CheckAndSpendAll 1 0 0 60 80 small_store) \<and>
   LoadBudget 0 (fst (CheckAndSpendAll 1 0 0 60 80 small_store)) = LoadBudget 0 small_store - 60 \<and>
   \<not> snd (CheckAndSpendAll 1 0 0 90 80 small_store) \<and>
   LoadBudget 0 (fst (CheckAndSpendAll 1 0 0 90 80 small_store)) = LoadBudget 0 small_store"
proof -
  have ok: "snd (CheckAndSpendAll 1 0 0 60 80 small_store)" "\<not> snd (CheckAndSpendAll 1 0 0 90 80 small_store)"
    by code_simp+
  show ?thesis
    using ok CheckAndSpendAll_all_or_nothing [OF small_store_inv, of 60 80 1 0 0]
      CheckAndSpendAll_all_or_nothing [OF small_store_inv, of 90 80 1 0 0]
    by (cases "CheckAndSpendAll 1 0 0 60 80 small_store"; cases "CheckAndSpendAll 1 0 0 90 80 small_store") simp
qed


end
