(* ===== verification/RtbAuction.thy ===== *)
theory RtbAuction
  imports RtbIndex RtbBudget
begin

text \<open>
  The auction of the real-time bidder (\<open>src/internal/rtb/auction.go\<close>, \<open>auction_rank.go\<close>,
  \<open>catalog_registry.go\<close>, \<open>no_bid.go\<close>, \<open>creative_lookup.go\<close>): the registry that publishes
  64 catalog shards, the scan that ranks the candidates of a bucket, and the auction that
  prices the winner and charges its budgets.

  An auction is one call at a time; \<open>RtbBudget\<close> treats the concurrent spends. What
  \<open>monotonicNano\<close> returns at row \<open>pos\<close> of the scan is \<open>clock pos\<close>, and the calendar day is
  an argument. The metrics and the spend mirror, which only observe, are left out.
\<close>

section \<open>Requests and answers\<close>

datatype NoBidReason =
  NoBidNone | NoBidInvalidRequest | NoBidEmptyShard | NoBidCorruptCatalog | NoBidNoCandidates
  | NoBidSpendFailed | NoBidPacingClosed | NoBidDailyCapExceeded | NoBidTimeout | NoBidDealMismatch
  | NoBidScanLimit | NoBidPrebidIVT | NoBidSchainInvalid | NoBidBreakerOpen | NoBidDaypartClosed
  | NoBidFreqCapExceeded

definition reason_OK :: "NoBidReason \<Rightarrow> bool" where
  "reason_OK reason \<longleftrightarrow> reason = NoBidNone"

fun reason_String :: "NoBidReason \<Rightarrow> string" where
  "reason_String NoBidNone = ''ok''"
| "reason_String NoBidInvalidRequest = ''invalid_request''"
| "reason_String NoBidEmptyShard = ''empty_shard''"
| "reason_String NoBidCorruptCatalog = ''corrupt_catalog''"
| "reason_String NoBidNoCandidates = ''no_candidates''"
| "reason_String NoBidSpendFailed = ''spend_failed''"
| "reason_String NoBidPacingClosed = ''pacing_closed''"
| "reason_String NoBidDailyCapExceeded = ''daily_cap''"
| "reason_String NoBidTimeout = ''timeout''"
| "reason_String NoBidDealMismatch = ''deal_mismatch''"
| "reason_String NoBidScanLimit = ''scan_limit''"
| "reason_String NoBidPrebidIVT = ''prebid_ivt''"
| "reason_String NoBidSchainInvalid = ''schain_invalid''"
| "reason_String NoBidBreakerOpen = ''breaker_open''"
| "reason_String NoBidDaypartClosed = ''daypart_closed''"
| "reason_String NoBidFreqCapExceeded = ''freq_cap''"

record BidRequest =
  rq_CategoryMask :: u64
  rq_MinBid :: int
  rq_GeoHash :: u32
  rq_DeviceType :: u8
  rq_MediaTypeMask :: u8
  rq_MaxDurationSec :: u32
  rq_DeadlineMono :: int
  rq_DealBlock :: NoBidReason
  rq_NowUnix :: int
  rq_FcapUserHash :: u64
  rq_BlockedCatMask :: u64

record AuctionResult =
  ar_CampaignID :: u64
  ar_CreativeID :: u64
  ar_Price :: int

section \<open>The registry\<close>

record Registry =
  catalog :: "CampaignAuctionRegistry list"
  store :: budget_store
  snapGen :: u64
  clearingMode :: ClearingMode
  targetingIndexEnabled :: bool
  pendingCreatives :: "CreativeData list"
  fcap :: "FcapSnapshot option"

definition geoShardCount :: nat where
  "geoShardCount = 64"

definition shard_of_geo :: "u32 \<Rightarrow> nat" where
  "shard_of_geo geo = unat (geo AND u32_of (geoShardCount - 1))"

text \<open>The zero value of a shard, and a shard with \<open>n\<close> rows of zeros.\<close>

definition sized_shard :: "nat \<Rightarrow> CampaignAuctionRegistry" where
  "sized_shard n = \<lparr>Count = n, CampaignIDs = replicate n 0, Bids = replicate n 0, CTRPPM = replicate n 0,
     Reserves = replicate n 0, DailyBudgets = replicate n 0, PacingOpens = replicate n 0,
     DeviceMasks = replicate n 0, CategoryMasks = replicate n 0, GeoHashes = replicate n 0,
     Weights = replicate n 0, BoostPPM = replicate n 0, BudgetIndices = replicate n 0,
     CustomerBudgetIndices = replicate n 0, DaypartMasks = replicate n 0, TZOffsetSec = replicate n 0,
     ScheduleStart = replicate n 0, ScheduleEnd = replicate n 0, FreqLimits = replicate n 0,
     FcapPrefixHash = replicate n 0, GeoBucketCount = 0, GeoBucketHash = [], GeoBucketStart = [],
     GeoBucketSoA = empty_bucket, TargetBucketCount = 0, TargetBucketKey = [], TargetBucketStart = [],
     TargetBucketSoA = empty_bucket, CreativeCache = resetCreativeCacheSoA, CampaignCreativeStart = []\<rparr>"

definition NewRegistry :: "budget_store \<Rightarrow> Registry" where
  "NewRegistry st = \<lparr>catalog = replicate geoShardCount (sized_shard 0), store = st, snapGen = 0,
     clearingMode = ClearingSecondPrice, targetingIndexEnabled = False, pendingCreatives = [], fcap = None\<rparr>"

definition SetClearingMode :: "ClearingMode \<Rightarrow> Registry \<Rightarrow> Registry" where
  "SetClearingMode mode r = r\<lparr>clearingMode := mode\<rparr>"

definition SetTargetingIndexEnabled :: "bool \<Rightarrow> Registry \<Rightarrow> Registry" where
  "SetTargetingIndexEnabled enabled r = r\<lparr>targetingIndexEnabled := enabled\<rparr>"

definition LoadShard :: "Registry \<Rightarrow> u32 \<Rightarrow> CampaignAuctionRegistry" where
  "LoadShard r geo = catalog r ! shard_of_geo geo"

definition SetFcapSnapshot :: "FcapSnapshot option \<Rightarrow> Registry \<Rightarrow> Registry" where
  "SetFcapSnapshot snap r =
     (case snap of
        None \<Rightarrow> r\<lparr>fcap := Some \<lparr>Keys = [], Values = [], Mask = 0\<rparr>\<rparr>
      | Some s \<Rightarrow> r\<lparr>fcap := Some s\<rparr>)"

definition UpdateCreatives :: "CreativeData list \<Rightarrow> Registry \<Rightarrow> Registry" where
  "UpdateCreatives creatives r = r\<lparr>pendingCreatives := creatives\<rparr>"

section \<open>Publishing a catalog\<close>

definition shard_counts :: "CampaignData list \<Rightarrow> nat list" where
  "shard_counts campaigns =
     fold (\<lambda>c counts. let s = shard_of_geo (cp_GeoHashVal c) in counts[s := counts ! s + 1])
       campaigns (replicate geoShardCount 0)"

definition write_campaign ::
  "nat \<Rightarrow> CampaignData \<Rightarrow> u32 \<Rightarrow> u32 \<Rightarrow> CampaignAuctionRegistry \<Rightarrow> CampaignAuctionRegistry" where
  "write_campaign w c budgetIdx customerIdx reg = reg\<lparr>
     CampaignIDs := (CampaignIDs reg)[w := cp_ID c],
     Bids := (Bids reg)[w := cp_Bid c],
     CTRPPM := (CTRPPM reg)[w := normalizeCTRPPM (cp_CTRPPM c)],
     Reserves := (Reserves reg)[w := cp_Reserve c],
     DailyBudgets := (DailyBudgets reg)[w := cp_DailyBudget c],
     PacingOpens := (PacingOpens reg)[w := normalizePacingOpen (cp_PacingOpen c)],
     DeviceMasks := (DeviceMasks reg)[w := cp_DeviceMask c],
     CategoryMasks := (CategoryMasks reg)[w := cp_CategoryMask c],
     GeoHashes := (GeoHashes reg)[w := cp_GeoHashVal c],
     Weights := (Weights reg)[w := cp_Weight c],
     BoostPPM := (BoostPPM reg)[w := normalizeCTRPPM (cp_BoostPPM c)],
     BudgetIndices := (BudgetIndices reg)[w := budgetIdx],
     CustomerBudgetIndices := (CustomerBudgetIndices reg)[w := customerIdx],
     DaypartMasks := (DaypartMasks reg)[w := cp_DaypartMask c],
     TZOffsetSec := (TZOffsetSec reg)[w := cp_TZOffsetSec c],
     ScheduleStart := (ScheduleStart reg)[w := cp_ScheduleStart c],
     ScheduleEnd := (ScheduleEnd reg)[w := cp_ScheduleEnd c],
     FreqLimits := (FreqLimits reg)[w := cp_FreqLimit c],
     FcapPrefixHash := (FcapPrefixHash reg)[w := cp_FcapPrefixHash c]\<rparr>"

definition place_campaign ::
  "CampaignData \<Rightarrow> CampaignAuctionRegistry list \<times> nat list \<times> budget_store \<Rightarrow>
   CampaignAuctionRegistry list \<times> nat list \<times> budget_store" where
  "place_campaign c st =
     (let (registries, writeIndices, s) = st;
          shardIdx = shard_of_geo (cp_GeoHashVal c);
          wIdx = writeIndices ! shardIdx;
          (s1, budgetIdx) = GetOrAllocateSlot (cp_ID c) (cp_Budget c) s;
          (s2, customerIdx) = GetOrAllocateCustomerSlot (cp_CustomerID c) (cp_CustomerBudget c) s1
      in (registries[shardIdx := write_campaign wIdx c budgetIdx customerIdx (registries ! shardIdx)],
          writeIndices[shardIdx := wIdx + 1], s2))"

definition partitionCreativesByShard ::
  "CampaignData list \<Rightarrow> CreativeData list \<Rightarrow> CreativeData list list" where
  "partitionCreativesByShard campaigns creatives =
     (let campaignShard = fold (\<lambda>c m. m(cp_ID c \<mapsto> shard_of_geo (cp_GeoHashVal c))) campaigns Map.empty
      in fold (\<lambda>cr out. case campaignShard (cd_CampaignID cr) of
                 None \<Rightarrow> out
               | Some shard \<Rightarrow> out[shard := out ! shard @ [cr]])
           creatives (replicate geoShardCount []))"

definition publishCatalog :: "CampaignAuctionRegistry list \<Rightarrow> Registry \<Rightarrow> Registry" where
  "publishCatalog shards r = r\<lparr>catalog := shards, snapGen := snapGen r + 1\<rparr>"

definition build_shard ::
  "vast_codec \<Rightarrow> sort_schedule \<Rightarrow> bool \<Rightarrow> CreativeData list \<Rightarrow> CampaignAuctionRegistry \<Rightarrow>
   CampaignAuctionRegistry option" where
  "build_shard pb sched targetingEnabled creatives reg = do {
     reg1 \<leftarrow> buildGeoIndex (buildCreativeCache pb creatives reg);
     reg2 \<leftarrow> (if targetingEnabled then buildTargetingIndex reg1 else Some reg1);
     Some (sortRegistryBuckets sched reg2)
   }"

definition UpdateCampaigns ::
  "vast_codec \<Rightarrow> sort_schedule \<Rightarrow> CampaignData list \<Rightarrow> Registry \<Rightarrow> Registry option" where
  "UpdateCampaigns pb sched campaigns r =
     (let (registries, _, s) = fold place_campaign campaigns
            (map sized_shard (shard_counts campaigns), replicate geoShardCount 0, store r);
          shardCreatives = partitionCreativesByShard campaigns (pendingCreatives r)
      in do {
        shards \<leftarrow> those (map2 (build_shard pb sched (targetingIndexEnabled r)) shardCreatives registries);
        Some (publishCatalog shards (r\<lparr>store := s\<rparr>))
      })"

section \<open>Ranking\<close>

definition catalogSlicesValid :: "CampaignAuctionRegistry \<Rightarrow> bool" where
  "catalogSlicesValid reg \<longleftrightarrow>
     (let count = Count reg in
      count \<le> length (CampaignIDs reg) \<and> count \<le> length (Bids reg) \<and> count \<le> length (CTRPPM reg) \<and>
      count \<le> length (Reserves reg) \<and> count \<le> length (DailyBudgets reg) \<and> count \<le> length (PacingOpens reg) \<and>
      count \<le> length (DeviceMasks reg) \<and> count \<le> length (CategoryMasks reg) \<and>
      count \<le> length (GeoHashes reg) \<and> count \<le> length (Weights reg) \<and> count \<le> length (BoostPPM reg) \<and>
      count \<le> length (BudgetIndices reg) \<and> count \<le> length (CustomerBudgetIndices reg)) \<and>
     (let geoEnd = bucket_len (GeoBucketSoA reg) in geoEnd > 0 \<longrightarrow> slicesValid (GeoBucketSoA reg) geoEnd) \<and>
     (let targetEnd = bucket_len (TargetBucketSoA reg) in targetEnd > 0 \<longrightarrow> slicesValid (TargetBucketSoA reg) targetEnd)"

definition candidateRange ::
  "Registry \<Rightarrow> CampaignAuctionRegistry \<Rightarrow> BidRequest \<Rightarrow> (candidateBucketSoA \<times> nat \<times> nat) option" where
  "candidateRange r reg req =
     (case (if targetingIndexEnabled r
            then targetingRange reg (rq_GeoHash req) (rq_DeviceType req) (rq_CategoryMask req) else None) of
        Some (s, e) \<Rightarrow> Some (TargetBucketSoA reg, s, e)
      | None \<Rightarrow> map_option (\<lambda>(s, e). (GeoBucketSoA reg, s, e)) (geoRange reg (rq_GeoHash req)))"

definition rankDeadlineCheckMask :: nat where "rankDeadlineCheckMask = 127"
definition rankMaxScanCandidates :: nat where "rankMaxScanCandidates = 500"

record rank_state =
  rk_winnerIdx :: int
  rk_winnerCreative :: u64
  rk_maxScore :: int
  rk_secondBid :: int
  rk_winnerBid :: int
  rk_winnerWeight :: u32
  rk_pacingBlocked :: bool
  rk_dailyBlocked :: bool
  rk_daypartBlocked :: bool
  rk_freqBlocked :: bool
  rk_scanned :: nat

definition rank_start :: rank_state where
  "rank_start = \<lparr>rk_winnerIdx = -1, rk_winnerCreative = 0, rk_maxScore = -1, rk_secondBid = -1,
     rk_winnerBid = -1, rk_winnerWeight = 0, rk_pacingBlocked = False, rk_dailyBlocked = False,
     rk_daypartBlocked = False, rk_freqBlocked = False, rk_scanned = 0\<rparr>"

text \<open>What one round of the scan does: go on, \<open>break\<close>, or \<open>return\<close> a reason.\<close>

datatype rank_step = Continue rank_state | Stop rank_state | Reject nat NoBidReason

definition daypart_closed :: "int \<Rightarrow> candidate \<Rightarrow> bool" where
  "daypart_closed nowUnix c =
     (if ca_ScheduleStart c > 0 \<and> nowUnix < ca_ScheduleStart c then True
      else if ca_ScheduleEnd c > 0 \<and> nowUnix \<ge> ca_ScheduleEnd c then True
      else if ca_DaypartMask c \<noteq> 0
      then let local = wrap64 (nowUnix + ca_TZOffsetSec c);
               sec = local smod 86400;
               sec = (if sec < 0 then sec + 86400 else sec);
               hour = sec sdiv 3600
           in hour \<ge> 0 \<and> hour < 24 \<and> ca_DaypartMask c AND hour_bit (nat hour) = 0
      else False)"

definition freq_exceeded :: "FcapSnapshot option \<Rightarrow> u64 \<Rightarrow> candidate \<Rightarrow> bool option" where
  "freq_exceeded snap userHash c =
     (case snap of
        None \<Rightarrow> Some False
      | Some s \<Rightarrow>
          if ca_FreqLimit c > 0 \<and> userHash \<noteq> 0 \<and> ca_FcapPrefixHash c \<noteq> 0
          then map_option (\<lambda>(cnt, ok). ok \<and> FreqCapExceeded (ca_FreqLimit c) cnt)
                 (FcapCount s (ca_FcapPrefixHash c) userHash)
          else Some False)"

text \<open>Whether the request fits the row: device, category, blocked categories, media type,
  duration and price.\<close>

definition row_fits :: "BidRequest \<Rightarrow> candidate \<Rightarrow> bool" where
  "row_fits req c \<longleftrightarrow>
     \<not> (ca_DeviceMask c AND rq_DeviceType req = 0) \<and>
     \<not> (ca_CategoryMask c AND rq_CategoryMask req = 0) \<and>
     \<not> (rq_BlockedCatMask req \<noteq> 0 \<and> ca_CategoryMask c AND rq_BlockedCatMask req \<noteq> 0) \<and>
     \<not> (rq_MediaTypeMask req \<noteq> 0 \<and> ca_MediaType c AND rq_MediaTypeMask req = 0) \<and>
     \<not> (rq_MaxDurationSec req > 0 \<and> ca_DurationSec c > 0 \<and> ca_DurationSec c > rq_MaxDurationSec req) \<and>
     \<not> (ca_Bid c < ca_Reserve c \<or> ca_Bid c < rq_MinBid req)"

definition rank_update :: "candidate \<Rightarrow> rank_state \<Rightarrow> rank_step" where
  "rank_update c k =
     (let i = int (unat (ca_CatalogIdx c));
          bid = ca_Bid c;
          score = effectiveScoreWithBoost bid (ca_CTRPPM c) (ca_BoostPPM c)
      in if rk_winnerIdx k \<ge> 0 \<and> rk_secondBid k \<ge> 0 \<and> score < rk_maxScore k then Stop k
         else if score > rk_maxScore k
         then Continue (k\<lparr>rk_secondBid := (if rk_winnerIdx k \<ge> 0 then rk_winnerBid k else rk_secondBid k),
                          rk_maxScore := score, rk_winnerIdx := i, rk_winnerBid := bid,
                          rk_winnerWeight := ca_Weight c, rk_winnerCreative := ca_CreativeID c\<rparr>)
         else if score = rk_maxScore k \<and> rk_winnerIdx k \<ge> 0
         then let k1 = (if ca_Weight c > rk_winnerWeight k
                        then k\<lparr>rk_secondBid := rk_winnerBid k, rk_winnerIdx := i, rk_winnerBid := bid,
                               rk_winnerWeight := ca_Weight c, rk_winnerCreative := ca_CreativeID c\<rparr>
                        else k)
              in Continue (if bid > rk_secondBid k1 then k1\<lparr>rk_secondBid := bid\<rparr> else k1)
         else if rk_winnerIdx k \<ge> 0 \<and> bid > rk_secondBid k
         then Continue (k\<lparr>rk_secondBid := bid\<rparr>)
         else Continue k)"

definition rank_row :: "budget_store \<Rightarrow> nat \<Rightarrow> BidRequest \<Rightarrow> candidate \<Rightarrow> rank_state \<Rightarrow> rank_step" where
  "rank_row s regCount req c k0 =
     (let k = k0\<lparr>rk_scanned := rk_scanned k0 + 1\<rparr>;
          bid = ca_Bid c
      in if rk_scanned k > rankMaxScanCandidates then Reject (rk_scanned k) NoBidScanLimit
         else if unat (ca_CatalogIdx c) \<ge> regCount then Reject (rk_scanned k) NoBidCorruptCatalog
         else if ca_PacingOpen c = PacingClosed then Continue (k\<lparr>rk_pacingBlocked := True\<rparr>)
         else if \<not> row_fits req c then Continue k
         else if \<not> budgetSlotExists (ca_BudgetIdx c) s then Reject (rk_scanned k) NoBidCorruptCatalog
         else if LoadBudget (ca_BudgetIdx c) s < bid then Continue k
         else if ca_DailyBudget c > 0 \<and> loadDailyHeadroom (ca_BudgetIdx c) (ca_DailyBudget c) s < bid
         then Continue (k\<lparr>rk_dailyBlocked := True\<rparr>)
         else if ca_CustomerBudgetIdx c \<noteq> invalidCustomerBudgetIdx \<and>
                 LoadCustomerBudget (ca_CustomerBudgetIdx c) s < bid then Continue k
         else rank_update c k)"

fun rank_loop ::
  "Registry \<Rightarrow> nat \<Rightarrow> BidRequest \<Rightarrow> (nat \<Rightarrow> int) \<Rightarrow> nat \<Rightarrow> candidate list \<Rightarrow> rank_state \<Rightarrow> rank_step option" where
  "rank_loop r regCount req clock pos [] k = Some (Stop k)"
| "rank_loop r regCount req clock pos (c # cs) k =
     (if rq_DeadlineMono req > 0 \<and> and (rk_scanned k) rankDeadlineCheckMask = 0 \<and> clock pos > rq_DeadlineMono req
      then Some (Reject (rk_scanned k) NoBidTimeout)
      else if daypart_closed (rq_NowUnix req) c
      then rank_loop r regCount req clock (pos + 1) cs (k\<lparr>rk_daypartBlocked := True\<rparr>)
      else case freq_exceeded (fcap r) (rq_FcapUserHash req) c of
        None \<Rightarrow> None
      | Some True \<Rightarrow> rank_loop r regCount req clock (pos + 1) cs (k\<lparr>rk_freqBlocked := True\<rparr>)
      | Some False \<Rightarrow>
          (case rank_row (store r) regCount req c k of
             Continue k' \<Rightarrow> rank_loop r regCount req clock (pos + 1) cs k'
           | stop \<Rightarrow> Some stop))"

text \<open>The verdict after the scan: the winner with the second bid, or why there is none.\<close>

datatype rank_result = Winner nat u64 int nat | NoWinner nat NoBidReason

definition rank_end :: "rank_state \<Rightarrow> rank_result" where
  "rank_end k =
     (if rk_winnerIdx k = -1
      then NoWinner (rk_scanned k)
             (if rk_daypartBlocked k then NoBidDaypartClosed
              else if rk_freqBlocked k then NoBidFreqCapExceeded
              else if rk_pacingBlocked k then NoBidPacingClosed
              else if rk_dailyBlocked k then NoBidDailyCapExceeded
              else NoBidNoCandidates)
      else Winner (nat (rk_winnerIdx k)) (rk_winnerCreative k) (rk_secondBid k) (rk_scanned k))"

primrec rank_verdict :: "rank_step \<Rightarrow> rank_result" where
  "rank_verdict (Reject n reason) = NoWinner n reason"
| "rank_verdict (Stop k) = rank_end k"
| "rank_verdict (Continue k) = rank_end k"

definition rankCandidates ::
  "Registry \<Rightarrow> CampaignAuctionRegistry \<Rightarrow> BidRequest \<Rightarrow> (nat \<Rightarrow> int) \<Rightarrow> candidateBucketSoA \<Rightarrow> nat \<Rightarrow> nat \<Rightarrow>
   rank_result option" where
  "rankCandidates r reg req clock soa bucketStart bucketEnd =
     (if \<not> slicesValid soa bucketEnd then Some (NoWinner 0 NoBidCorruptCatalog)
      else if bucketEnd < bucketStart \<or> bucketEnd > bucket_len soa then Some (NoWinner 0 NoBidCorruptCatalog)
      else map_option rank_verdict
             (rank_loop r (Count reg) req clock 0 (bucket_rows soa bucketStart bucketEnd) rank_start))"

section \<open>The auction\<close>

type_synonym answer = "AuctionResult \<times> NoBidReason"

definition no_bid :: "NoBidReason \<Rightarrow> answer" where
  "no_bid reason = (\<lparr>ar_CampaignID = 0, ar_CreativeID = 0, ar_Price = 0\<rparr>, reason)"

definition settle ::
  "u32 \<Rightarrow> bool \<Rightarrow> BidRequest \<Rightarrow> CampaignAuctionRegistry \<Rightarrow> nat \<Rightarrow> u64 \<Rightarrow> int \<Rightarrow> Registry \<Rightarrow>
   (Registry \<times> answer) option" where
  "settle day spend req reg winnerIdx winnerCreative secondBid r = do {
     bid \<leftarrow> go_nth (Bids reg) winnerIdx;
     reserve \<leftarrow> go_nth (Reserves reg) winnerIdx;
     let price = applyReserve (clearingPrice (clearingMode r) (rq_MinBid req) bid secondBid) reserve bid;
     if winnerIdx \<ge> length (BudgetIndices reg) \<or> winnerIdx \<ge> length (CampaignIDs reg)
     then Some (r, no_bid NoBidCorruptCatalog)
     else do {
       let result = (\<lparr>ar_CampaignID = CampaignIDs reg ! winnerIdx, ar_CreativeID = winnerCreative,
         ar_Price = price\<rparr>, NoBidNone);
       if spend then do {
         customerIdx \<leftarrow> go_nth (CustomerBudgetIndices reg) winnerIdx;
         dailyLimit \<leftarrow> go_nth (DailyBudgets reg) winnerIdx;
         let (s, ok) = CheckAndSpendAll day (BudgetIndices reg ! winnerIdx) customerIdx price dailyLimit (store r);
         Some (r\<lparr>store := s\<rparr>, if ok then result else no_bid NoBidSpendFailed)
       }
       else Some (r, result)
     }
   }"

definition runAuction ::
  "u32 \<Rightarrow> (nat \<Rightarrow> int) \<Rightarrow> BidRequest option \<Rightarrow> bool \<Rightarrow> Registry \<Rightarrow> (Registry \<times> answer) option" where
  "runAuction day clock request spend r =
     (case request of
        None \<Rightarrow> Some (r, no_bid NoBidInvalidRequest)
      | Some req \<Rightarrow>
          if rq_MinBid req < 0 then Some (r, no_bid NoBidInvalidRequest)
          else let reg = LoadShard r (rq_GeoHash req) in
          if Count reg = 0 then Some (r, no_bid NoBidEmptyShard)
          else if \<not> catalogSlicesValid reg then Some (r, no_bid NoBidCorruptCatalog)
          else if rq_DealBlock req \<noteq> NoBidNone then Some (r, no_bid (rq_DealBlock req))
          else case candidateRange r reg req of
            None \<Rightarrow> Some (r, no_bid NoBidNoCandidates)
          | Some (soa, bucketStart, bucketEnd) \<Rightarrow>
              (case rankCandidates r reg req clock soa bucketStart bucketEnd of
                 None \<Rightarrow> None
               | Some (NoWinner _ reason) \<Rightarrow> Some (r, no_bid reason)
               | Some (Winner winnerIdx winnerCreative secondBid _) \<Rightarrow>
                   settle day spend req reg winnerIdx winnerCreative secondBid r))"

definition RunAuction :: "u32 \<Rightarrow> (nat \<Rightarrow> int) \<Rightarrow> BidRequest option \<Rightarrow> Registry \<Rightarrow> (Registry \<times> answer) option" where
  "RunAuction day clock request r = runAuction day clock request True r"

definition RunAuctionEval :: "u32 \<Rightarrow> (nat \<Rightarrow> int) \<Rightarrow> BidRequest option \<Rightarrow> Registry \<Rightarrow> (Registry \<times> answer) option" where
  "RunAuctionEval day clock request r = runAuction day clock request False r"

section \<open>The markup of the winner\<close>

text \<open>The first of the positions at which a slice holds a value; \<open>None\<close> is an index out of range.\<close>

fun find_at :: "'a list \<Rightarrow> 'a \<Rightarrow> nat list \<Rightarrow> nat option option" where
  "find_at xs v [] = Some None"
| "find_at xs v (k # ks) =
     (case go_nth xs k of
        None \<Rightarrow> None
      | Some y \<Rightarrow> if y = v then Some (Some k) else find_at xs v ks)"

text \<open>The answer is the markup, the media type and whether there is one.\<close>

definition LookupCreativeWire :: "Registry \<Rightarrow> u32 \<Rightarrow> u64 \<Rightarrow> u64 \<Rightarrow> (bytes \<times> u8 \<times> bool) option" where
  "LookupCreativeWire r geoHash campaignID creativeID =
     (let reg = LoadShard r geoHash; soa = CreativeCache reg in
      if Count reg = 0 then Some ([], 0, False)
      else do {
        found \<leftarrow> find_at (CampaignIDs reg) campaignID [0..<Count reg];
        case found of
          None \<Rightarrow> Some ([], 0, False)
        | Some catalogIdx \<Rightarrow>
            (case campaignCreativeRange reg catalogIdx of
               None \<Rightarrow> Some ([], 0, False)
             | Some (s, e) \<Rightarrow> do {
                 slot \<leftarrow> find_at (cc_CreativeIDs soa) creativeID [s..<e];
                 case slot of
                   None \<Rightarrow> Some ([], 0, False)
                 | Some k \<Rightarrow> do {
                     wire \<leftarrow> go_nth (cc_VASTWire soa) k;
                     media \<leftarrow> go_nth (cc_MediaTypes soa) k;
                     Some (if wire = [] then ([], media, False) else (wire, media, True))
                   }
               })
      })"

section \<open>The scan against its specification\<close>

text \<open>The rows that may win, and the rows the scan can read without giving up.\<close>

definition eligible :: "Registry \<Rightarrow> BidRequest \<Rightarrow> candidate \<Rightarrow> bool" where
  "eligible r req c \<longleftrightarrow> \<not> daypart_closed (rq_NowUnix req) c \<and>
     freq_exceeded (fcap r) (rq_FcapUserHash req) c = Some False \<and> ca_PacingOpen c \<noteq> PacingClosed \<and>
     row_fits req c \<and> ca_Bid c \<le> LoadBudget (ca_BudgetIdx c) (store r) \<and>
     (ca_DailyBudget c > 0 \<longrightarrow> ca_Bid c \<le> loadDailyHeadroom (ca_BudgetIdx c) (ca_DailyBudget c) (store r)) \<and>
     (ca_CustomerBudgetIdx c \<noteq> invalidCustomerBudgetIdx \<longrightarrow>
        ca_Bid c \<le> LoadCustomerBudget (ca_CustomerBudgetIdx c) (store r))"

definition readable :: "Registry \<Rightarrow> nat \<Rightarrow> BidRequest \<Rightarrow> candidate \<Rightarrow> bool" where
  "readable r n req c \<longleftrightarrow> unat (ca_CatalogIdx c) < n \<and> budgetSlotExists (ca_BudgetIdx c) (store r) \<and>
     freq_exceeded (fcap r) (rq_FcapUserHash req) c \<noteq> None"

definition rank_core :: "rank_state \<Rightarrow> rank_state" where
  "rank_core k = k\<lparr>rk_pacingBlocked := False, rk_dailyBlocked := False, rk_daypartBlocked := False,
     rk_freqBlocked := False, rk_scanned := 0\<rparr>"

primrec rank_all :: "candidate list \<Rightarrow> rank_state \<Rightarrow> rank_state" where
  "rank_all [] k = k"
| "rank_all (c # cs) k =
     (case rank_update c k of Continue k' \<Rightarrow> rank_all cs k' | Stop k' \<Rightarrow> k' | Reject _ _ \<Rightarrow> k)"

lemma rank_core_flags [simp]:
  "rank_core (k\<lparr>rk_daypartBlocked := b\<rparr>) = rank_core k" "rank_core (k\<lparr>rk_freqBlocked := b\<rparr>) = rank_core k"
  "rank_core (k\<lparr>rk_scanned := n\<rparr>) = rank_core k"
  "rank_core (k\<lparr>rk_scanned := n, rk_pacingBlocked := b\<rparr>) = rank_core k"
  "rank_core (k\<lparr>rk_scanned := n, rk_dailyBlocked := b\<rparr>) = rank_core k"
  by (simp_all add: rank_core_def)

lemma rank_update_split:
  "case rank_update c k of
     Continue k' \<Rightarrow> rank_update c (rank_core k) = Continue (rank_core k') \<and> rk_scanned k' = rk_scanned k
   | Stop k' \<Rightarrow> k' = k \<and> rank_update c (rank_core k) = Stop (rank_core k)
   | Reject _ _ \<Rightarrow> False"
  by (cases k) (simp add: rank_update_def rank_core_def Let_def)

lemma rank_update_cases:
  obtains (go) k' where "rank_update c k = Continue k'" "rank_update c (rank_core k) = Continue (rank_core k')"
      "rk_scanned k' = rk_scanned k"
  | (stop) "rank_update c k = Stop k" "rank_update c (rank_core k) = Stop (rank_core k)"
  using rank_update_split [of c k] by (cases "rank_update c k") auto

lemma rank_row_eligible:
  assumes "readable r n req c" "\<not> daypart_closed (rq_NowUnix req) c"
    and "freq_exceeded (fcap r) (rq_FcapUserHash req) c = Some False" "rk_scanned k < rankMaxScanCandidates"
  shows "if eligible r req c then rank_row (store r) n req c k = rank_update c (k\<lparr>rk_scanned := rk_scanned k + 1\<rparr>)
    else \<exists>k'. rank_row (store r) n req c k = Continue k' \<and> rank_core k' = rank_core k \<and> rk_scanned k' = rk_scanned k + 1"
  using assms by (auto simp: rank_row_def eligible_def readable_def Let_def not_less not_le)

lemma rank_loop_all:
  assumes "rq_DeadlineMono req \<le> 0" "list_all (readable r n req) cs"
    and "rk_scanned k + length cs \<le> rankMaxScanCandidates"
  shows "\<exists>k'. rank_loop r n req clock pos cs k = Some (Stop k') \<and>
    rank_core k' = rank_core (rank_all (filter (eligible r req) cs) (rank_core k))"
  using assms
proof (induction cs arbitrary: pos k)
  case Nil
  then show ?case by (simp add: rank_core_def)
next
  case (Cons c cs)
  have c: "readable r n req c" and len: "rk_scanned k < rankMaxScanCandidates" using Cons.prems by simp_all
  have ih: "\<exists>k''. rank_loop r n req clock (pos + 1) cs k' = Some (Stop k'') \<and>
      rank_core k'' = rank_core (rank_all (filter (eligible r req) cs) (rank_core k'))"
    if "rk_scanned k' \<le> rk_scanned k + 1" for k'
    using Cons.IH [of k' "pos + 1"] Cons.prems that by simp
  obtain b where b: "freq_exceeded (fcap r) (rq_FcapUserHash req) c = Some b"
    using c by (auto simp: readable_def)
  consider "daypart_closed (rq_NowUnix req) c" | "\<not> daypart_closed (rq_NowUnix req) c" b
    | "\<not> daypart_closed (rq_NowUnix req) c" "\<not> b" by blast
  then show ?case
  proof cases
    case 1
    then have "\<not> eligible r req c" by (simp add: eligible_def)
    then show ?thesis using ih [of "k\<lparr>rk_daypartBlocked := True\<rparr>"] Cons.prems(1) 1 by simp
  next
    case 2
    then have "\<not> eligible r req c" using b by (simp add: eligible_def)
    then show ?thesis using ih [of "k\<lparr>rk_freqBlocked := True\<rparr>"] Cons.prems(1) 2 b by simp
  next
    case 3
    note row = rank_row_eligible [OF c 3(1) _ len]
    show ?thesis
    proof (cases "eligible r req c")
      case True
      then have row: "rank_row (store r) n req c k = rank_update c (k\<lparr>rk_scanned := rk_scanned k + 1\<rparr>)"
        using row b 3 by simp
      show ?thesis
      proof (cases rule: rank_update_cases [of c "k\<lparr>rk_scanned := rk_scanned k + 1\<rparr>"])
        case (go k')
        then show ?thesis using ih [of k'] row True 3 b Cons.prems(1) by simp
      next
        case stop
        then show ?thesis using row True 3 b Cons.prems(1) by (simp add: rank_core_def)
      qed
    next
      case False
      then obtain k' where "rank_row (store r) n req c k = Continue k'" "rank_core k' = rank_core k"
          "rk_scanned k' = rk_scanned k + 1"
        using row b 3 by auto
      then show ?thesis using ih [of k'] False 3 b Cons.prems(1) by simp
    qed
  qed
qed

subsection \<open>The winner of a sorted bucket\<close>

text \<open>The second bid: the highest among the rows that tie with the winner on the score, or
  else the bid of the row that comes next.\<close>

definition second_bid :: "candidate \<Rightarrow> candidate list \<Rightarrow> int" where
  "second_bid w rest =
     (let ties = takeWhile (\<lambda>c. cand_score c = cand_score w) rest
      in if ties \<noteq> [] then Max (ca_Bid ` set ties)
         else case rest of [] \<Rightarrow> -1 | c # _ \<Rightarrow> ca_Bid c)"

definition crowned :: "candidate \<Rightarrow> int \<Rightarrow> rank_state" where
  "crowned w sb = rank_start\<lparr>rk_winnerIdx := int (unat (ca_CatalogIdx w)), rk_winnerCreative := ca_CreativeID w,
     rk_maxScore := cand_score w, rk_secondBid := sb, rk_winnerBid := ca_Bid w, rk_winnerWeight := ca_Weight w\<rparr>"

lemma rank_update_first: "rank_update w rank_start = Continue (if cand_score w < 0 then rank_start else crowned w (-1))"
  by (simp add: rank_update_def rank_start_def crowned_def cand_score_def Let_def)

lemma rank_update_next:
  assumes "in_order w c"
  shows "rank_update c (crowned w sb) =
    (if cand_score c = cand_score w then Continue (crowned w (max sb (ca_Bid c)))
     else if sb \<ge> 0 then Stop (crowned w sb) else Continue (crowned w (max sb (ca_Bid c))))"
  using assms
  by (auto simp: rank_update_def crowned_def cand_score_def cand_less_def Let_def max_def not_less split: if_splits)

lemma rank_all_negative:
  "list_all (\<lambda>c. cand_score c < 0) cs \<Longrightarrow> rank_all cs rank_start = rank_start"
  by (induction cs) (simp_all add: rank_update_first)

lemma rank_all_settled:
  assumes "0 \<le> sb" "list_all (in_order w) cs" "sorted_wrt in_order cs"
  shows "rank_all cs (crowned w sb) =
    crowned w (Max (insert sb (ca_Bid ` set (takeWhile (\<lambda>c. cand_score c = cand_score w) cs))))"
  using assms
proof (induction cs arbitrary: sb)
  case (Cons c cs)
  have m: "Max (insert (max sb (ca_Bid c)) A) = Max (insert sb (insert (ca_Bid c) A))" if "finite A" for A
    using that by (cases "A = {}") (auto simp: max.assoc)
  show ?case
  proof (cases "cand_score c = cand_score w")
    case True
    then show ?thesis using Cons by (simp add: rank_update_next m del: Max_insert)
  next
    case False
    then show ?thesis using Cons by (simp add: rank_update_next)
  qed
qed simp

lemma in_order_score: "in_order w c \<Longrightarrow> cand_score c \<le> cand_score w"
  by (auto simp: cand_less_def split: if_splits)

lemma rank_all_sorted:
  assumes "sorted_wrt in_order (w # rest)" "list_all (\<lambda>c. 0 \<le> ca_Bid c) rest"
  shows "rank_all (w # rest) rank_start = (if cand_score w < 0 then rank_start else crowned w (second_bid w rest))"
proof (cases "cand_score w < 0")
  case True
  have "list_all (\<lambda>c. cand_score c < 0) (w # rest)"
    using assms(1) True in_order_score [of _ w] by (fastforce simp: list_all_iff)
  then show ?thesis using rank_all_negative [of "w # rest"] True by (simp del: rank_all.simps)
next
  case False
  have rest: "list_all (in_order w) rest" "sorted_wrt in_order rest" using assms(1) by (auto simp: list_all_iff)
  have "rank_all rest (crowned w (-1)) = crowned w (second_bid w rest)"
  proof (cases rest)
    case Nil
    then show ?thesis by (simp add: second_bid_def)
  next
    case (Cons c cs)
    have c: "in_order w c" "list_all (in_order w) cs" "sorted_wrt in_order cs" "0 \<le> ca_Bid c"
      using rest assms(2) Cons by auto
    have "rank_all rest (crowned w (-1)) = rank_all cs (crowned w (ca_Bid c))"
      using c by (simp add: Cons rank_update_next)
    also have "\<dots> = crowned w (Max (insert (ca_Bid c) (ca_Bid ` set (takeWhile (\<lambda>c. cand_score c = cand_score w) cs))))"
      by (rule rank_all_settled [OF c(4,2,3)])
    also have "\<dots> = crowned w (second_bid w rest)"
    proof (cases "cand_score c = cand_score w")
      case True
      then show ?thesis by (simp add: second_bid_def Cons)
    next
      case ne: False
      have "takeWhile (\<lambda>c. cand_score c = cand_score w) cs = []"
        using ne c(1) rest(2) in_order_score [of c w] in_order_score [of "hd cs" c]
        by (cases cs) (auto simp: Cons)
      then show ?thesis using ne by (simp add: second_bid_def Cons)
    qed
    finally show ?thesis .
  qed
  then show ?thesis using False by (simp add: rank_update_first)
qed

lemma eligible_bid: "eligible r req c \<Longrightarrow> rq_MinBid req \<le> ca_Bid c \<and> ca_Reserve c \<le> ca_Bid c"
  by (simp add: eligible_def row_fits_def)

text \<open>What the scan of a sorted bucket returns.\<close>

lemma rank_loop_sorted:
  assumes "sorted_wrt in_order cs" "0 \<le> rq_MinBid req" "rq_DeadlineMono req \<le> 0"
    and "list_all (readable r n req) cs" "length cs \<le> rankMaxScanCandidates"
  shows "\<exists>k. rank_loop r n req clock 0 cs rank_start = Some (Stop k) \<and>
    (case filter (eligible r req) cs of
       [] \<Rightarrow> rk_winnerIdx k = -1
     | w # rest \<Rightarrow> if cand_score w < 0 then rk_winnerIdx k = -1
         else rank_core k = rank_core (crowned w (second_bid w rest)))"
proof -
  obtain k where k: "rank_loop r n req clock 0 cs rank_start = Some (Stop k)"
      "rank_core k = rank_core (rank_all (filter (eligible r req) cs) (rank_core rank_start))"
    using rank_loop_all [OF assms(3,4), of rank_start clock 0] assms(5) by (auto simp: rank_start_def)
  have start: "rank_core rank_start = rank_start" by (simp add: rank_core_def rank_start_def)
  have idx: "rank_core k = rank_start \<Longrightarrow> rk_winnerIdx k = -1"
    by (drule arg_cong [of _ _ rk_winnerIdx]) (simp add: rank_core_def rank_start_def)
  show ?thesis
  proof (cases "filter (eligible r req) cs")
    case Nil
    then show ?thesis using k start idx by simp
  next
    case (Cons w rest)
    have "list_all (\<lambda>c. 0 \<le> ca_Bid c) rest"
      using Cons eligible_bid assms(2) by (fastforce simp: list_all_iff dest: filter_eq_ConsD)
    moreover have "sorted_wrt in_order (w # rest)"
      using sorted_wrt_filter [OF assms(1), of "eligible r req"] Cons by simp
    ultimately show ?thesis
      using rank_all_sorted [of w rest] k Cons start idx by (cases "cand_score w < 0") auto
  qed
qed

section \<open>Published shards\<close>

text \<open>Indexing and sorting leave the campaigns and their creatives alone.\<close>

definition same_campaigns :: "CampaignAuctionRegistry \<Rightarrow> CampaignAuctionRegistry \<Rightarrow> bool" where
  "same_campaigns reg reg' \<longleftrightarrow> campaign_columns.truncate reg' = campaign_columns.truncate reg \<and>
     CreativeCache reg' = CreativeCache reg \<and> CampaignCreativeStart reg' = CampaignCreativeStart reg"

lemma same_campaigns_columns:
  assumes "same_campaigns reg reg'"
  shows "Count reg' = Count reg" "CampaignIDs reg' = CampaignIDs reg" "Bids reg' = Bids reg"
    "CTRPPM reg' = CTRPPM reg" "Reserves reg' = Reserves reg" "DailyBudgets reg' = DailyBudgets reg"
    "PacingOpens reg' = PacingOpens reg" "DeviceMasks reg' = DeviceMasks reg"
    "CategoryMasks reg' = CategoryMasks reg" "GeoHashes reg' = GeoHashes reg" "Weights reg' = Weights reg"
    "BoostPPM reg' = BoostPPM reg" "BudgetIndices reg' = BudgetIndices reg"
    "CustomerBudgetIndices reg' = CustomerBudgetIndices reg" "DaypartMasks reg' = DaypartMasks reg"
    "TZOffsetSec reg' = TZOffsetSec reg" "ScheduleStart reg' = ScheduleStart reg"
    "ScheduleEnd reg' = ScheduleEnd reg" "FreqLimits reg' = FreqLimits reg"
    "FcapPrefixHash reg' = FcapPrefixHash reg" "CreativeCache reg' = CreativeCache reg"
    "CampaignCreativeStart reg' = CampaignCreativeStart reg"
  using assms by (simp_all add: same_campaigns_def campaign_columns.truncate_def)

lemma same_campaigns_rows:
  assumes "same_campaigns reg reg'"
  shows "campaign_rows reg' = campaign_rows reg" "geo_members reg' = geo_members reg"
    "columns_wf reg' = columns_wf reg" "creatives_wf reg' = creatives_wf reg"
    "geo_keys reg' = geo_keys reg" "targeting_keys reg' = targeting_keys reg"
  using same_campaigns_columns [OF assms]
  by (simp_all add: fun_eq_iff campaign_rows_def creative_cand_def base_cand_def campaignCreativeRange_def
      geo_members_def columns_wf_def creatives_wf_def geo_keys_def targeting_keys_def Let_def)

lemma same_campaigns_geo_rows: "same_campaigns reg reg' \<Longrightarrow> geo_rows reg' = geo_rows reg"
  by (simp add: geo_rows_def key_rows_def [abs_def] same_campaigns_rows)

lemma same_campaigns_target_rows: "same_campaigns reg reg' \<Longrightarrow> target_rows reg' = target_rows reg"
  using same_campaigns_rows [of reg reg'] same_campaigns_columns(1) [of reg reg']
  by (simp add: target_rows_def target_keys_def targeting_buckets_def target_members_def [abs_def] key_rows_def [abs_def])

lemma same_campaigns_refl [simp]: "same_campaigns reg reg"
  by (simp add: same_campaigns_def)

lemma same_campaigns_trans: "same_campaigns a b \<Longrightarrow> same_campaigns b c \<Longrightarrow> same_campaigns a c"
  by (simp add: same_campaigns_def)

text \<open>What the auction relies on of a shard: the bucket of a geo holds the rows of the
  campaigns of this geo, the best one first.\<close>

definition geo_bucket_ok :: "CampaignAuctionRegistry \<Rightarrow> u32 \<Rightarrow> bool" where
  "geo_bucket_ok reg geo \<longleftrightarrow>
     (case geoRange reg geo of
        None \<Rightarrow> geo_members reg geo = []
      | Some (s, e) \<Rightarrow> s \<le> e \<and> e \<le> bucket_len (GeoBucketSoA reg) \<and>
          mset (bucket_rows (GeoBucketSoA reg) s e) = mset (key_rows reg (geo_members reg) geo) \<and>
          sorted_wrt in_order (bucket_rows (GeoBucketSoA reg) s e))"

definition shard_ok :: "CampaignAuctionRegistry \<Rightarrow> bool" where
  "shard_ok reg \<longleftrightarrow> columns_wf reg \<and> creatives_wf reg \<and> (\<exists>rs. GeoBucketSoA reg = soa_of rs) \<and>
     (\<exists>rs. TargetBucketSoA reg = soa_of rs) \<and> (\<forall>geo. geo_bucket_ok reg geo)"

lemma bucket_len_soa: "bucket_len (soa_of rs) = length rs"
  by (simp add: bucket_len_def soa_of_def)

lemma slicesValid_soa [simp]: "slicesValid (soa_of rs) e \<longleftrightarrow> e \<le> length rs"
  by (auto simp: slicesValid_def soa_of_def)

lemma empty_bucket_soa: "empty_bucket = soa_of []"
  by (simp add: empty_bucket_def soa_of_def)

lemma starts_mono:
  assumes "length (concat (map R keys)) < 2 ^ 32" "starts = map u32_of (starts_from 0 (map (length \<circ> R) keys))"
  shows "j \<le> length keys \<Longrightarrow> unat (starts ! j) = sum_list (take j (map (length \<circ> R) keys))"
    and "i \<le> j \<Longrightarrow> j \<le> length keys \<Longrightarrow> unat (starts ! i) \<le> unat (starts ! j)"
proof -
  let ?L = "map (length \<circ> R) keys"
  have total: "length (concat (map R keys)) = sum_list ?L" by (simp add: length_concat comp_def)
  have at: "unat (starts ! j) = sum_list (take j ?L)" if "j \<le> length keys" for j
    using that assms sum_take_le [of j ?L] by (simp add: nth_starts_from total)
  then show "j \<le> length keys \<Longrightarrow> unat (starts ! j) = sum_list (take j ?L)" .
  have "sum_list (take i ?L) \<le> sum_list (take j ?L)" if "i \<le> j"
    using that sum_take_le [of i "take j ?L"] by (simp add: min_absorb1)
  then show "i \<le> j \<Longrightarrow> j \<le> length keys \<Longrightarrow> unat (starts ! i) \<le> unat (starts ! j)"
    using at [of i] at [of j] by simp
qed

context go_sorter
begin

lemma sort_index:
  fixes R :: "'k::linorder \<Rightarrow> candidate list"
  assumes small: "length (concat (map R keys)) < 2 ^ 32"
    and starts: "starts = map u32_of (starts_from 0 (map (length \<circ> R) keys))"
  shows "\<exists>rs. sort_all sched starts (length keys) (soa_of (concat (map R keys))) = soa_of rs \<and>
    length rs = length (concat (map R keys)) \<and>
    (\<forall>x s e. range_lookup keys starts x = Some (s, e) \<longrightarrow>
       mset (window rs s e) = mset (window (concat (map R keys)) s e) \<and> sorted_wrt in_order (window rs s e))"
proof -
  note at = starts_mono [OF small starts]
  have last: "unat (starts ! length keys) \<le> length (concat (map R keys))"
    using at(1) [of "length keys"] by (simp add: length_concat comp_def)
  obtain rs where rs: "sort_all sched starts (length keys) (soa_of (concat (map R keys))) = soa_of rs"
      "length rs = length (concat (map R keys))"
      "\<And>i. i < length keys \<Longrightarrow> mset (window rs (unat (starts ! i)) (unat (starts ! Suc i))) =
        mset (window (concat (map R keys)) (unat (starts ! i)) (unat (starts ! Suc i)))"
      "\<And>i. i < length keys \<Longrightarrow> sorted_wrt in_order (window rs (unat (starts ! i)) (unat (starts ! Suc i)))"
    using sort_all_sorts [of "length keys" starts "concat (map R keys)", OF at(2) last] by auto
  have "\<exists>i<length keys. s = unat (starts ! i) \<and> e = unat (starts ! Suc i)"
    if "range_lookup keys starts x = Some (s, e)" for x s e
    using that
    by (intro exI [of _ "Search (length keys) (\<lambda>i. keys ! i \<ge> x)"]) (auto simp: range_lookup_def Let_def split: if_splits)
  then show ?thesis using rs by metis
qed

lemma sorted_geo_bucket:
  assumes wf: "columns_wf reg" "creatives_wf reg" and small: "length (geo_rows reg) < 2 ^ 32"
    and reg1: "buildGeoIndex reg = Some reg1" and same: "same_campaigns reg reg2"
    and geo: "GeoBucketCount reg2 = GeoBucketCount reg1" "GeoBucketHash reg2 = GeoBucketHash reg1"
      "GeoBucketStart reg2 = GeoBucketStart reg1"
      "GeoBucketSoA reg2 = sort_all sched (GeoBucketStart reg1) (GeoBucketCount reg1) (GeoBucketSoA reg1)"
    and pos: "0 < Count reg"
  shows "(\<exists>rs. GeoBucketSoA reg2 = soa_of rs) \<and> geo_bucket_ok reg2 x"
proof -
  have reg1_eq: "reg1 = reg\<lparr>GeoBucketCount := length (geo_keys reg), GeoBucketHash := geo_keys reg,
      GeoBucketStart := geo_starts reg, GeoBucketSoA := soa_of (geo_rows reg)\<rparr>"
    using buildGeoIndex_result [OF wf pos] reg1 by simp
  obtain rs where rs: "sort_all sched (geo_starts reg) (length (geo_keys reg)) (soa_of (geo_rows reg)) = soa_of rs"
      "length rs = length (geo_rows reg)"
      "\<And>x s e. range_lookup (geo_keys reg) (geo_starts reg) x = Some (s, e) \<Longrightarrow>
         mset (window rs s e) = mset (window (geo_rows reg) s e) \<and> sorted_wrt in_order (window rs s e)"
    using sort_index [of "key_rows reg (geo_members reg)" "geo_keys reg" "geo_starts reg"] small
    by (auto simp: geo_rows_def geo_starts_def)
  have soa: "GeoBucketSoA reg2 = soa_of rs" using geo(4) rs(1) by (simp add: reg1_eq)
  have range: "geoRange reg2 x = geoRange reg1 x" using geo(1-3) by (simp add: geoRange_def Let_def)
  have look: "geoRange reg1 x = (if geo_keys reg = [] then None else range_lookup (geo_keys reg) (geo_starts reg) x)"
    unfolding reg1_eq by (rule geoRange_lookup)
  have "geo_bucket_ok reg2 x"
  proof (cases "geoRange reg1 x")
    case None
    then show ?thesis
      using geo_lookup [OF wf small reg1, of x] same_campaigns_rows(2) [OF same] by (simp add: geo_bucket_ok_def range)
  next
    case (Some p)
    obtain s e where p: "p = (s, e)" by (cases p)
    have se: "s \<le> e" "e \<le> length (geo_rows reg)"
        "window (geo_rows reg) s e = key_rows reg (geo_members reg) x"
      using geo_lookup [OF wf small reg1, of x] Some p
      by (auto simp: reg1_eq bucket_len_soa bucket_rows_window)
    have "range_lookup (geo_keys reg) (geo_starts reg) x = Some (s, e)"
      using look Some p by (auto split: if_splits)
    from rs(3) [OF this] show ?thesis
      using Some p se rs(2) same_campaigns_rows(1,2) [OF same]
      by (simp add: geo_bucket_ok_def range soa bucket_len_soa bucket_rows_window key_rows_def)
  qed
  then show ?thesis using soa by blast
qed

lemma sorted_target_bucket:
  assumes wf: "columns_wf reg" "creatives_wf reg" and small: "length (target_rows reg) < 2 ^ 32"
    and reg1: "buildTargetingIndex reg = Some reg1" and pos: "0 < Count reg"
  shows "\<exists>rs. sort_all sched (TargetBucketStart reg1) (TargetBucketCount reg1) (TargetBucketSoA reg1) = soa_of rs"
  using sort_index [of "key_rows reg (target_members reg)" "target_keys reg" "target_starts reg"] small
    buildTargetingIndex_result [OF wf pos] reg1
  by (auto simp: target_rows_def target_starts_def)

end

subsection \<open>The creative cache\<close>

definition cache_wf :: "nat \<Rightarrow> creativeCacheSoA \<Rightarrow> bool" where
  "cache_wf n cr \<longleftrightarrow> cc_Count cr = n \<and> length (cc_CreativeIDs cr) = n \<and> length (cc_CampaignIdx cr) = n \<and>
     length (cc_Bids cr) = n \<and> length (cc_CTRPPM cr) = n \<and> length (cc_Weights cr) = n \<and>
     length (cc_MediaTypes cr) = n \<and> length (cc_DurationSec cr) = n \<and> length (cc_VASTWire cr) = n"

lemma creatives_wf_cache:
  "creatives_wf reg \<longleftrightarrow> (let n = cc_Count (CreativeCache reg) in cache_wf n (CreativeCache reg) \<and>
     list_all (\<lambda>st. unat st \<le> n) (CampaignCreativeStart reg))"
  by (auto simp: creatives_wf_def cache_wf_def Let_def)

lemma cache_wf_place: "cache_wf n soa \<Longrightarrow> cache_wf n (fst (place_creative starts p (soa, w)))"
  by (simp add: cache_wf_def place_creative_def Let_def)

lemma cache_wf_fold: "cache_wf n (fst st) \<Longrightarrow> cache_wf n (fst (fold (place_creative starts) ps st))"
proof (induction ps arbitrary: st)
  case (Cons p ps)
  have "cache_wf n (fst (place_creative starts p st))" using cache_wf_place [of n "fst st" starts p "snd st"] Cons.prems by simp
  then show ?case using Cons.IH by simp
qed simp

lemma unat_u32_of_le: "unat (u32_of x) \<le> x"
  by (simp add: u32_of_def unsigned_of_nat take_bit_eq_mod)

lemma creative_starts_le:
  "list_all (\<lambda>st. unat st \<le> creative_starts ps n ! n) (map u32_of (creative_starts ps n))"
proof -
  have "(\<Sum>j\<leftarrow>[0..<i]. per_campaign ps j) \<le> (\<Sum>j\<leftarrow>[0..<n]. per_campaign ps j)" if "i \<le> n" for i
    using that sum_take_le [of i "map (per_campaign ps) [0..<n]"] by (simp add: take_map min_def)
  then show ?thesis
    using order_trans [OF unat_u32_of_le] by (auto simp: list_all_iff creative_starts_def simp del: upt_Suc)
qed

lemma buildCreativeCache_wf:
  "creatives_wf (buildCreativeCache pb creatives reg)"
  "campaign_columns.truncate (buildCreativeCache pb creatives reg) = campaign_columns.truncate reg"
proof -
  let ?ps = "List.map_filter (prepare_creative pb reg) creatives" and ?n = "Count reg"
  let ?total = "creative_starts ?ps ?n ! ?n"
  have cache: "cache_wf ?total (fst (fold (place_creative st) ?ps (sized_cache ?total, w)))" for st w
    by (rule cache_wf_fold) (simp add: cache_wf_def sized_cache_def)
  then have count: "cc_Count (fst (fold (place_creative st) ?ps (sized_cache ?total, w))) = ?total" for st w
    unfolding cache_wf_def by blast
  have nil: "cache_wf 0 resetCreativeCacheSoA" "cc_Count resetCreativeCacheSoA = 0"
    by (simp_all add: cache_wf_def resetCreativeCacheSoA_def)
  consider "?n = 0 \<or> creatives = []" | "\<not> (?n = 0 \<or> creatives = [])" "?total = 0"
    | "\<not> (?n = 0 \<or> creatives = [])" "?total \<noteq> 0" by blast
  then show "creatives_wf (buildCreativeCache pb creatives reg)"
  proof cases
    case 1
    then show ?thesis
      using nil unfolding creatives_wf_cache buildCreativeCache_def Let_def by (simp add: list_all_iff)
  next
    case 2
    then show ?thesis
      using nil creative_starts_le [of ?ps ?n] unfolding creatives_wf_cache buildCreativeCache_def Let_def by simp
  next
    case 3
    then show ?thesis
      using cache count creative_starts_le [of ?ps ?n] unfolding creatives_wf_cache buildCreativeCache_def Let_def by simp
  qed
  show "campaign_columns.truncate (buildCreativeCache pb creatives reg) = campaign_columns.truncate reg"
    by (simp add: buildCreativeCache_def Let_def campaign_columns.truncate_def)
qed

subsection \<open>Building a shard\<close>

lemma buildGeoIndex_empty: "Count reg = 0 \<Longrightarrow>
    buildGeoIndex reg = Some (reg\<lparr>GeoBucketCount := 0, GeoBucketSoA := soa_of []\<rparr>)"
  by (simp add: buildGeoIndex_def resetBucketSoA_def empty_bucket_soa)

lemma buildTargetingIndex_empty: "Count reg = 0 \<Longrightarrow>
    buildTargetingIndex reg = Some (reg\<lparr>TargetBucketCount := 0, TargetBucketSoA := soa_of []\<rparr>)"
  by (simp add: buildTargetingIndex_def resetBucketSoA_def empty_bucket_soa)

lemma geo_keys_nonempty: "0 < Count reg \<Longrightarrow> geo_keys reg \<noteq> []"
  using geo_keys_facts(3) [of reg] by (metis empty_iff atLeastLessThan_iff image_eqI list.set(1) order_refl)

context go_sorter
begin

lemma geo_indexed_ok:
  assumes wf: "columns_wf reg0" "creatives_wf reg0" and pos: "0 < Count reg0"
    and reg1: "buildGeoIndex reg0 = Some reg1"
      "reg1 = reg0\<lparr>GeoBucketCount := length (geo_keys reg0), GeoBucketHash := geo_keys reg0,
        GeoBucketStart := geo_starts reg0, GeoBucketSoA := soa_of (geo_rows reg0)\<rparr>"
    and same1: "same_campaigns reg0 reg1" and fresh: "TargetBucketSoA reg0 = empty_bucket" "TargetBucketCount reg0 = 0"
    and geo_small: "length (geo_rows reg0) < 2 ^ 32" and target_small: "en \<longrightarrow> length (target_rows reg0) < 2 ^ 32"
  shows "\<exists>reg2. (if en then buildTargetingIndex reg1 else Some reg1) = Some reg2 \<and>
    shard_ok (sortRegistryBuckets sched reg2) \<and> same_campaigns reg0 (sortRegistryBuckets sched reg2)"
proof -
  have wf1: "columns_wf reg1" "creatives_wf reg1" "0 < Count reg1"
    using wf pos same_campaigns_rows [OF same1] same_campaigns_columns(1) [OF same1] by auto
  define reg2 where "reg2 = (if en then reg1\<lparr>TargetBucketCount := length (target_keys reg1),
    TargetBucketKey := target_keys reg1, TargetBucketStart := target_starts reg1,
    TargetBucketSoA := soa_of (target_rows reg1)\<rparr> else reg1)"
  have built: "(if en then buildTargetingIndex reg1 else Some reg1) = Some reg2"
    using buildTargetingIndex_result [OF wf1] by (simp add: reg2_def)
  define reg3 where "reg3 = sortRegistryBuckets sched reg2"
  have ne: "GeoBucketCount reg2 \<noteq> 0" using geo_keys_nonempty [OF pos] by (simp add: reg2_def reg1(2))
  have geo: "GeoBucketCount reg3 = GeoBucketCount reg1" "GeoBucketHash reg3 = GeoBucketHash reg1"
      "GeoBucketStart reg3 = GeoBucketStart reg1"
      "GeoBucketSoA reg3 = sort_all sched (GeoBucketStart reg1) (GeoBucketCount reg1) (GeoBucketSoA reg1)"
    using ne by (simp_all add: reg3_def sortRegistryBuckets_def Let_def reg2_def split del: if_split)
      (simp_all split: if_splits)
  have "same_campaigns reg2 reg3" "same_campaigns reg1 reg2"
    by (simp_all add: same_campaigns_def campaign_columns.truncate_def reg3_def sortRegistryBuckets_def Let_def)
      (simp_all add: reg2_def)
  then have same: "same_campaigns reg0 reg3" using same1 same_campaigns_trans by blast
  have "\<exists>rs. TargetBucketSoA reg3 = soa_of rs"
  proof (cases "TargetBucketCount reg2 = 0")
    case True
    have "\<exists>rs. TargetBucketSoA reg2 = soa_of rs"
      using fresh empty_bucket_soa by (cases en) (auto simp: reg2_def reg1(2))
    then show ?thesis using True ne by (simp add: reg3_def sortRegistryBuckets_def Let_def)
  next
    case False
    then have en: en using fresh by (cases en) (simp_all add: reg2_def reg1(2))
    then have "\<exists>rs. sort_all sched (TargetBucketStart reg2) (TargetBucketCount reg2) (TargetBucketSoA reg2) = soa_of rs"
      using sorted_target_bucket [OF wf1(1,2) _ _ wf1(3), of reg2] built target_small
        same_campaigns_target_rows [OF same1] by simp
    then show ?thesis using False ne by (simp add: reg3_def sortRegistryBuckets_def Let_def)
  qed
  then have "shard_ok reg3"
    using sorted_geo_bucket [OF wf geo_small reg1(1) same geo pos] wf same_campaigns_rows [OF same]
    by (simp add: shard_ok_def)
  then show ?thesis using built same reg3_def by blast
qed

lemma build_shard_ok:
  assumes wf: "columns_wf reg" and fresh: "TargetBucketSoA reg = empty_bucket" "TargetBucketCount reg = 0"
    and geo_small: "length (geo_rows (buildCreativeCache pb cs reg)) < 2 ^ 32"
    and target_small: "en \<longrightarrow> length (target_rows (buildCreativeCache pb cs reg)) < 2 ^ 32"
  shows "\<exists>reg'. build_shard pb sched en cs reg = Some reg' \<and> shard_ok reg' \<and>
    same_campaigns (buildCreativeCache pb cs reg) reg'"
proof -
  define reg0 where "reg0 = buildCreativeCache pb cs reg"
  have keep: "TargetBucketSoA reg0 = empty_bucket" "TargetBucketCount reg0 = 0"
    using fresh by (simp_all add: reg0_def buildCreativeCache_def Let_def)
  have "columns_wf reg0 = columns_wf reg"
    using buildCreativeCache_wf(2) [of pb cs reg] unfolding reg0_def columns_wf_def
    by (simp add: campaign_columns.truncate_def)
  then have wf0: "columns_wf reg0" "creatives_wf reg0"
    using wf buildCreativeCache_wf(1) by (simp_all add: reg0_def)
  show ?thesis
  proof (cases "Count reg0 = 0")
    case True
    define reg' where "reg' = reg0\<lparr>GeoBucketCount := 0, GeoBucketSoA := soa_of [],
      TargetBucketCount := 0, TargetBucketSoA := soa_of []\<rparr>"
    have "build_shard pb sched en cs reg = Some reg'"
      using True keep by (auto simp: build_shard_def reg0_def [symmetric] buildGeoIndex_empty buildTargetingIndex_empty
          sortRegistryBuckets_def reg'_def empty_bucket_soa)
    moreover have same: "same_campaigns reg0 reg'"
      by (simp add: same_campaigns_def reg'_def campaign_columns.truncate_def)
    moreover have "shard_ok reg'"
      using wf0 True same_campaigns_rows [OF same]
      by (simp add: shard_ok_def geo_bucket_ok_def geoRange_def geo_members_def) (auto simp: reg'_def)
    ultimately show ?thesis by (auto simp: reg0_def)
  next
    case False
    then have pos: "0 < Count reg0" by simp
    define reg1 where "reg1 = reg0\<lparr>GeoBucketCount := length (geo_keys reg0), GeoBucketHash := geo_keys reg0,
      GeoBucketStart := geo_starts reg0, GeoBucketSoA := soa_of (geo_rows reg0)\<rparr>"
    have reg1: "buildGeoIndex reg0 = Some reg1" using buildGeoIndex_result [OF wf0 pos] by (simp add: reg1_def)
    have same1: "same_campaigns reg0 reg1" by (simp add: same_campaigns_def reg1_def campaign_columns.truncate_def)
    obtain reg2 where "(if en then buildTargetingIndex reg1 else Some reg1) = Some reg2"
        "shard_ok (sortRegistryBuckets sched reg2)" "same_campaigns reg0 (sortRegistryBuckets sched reg2)"
      using geo_indexed_ok [OF wf0 pos reg1 reg1_def same1 keep, of en] geo_small target_small
      by (auto simp: reg0_def)
    then show ?thesis unfolding build_shard_def reg0_def [symmetric] reg1 by simp
  qed
qed

end

subsection \<open>The size of the indexes\<close>

lemma rows_bound:
  assumes "distinct ks" "\<And>i. i < n \<Longrightarrow> card {k \<in> set ks. Q k i} \<le> B"
  shows "length (concat (map (key_rows reg (\<lambda>k. filter (Q k) [0..<n])) ks)) \<le> B * (\<Sum>i<n. length (campaign_rows reg i))"
proof -
  let ?len = "\<lambda>i. length (campaign_rows reg i)"
  have inner: "length (key_rows reg (\<lambda>k. filter (Q k) [0..<n]) k) = (\<Sum>i<n. if Q k i then ?len i else 0)" for k
  proof -
    have "length (key_rows reg (\<lambda>k. filter (Q k) [0..<n]) k) = sum_list (map ?len (filter (Q k) [0..<n]))"
      by (simp add: key_rows_def length_concat comp_def)
    also have "\<dots> = (\<Sum>i\<leftarrow>[0..<n]. if Q k i then ?len i else 0)" by (rule sum_list_map_filter')
    also have "\<dots> = (\<Sum>i<n. if Q k i then ?len i else 0)"
      by (simp add: interv_sum_list_conv_sum_set_nat atLeast0LessThan)
    finally show ?thesis .
  qed
  have "length (concat (map (key_rows reg (\<lambda>k. filter (Q k) [0..<n])) ks)) = (\<Sum>k\<in>set ks. \<Sum>i<n. if Q k i then ?len i else 0)"
    using assms(1) inner by (simp add: length_concat comp_def sum_list_distinct_conv_sum_set)
  also have "\<dots> = (\<Sum>i<n. \<Sum>k\<in>set ks. if Q k i then ?len i else 0)" by (rule sum.swap)
  also have "\<dots> = (\<Sum>i<n. card {k \<in> set ks. Q k i} * ?len i)" by (simp add: sum.If_cases Int_def)
  also have "\<dots> \<le> (\<Sum>i<n. B * ?len i)" using assms(2) by (intro sum_mono mult_right_mono) auto
  finally show ?thesis by (simp add: sum_distrib_left)
qed

lemma geo_rows_bound: "length (geo_rows reg) \<le> (\<Sum>i<Count reg. length (campaign_rows reg i))"
proof -
  have "card {k \<in> set (geo_keys reg). GeoHashes reg ! i = k} \<le> 1" for i
    using card_mono [of "{GeoHashes reg ! i}" "{k \<in> set (geo_keys reg). GeoHashes reg ! i = k}"] by auto
  from rows_bound [where Q = "\<lambda>k i. GeoHashes reg ! i = k" and n = "Count reg", OF geo_keys_facts(2) this]
  show ?thesis unfolding geo_rows_def geo_members_def [abs_def] by simp
qed

lemma targeting_keys_few: "length (targeting_keys reg i) \<le> 512"
proof -
  have "length (forEachDeviceBit m) \<le> 8" "length (forEachCategoryBit c) \<le> 64" for m c
    using length_filter_le by (simp_all add: forEachDeviceBit_def forEachCategoryBit_def) (metis length_filter_le diff_zero length_upt)+
  then have "length (forEachDeviceBit (DeviceMasks reg ! i)) * length (forEachCategoryBit (CategoryMasks reg ! i)) \<le> 8 * 64"
    by (intro mult_le_mono) blast+
  then show ?thesis by (simp add: targeting_keys_def length_concat comp_def sum_list_triv)
qed

lemma target_rows_bound: "length (target_rows reg) \<le> 512 * (\<Sum>i<Count reg. length (campaign_rows reg i))"
proof -
  have "card {k \<in> set (target_keys reg). k \<in> set (targeting_keys reg i)} \<le> 512" for i
    using card_mono [of "set (targeting_keys reg i)" "{k \<in> set (target_keys reg). k \<in> set (targeting_keys reg i)}"]
      card_length [of "targeting_keys reg i"] targeting_keys_few [of reg i] by fastforce
  from rows_bound [where Q = "\<lambda>k i. k \<in> set (targeting_keys reg i)" and n = "Count reg", OF target_keys_facts(2) this]
  show ?thesis unfolding target_rows_def target_members_def [abs_def] by simp
qed

lemma campaign_rows_bound:
  assumes "Count reg < 2 ^ 23" "length creatives < 2 ^ 23"
  shows "(\<Sum>i<Count reg. length (campaign_rows (buildCreativeCache pb creatives reg) i)) \<le> Count reg + length creatives"
proof -
  define ps where "ps = List.map_filter (prepare_creative pb reg) creatives"
  let ?reg = "buildCreativeCache pb creatives reg"
  have len: "length ps \<le> length creatives" by (simp add: ps_def List.map_filter_def)
  have total: "(\<Sum>j\<leftarrow>[0..<n]. per_campaign ps j) \<le> length ps" for n
  proof -
    have "(\<Sum>j<n. per_campaign ps j) = (\<Sum>j<n. card {k. k < length ps \<and> pc_catalogIdx (ps ! k) = j})"
      by (simp add: per_campaign_def length_filter_conv_card)
    also have "\<dots> = card (\<Union>j<n. {k. k < length ps \<and> pc_catalogIdx (ps ! k) = j})"
      by (rule card_UN_disjoint [symmetric]) auto
    also have "\<dots> \<le> card {..<length ps}" by (rule card_mono) auto
    finally show ?thesis by (simp add: interv_sum_list_conv_sum_set_nat atLeast0LessThan)
  qed
  have "length (campaign_rows ?reg i) \<le> 1 + per_campaign ps i" if "i < Count reg" for i
  proof (cases "campaignCreativeRange ?reg i")
    case None
    then show ?thesis by (simp add: campaign_rows_def)
  next
    case (Some p)
    then obtain s e where p: "p = (s, e)" by (cases p)
    have "e \<le> s + per_campaign ps i"
    proof (cases "Count reg = 0 \<or> creatives = []")
      case True
      then show ?thesis using Some p that
        by (auto simp: campaignCreativeRange_def buildCreativeCache_def Let_def split: if_splits)
    next
      case False
      have "CampaignCreativeStart ?reg = map u32_of (creative_starts ps (Count reg))"
        using False by (simp add: buildCreativeCache_def Let_def ps_def)
      moreover have "unat (u32_of (\<Sum>j\<leftarrow>[0..<n]. per_campaign ps j)) = (\<Sum>j\<leftarrow>[0..<n]. per_campaign ps j)" for n
        using total [of n] len assms(2) by simp
      ultimately show ?thesis using Some p that buildCreativeCache_wf(2) [of pb creatives reg]
        by (auto simp: campaignCreativeRange_def creative_starts_def Let_def campaign_columns.truncate_def
            simp del: upt_Suc split: if_splits) (simp add: upt_Suc)
    qed
    then show ?thesis using Some p by (simp add: campaign_rows_def)
  qed
  then have "(\<Sum>i<Count reg. length (campaign_rows ?reg i)) \<le> (\<Sum>i<Count reg. 1 + per_campaign ps i)"
    by (intro sum_mono) auto
  also have "\<dots> = Count reg + (\<Sum>i<Count reg. per_campaign ps i)" by (simp only: sum.distrib) simp
  finally show ?thesis
    using total [of "Count reg"] len by (simp add: interv_sum_list_conv_sum_set_nat atLeast0LessThan)
qed

subsection \<open>Distributing the campaigns\<close>

type_synonym placed = "CampaignData \<times> u32 \<times> u32"

definition filled_with :: "nat \<Rightarrow> (placed \<Rightarrow> 'a::zero) \<Rightarrow> placed list \<Rightarrow> 'a list" where
  "filled_with n f ps = map f ps @ replicate (n - length ps) 0"

definition filled :: "nat \<Rightarrow> placed list \<Rightarrow> CampaignAuctionRegistry" where
  "filled n ps = (sized_shard n)\<lparr>CampaignIDs := filled_with n (cp_ID \<circ> fst) ps,
     Bids := filled_with n (cp_Bid \<circ> fst) ps,
     CTRPPM := filled_with n (normalizeCTRPPM \<circ> cp_CTRPPM \<circ> fst) ps,
     Reserves := filled_with n (cp_Reserve \<circ> fst) ps,
     DailyBudgets := filled_with n (cp_DailyBudget \<circ> fst) ps,
     PacingOpens := filled_with n (normalizePacingOpen \<circ> cp_PacingOpen \<circ> fst) ps,
     DeviceMasks := filled_with n (cp_DeviceMask \<circ> fst) ps,
     CategoryMasks := filled_with n (cp_CategoryMask \<circ> fst) ps,
     GeoHashes := filled_with n (cp_GeoHashVal \<circ> fst) ps,
     Weights := filled_with n (cp_Weight \<circ> fst) ps,
     BoostPPM := filled_with n (normalizeCTRPPM \<circ> cp_BoostPPM \<circ> fst) ps,
     BudgetIndices := filled_with n (fst \<circ> snd) ps,
     CustomerBudgetIndices := filled_with n (snd \<circ> snd) ps,
     DaypartMasks := filled_with n (cp_DaypartMask \<circ> fst) ps,
     TZOffsetSec := filled_with n (cp_TZOffsetSec \<circ> fst) ps,
     ScheduleStart := filled_with n (cp_ScheduleStart \<circ> fst) ps,
     ScheduleEnd := filled_with n (cp_ScheduleEnd \<circ> fst) ps,
     FreqLimits := filled_with n (cp_FreqLimit \<circ> fst) ps,
     FcapPrefixHash := filled_with n (cp_FcapPrefixHash \<circ> fst) ps\<rparr>"

lemma filled_with_Nil: "filled_with n f [] = replicate n 0"
  by (simp add: filled_with_def)

lemma filled_with_next: "length ps < n \<Longrightarrow> (filled_with n f ps)[length ps := f x] = filled_with n f (ps @ [x])"
proof -
  assume "length ps < n"
  then obtain k where "n - length ps = Suc k" by (metis Suc_diff_Suc)
  moreover from this have "n - length (ps @ [x]) = k" by simp
  ultimately show ?thesis by (simp add: filled_with_def list_update_append)
qed

lemma filled_with_next':
  "length ps < n \<Longrightarrow> v = f x \<Longrightarrow> (filled_with n f ps)[length ps := v] = filled_with n f (ps @ [x])"
  using filled_with_next by blast

lemma write_campaign_filled:
  "length ps < n \<Longrightarrow> write_campaign (length ps) c bi ci (filled n ps) = filled n (ps @ [(c, bi, ci)])"
  by (simp add: write_campaign_def filled_def filled_with_next' [of ps n _ _ "(c, bi, ci)"])

lemma filled_Nil: "filled n [] = sized_shard n"
  by (simp add: filled_def filled_with_Nil sized_shard_def)

lemma length_filled_with: "length ps \<le> n \<Longrightarrow> length (filled_with n f ps) = n"
  by (simp add: filled_with_def)

lemma columns_wf_filled: "length ps \<le> n \<Longrightarrow> n < 2 ^ 32 \<Longrightarrow> columns_wf (filled n ps)"
  by (simp add: columns_wf_def filled_def length_filled_with sized_shard_def)

definition slotted :: "budget_store \<Rightarrow> placed \<Rightarrow> bool" where
  "slotted s p \<longleftrightarrow> slots s (cp_ID (fst p)) = Some (fst (snd p)) \<and>
     (if cp_CustomerID (fst p) = 0 then snd (snd p) = invalidCustomerBudgetIdx
      else customerSlots s (cp_CustomerID (fst p)) = Some (snd (snd p)))"

definition grown :: "nat \<Rightarrow> budget_store \<Rightarrow> budget_store \<Rightarrow> bool" where
  "grown n s s' \<longleftrightarrow> slots s \<subseteq>\<^sub>m slots s' \<and> customerSlots s \<subseteq>\<^sub>m customerSlots s' \<and>
     length (budgets s') \<le> length (budgets s) + n \<and> length (customerBudgets s') \<le> length (customerBudgets s) + n \<and>
     (\<forall>i<length (budgets s). budgets s' ! i = budgets s ! i) \<and> length (budgets s) \<le> length (budgets s') \<and>
     (\<forall>i<length (customerBudgets s). customerBudgets s' ! i = customerBudgets s ! i) \<and>
     length (customerBudgets s) \<le> length (customerBudgets s')"

lemma grown_refl: "grown 0 s s"
  by (simp add: grown_def)

lemma grown_trans: "grown m a b \<Longrightarrow> grown n b c \<Longrightarrow> grown (m + n) a c"
  unfolding grown_def by (auto intro: map_le_trans)

lemma map_le_Some: "m \<subseteq>\<^sub>m m' \<Longrightarrow> m k = Some v \<Longrightarrow> m' k = Some v"
  unfolding map_le_def by force

lemma slotted_grown: "slotted s p \<Longrightarrow> grown n s s' \<Longrightarrow> slotted s' p"
  unfolding slotted_def grown_def by (cases "cp_CustomerID (fst p) = 0") (auto dest: map_le_Some)

lemma GetOrAllocateSlot_grown:
  "grown 1 s (fst (GetOrAllocateSlot cid v s))"
  "slots (fst (GetOrAllocateSlot cid v s)) cid = Some (snd (GetOrAllocateSlot cid v s))"
  by (auto simp: GetOrAllocateSlot_def appendSlotLocked_def growDailyLocked_def grown_def map_le_def nth_append Let_def
      split: option.splits)

lemma GetOrAllocateCustomerSlot_grown:
  "grown 1 s (fst (GetOrAllocateCustomerSlot cid v s))"
  "if cid = 0 then snd (GetOrAllocateCustomerSlot cid v s) = invalidCustomerBudgetIdx
   else customerSlots (fst (GetOrAllocateCustomerSlot cid v s)) cid = Some (snd (GetOrAllocateCustomerSlot cid v s))"
  by (auto simp: GetOrAllocateCustomerSlot_def appendCustomerSlotLocked_def grown_def map_le_def nth_append Let_def
      split: option.splits)

definition alloc :: "CampaignData \<Rightarrow> budget_store \<Rightarrow> budget_store \<times> placed" where
  "alloc c s =
     (let (s1, bi) = GetOrAllocateSlot (cp_ID c) (cp_Budget c) s;
          (s2, ci) = GetOrAllocateCustomerSlot (cp_CustomerID c) (cp_CustomerBudget c) s1
      in (s2, c, bi, ci))"

lemma alloc_slotted: "slotted (fst (alloc c s)) (snd (alloc c s)) \<and> grown 2 s (fst (alloc c s)) \<and> fst (snd (alloc c s)) = c"
proof -
  obtain s1 bi where s1: "GetOrAllocateSlot (cp_ID c) (cp_Budget c) s = (s1, bi)" by fastforce
  obtain s2 ci where s2: "GetOrAllocateCustomerSlot (cp_CustomerID c) (cp_CustomerBudget c) s1 = (s2, ci)" by fastforce
  have g: "grown 1 s s1" "slots s1 (cp_ID c) = Some bi" "grown 1 s1 s2"
      "if cp_CustomerID c = 0 then ci = invalidCustomerBudgetIdx else customerSlots s2 (cp_CustomerID c) = Some ci"
    using GetOrAllocateSlot_grown [where s = s and cid = "cp_ID c" and v = "cp_Budget c"]
      GetOrAllocateCustomerSlot_grown [where s = s1 and cid = "cp_CustomerID c" and v = "cp_CustomerBudget c"]
    unfolding s1 s2 fst_conv snd_conv by simp_all
  have "slots s2 (cp_ID c) = Some bi" using g(2,3) map_le_Some [of "slots s1" "slots s2"] by (simp add: grown_def)
  then show ?thesis using g grown_trans [OF g(1,3)] by (simp add: alloc_def s1 s2 slotted_def numeral_2_eq_2)
qed

text \<open>The loop over the campaigns: \<open>P s\<close> are the campaigns written to shard \<open>s\<close> so far.\<close>

definition placing :: "nat list \<Rightarrow> (nat \<Rightarrow> placed list) \<Rightarrow> CampaignAuctionRegistry list \<times> nat list \<times> budget_store \<Rightarrow> bool" where
  "placing ns P st \<longleftrightarrow> fst st = map (\<lambda>s. filled (ns ! s) (P s)) [0..<geoShardCount] \<and>
     fst (snd st) = map (\<lambda>s. length (P s)) [0..<geoShardCount] \<and> (\<forall>s. \<forall>p\<in>set (P s). slotted (snd (snd st)) p)"

abbreviation cp_shard :: "CampaignData \<Rightarrow> nat" where
  "cp_shard c \<equiv> shard_of_geo (cp_GeoHashVal c)"

lemma shard_of_geo_less [simp]: "shard_of_geo geo < geoShardCount"
proof -
  have "unat (geo AND 63) \<le> unat (63 :: u32)" by (metis word_and_le1 word_le_nat_alt)
  then show ?thesis by (simp add: shard_of_geo_def geoShardCount_def u32_of_def)
qed

lemma place_campaign_placing:
  assumes "placing ns P st" "length (P (cp_shard c)) < ns ! cp_shard c"
  shows "placing ns (P(cp_shard c := P (cp_shard c) @ [snd (alloc c (snd (snd st)))])) (place_campaign c st) \<and>
    snd (snd (place_campaign c st)) = fst (alloc c (snd (snd st)))"
proof -
  obtain regs ws s where st: "st = (regs, ws, s)" by (cases st)
  obtain s2 bi ci where a: "alloc c s = (s2, c, bi, ci)"
    using alloc_slotted [of c s] by (metis prod.collapse)
  have facts: "slotted s2 (c, bi, ci)" "grown 2 s s2" using alloc_slotted [of c s] a by simp_all
  let ?k = "cp_shard c" and ?P = "P(cp_shard c := P (cp_shard c) @ [(c, bi, ci)])"
  have P: "regs = map (\<lambda>s. filled (ns ! s) (P s)) [0..<geoShardCount]" "ws = map (\<lambda>s. length (P s)) [0..<geoShardCount]"
      "\<And>k p. p \<in> set (P k) \<Longrightarrow> slotted s p"
    using assms(1) by (auto simp: placing_def st)
  have old: "slotted s2 p" if "p \<in> set (P k)" for k p by (rule slotted_grown [OF P(3) [OF that] facts(2)])
  have step: "place_campaign c st = (regs[?k := filled (ns ! ?k) (P ?k @ [(c, bi, ci)])], ws[?k := length (P ?k) + 1], s2)"
    using a assms(2) write_campaign_filled [of "P ?k" "ns ! ?k" c bi ci]
    by (auto simp: st place_campaign_def alloc_def P(1,2) Let_def split: prod.splits)
  have "regs[?k := filled (ns ! ?k) (P ?k @ [(c, bi, ci)])] = map (\<lambda>s. filled (ns ! s) (?P s)) [0..<geoShardCount]"
    "ws[?k := length (P ?k) + 1] = map (\<lambda>s. length (?P s)) [0..<geoShardCount]"
    by (rule nth_equalityI; simp add: P(1,2) nth_list_update)+
  then show ?thesis
    using step a old facts(1) by (simp add: placing_def st)
qed

lemma place_campaigns_placing:
  assumes "placing ns P st" "\<And>k. k < geoShardCount \<Longrightarrow> length (P k) + length (filter (\<lambda>c. cp_shard c = k) cs) \<le> ns ! k"
  shows "\<exists>P'. placing ns P' (fold place_campaign cs st) \<and>
    (\<forall>k. map fst (P' k) = map fst (P k) @ filter (\<lambda>c. cp_shard c = k) cs) \<and>
    snd (snd (fold place_campaign cs st)) = fold (\<lambda>c s. fst (alloc c s)) cs (snd (snd st))"
  using assms
proof (induction cs arbitrary: P st)
  case (Cons c cs)
  let ?k = "cp_shard c" and ?p = "snd (alloc c (snd (snd st)))"
  have "length (P ?k) < ns ! ?k" using Cons.prems(2) [of ?k] by simp
  note one = place_campaign_placing [OF Cons.prems(1) this]
  have "length ((P(?k := P ?k @ [?p])) k) + length (filter (\<lambda>c. cp_shard c = k) cs) \<le> ns ! k" if "k < geoShardCount" for k
    using Cons.prems(2) [OF that] by auto
  from Cons.IH [OF conjunct1 [OF one] this] obtain P' where P': "placing ns P' (fold place_campaign cs (place_campaign c st))"
      "\<And>k. map fst (P' k) = map fst ((P(?k := P ?k @ [?p])) k) @ filter (\<lambda>c. cp_shard c = k) cs"
      "snd (snd (fold place_campaign cs (place_campaign c st))) =
        fold (\<lambda>c s. fst (alloc c s)) cs (snd (snd (place_campaign c st)))"
    by blast
  then show ?case
    using one alloc_slotted [of c "snd (snd st)"] by (intro exI [of _ P']) auto
qed auto

lemma shard_counts_fold:
  assumes "length counts = geoShardCount"
  shows "length (fold (\<lambda>c counts. let s = cp_shard c in counts[s := counts ! s + 1]) cs counts) = geoShardCount \<and>
    (\<forall>k<geoShardCount. fold (\<lambda>c counts. let s = cp_shard c in counts[s := counts ! s + 1]) cs counts ! k =
      counts ! k + length (filter (\<lambda>c. cp_shard c = k) cs))"
  using assms
proof (induction cs arbitrary: counts)
  case (Cons c cs)
  then show ?case using Cons.IH [of "counts[cp_shard c := counts ! cp_shard c + 1]"]
    by (auto simp: Let_def nth_list_update)
qed simp

lemma shard_counts_spec:
  "length (shard_counts cs) = geoShardCount"
  "k < geoShardCount \<Longrightarrow> shard_counts cs ! k = length (filter (\<lambda>c. cp_shard c = k) cs)"
  using shard_counts_fold [of "replicate geoShardCount 0" cs] by (simp_all add: shard_counts_def)

lemma alloc_store_inv:
  assumes "store_inv s" "length (budgets s) + 1 < 2 ^ 32" "length (customerBudgets s) + 1 < 2 ^ 32"
    and "in_i64 (cp_Budget c)" "in_i64 (cp_CustomerBudget c)"
  shows "store_inv (fst (alloc c s))" "length (budgets (fst (alloc c s))) \<le> length (budgets s) + 1"
    "length (customerBudgets (fst (alloc c s))) \<le> length (customerBudgets s) + 1"
proof -
  obtain s1 bi where s1: "GetOrAllocateSlot (cp_ID c) (cp_Budget c) s = (s1, bi)" by fastforce
  obtain s2 ci where s2: "GetOrAllocateCustomerSlot (cp_CustomerID c) (cp_CustomerBudget c) s1 = (s2, ci)" by fastforce
  have inv1: "store_inv s1" using store_inv_GetOrAllocateSlot [of s "cp_Budget c" "cp_ID c"] assms s1 by simp
  have cust1: "customerBudgets s1 = customerBudgets s" "length (budgets s1) \<le> length (budgets s) + 1"
    using s1 by (auto simp: GetOrAllocateSlot_def appendSlotLocked_def growDailyLocked_def Let_def split: option.splits if_splits)
  have "store_inv s2"
    using store_inv_GetOrAllocateCustomerSlot [of s1 "cp_CustomerBudget c" "cp_CustomerID c"] inv1 cust1 assms s2 by simp
  moreover have "budgets s2 = budgets s1" "length (customerBudgets s2) \<le> length (customerBudgets s1) + 1"
    using s2 by (auto simp: GetOrAllocateCustomerSlot_def appendCustomerSlotLocked_def Let_def split: option.splits if_splits)
  ultimately show "store_inv (fst (alloc c s))" "length (budgets (fst (alloc c s))) \<le> length (budgets s) + 1"
      "length (customerBudgets (fst (alloc c s))) \<le> length (customerBudgets s) + 1"
    using cust1 by (simp_all add: alloc_def s1 s2)
qed

lemma allocs_store_inv:
  assumes "store_inv s" "length (budgets s) + length cs < 2 ^ 32" "length (customerBudgets s) + length cs < 2 ^ 32"
    and "list_all (\<lambda>c. in_i64 (cp_Budget c) \<and> in_i64 (cp_CustomerBudget c)) cs"
  shows "store_inv (fold (\<lambda>c s. fst (alloc c s)) cs s) \<and> grown (2 * length cs) s (fold (\<lambda>c s. fst (alloc c s)) cs s)"
  using assms
proof (induction cs arbitrary: s)
  case (Cons c cs)
  have fits: "length (budgets s) + 1 < 2 ^ 32" "length (customerBudgets s) + 1 < 2 ^ 32"
      "in_i64 (cp_Budget c)" "in_i64 (cp_CustomerBudget c)" using Cons.prems by simp_all
  note a = alloc_store_inv [OF Cons.prems(1) this]
  have "store_inv (fold (\<lambda>c s. fst (alloc c s)) cs (fst (alloc c s))) \<and>
      grown (2 * length cs) (fst (alloc c s)) (fold (\<lambda>c s. fst (alloc c s)) cs (fst (alloc c s)))"
    using Cons.IH [OF a(1)] a(2,3) Cons.prems by simp
  moreover have "grown 2 s (fst (alloc c s))" using alloc_slotted by blast
  ultimately show ?case using grown_trans by fastforce
qed (simp add: grown_refl)

subsection \<open>The registry invariant\<close>

definition campaign_fits :: "CampaignData \<Rightarrow> bool" where
  "campaign_fits c \<longleftrightarrow> in_i64 (cp_Budget c) \<and> in_i64 (cp_CustomerBudget c) \<and> in_i64 (cp_DailyBudget c)"

definition shard_slotted :: "budget_store \<Rightarrow> CampaignAuctionRegistry \<Rightarrow> bool" where
  "shard_slotted s reg \<longleftrightarrow> (\<forall>i<Count reg. slots s (CampaignIDs reg ! i) = Some (BudgetIndices reg ! i) \<and>
     in_i64 (DailyBudgets reg ! i))"

definition registry_ok :: "Registry \<Rightarrow> bool" where
  "registry_ok r \<longleftrightarrow> length (catalog r) = geoShardCount \<and> store_inv (store r) \<and>
     (\<forall>reg\<in>set (catalog r). shard_ok reg \<and> shard_slotted (store r) reg)"

lemma registry_ok_shard:
  assumes "registry_ok r"
  shows "shard_ok (LoadShard r geo)" "shard_slotted (store r) (LoadShard r geo)"
  using assms shard_of_geo_less [of geo] by (auto simp: registry_ok_def LoadShard_def)

lemma length_partitionCreativesByShard [simp]: "length (partitionCreativesByShard cs crs) = geoShardCount"
proof -
  have "length (fold (\<lambda>cr out. case m (cd_CampaignID cr) of None \<Rightarrow> out | Some shard \<Rightarrow> out[shard := out ! shard @ [cr]])
      crs out) = length out" for m and out :: "CreativeData list list"
    by (induction crs arbitrary: out) (auto split: option.splits)
  then show ?thesis by (simp add: partitionCreativesByShard_def Let_def)
qed

lemma partition_bound:
  assumes "k < geoShardCount"
  shows "length (partitionCreativesByShard cs crs ! k) \<le> length crs"
proof -
  have bound: "length (fold (\<lambda>cr out. case m (cd_CampaignID cr) of None \<Rightarrow> out | Some shard \<Rightarrow> out[shard := out ! shard @ [cr]])
      crs out ! k) \<le> length (out ! k) + length crs" if "k < length out" for m and out :: "CreativeData list list"
    using that
  proof (induction crs arbitrary: out)
    case (Cons cr crs)
    show ?case
    proof (cases "m (cd_CampaignID cr)")
      case None
      then show ?thesis using Cons.IH [OF Cons.prems] by simp
    next
      case (Some j)
      have "length (out[j := out ! j @ [cr]] ! k) \<le> Suc (length (out ! k))"
        using Cons.prems by (cases "j = k") auto
      then show ?thesis using Cons.IH [of "out[j := out ! j @ [cr]]"] Cons.prems Some by simp
    qed
  qed simp
  show ?thesis using bound [of "replicate geoShardCount []"] assms by (simp add: partitionCreativesByShard_def Let_def)
qed

lemma those_map: "(\<And>x. x \<in> set xs \<Longrightarrow> f x = Some (g x)) \<Longrightarrow> those (map f xs) = Some (map g xs)"
  by (induction xs) auto

lemma those_all: "\<forall>i<length ys. \<exists>y. ys ! i = Some y \<and> P i y \<Longrightarrow>
    \<exists>zs. those ys = Some zs \<and> length zs = length ys \<and> (\<forall>i<length zs. P i (zs ! i))"
proof -
  assume all: "\<forall>i<length ys. \<exists>y. ys ! i = Some y \<and> P i y"
  have "x = Some (the x)" if "x \<in> set ys" for x using all that by (auto simp: in_set_conv_nth)
  then have "those ys = Some (map the ys)" using those_map [of ys id the] by simp
  then show ?thesis using all by (intro exI [of _ "map the ys"]) auto
qed

text \<open>What a published shard says of the campaigns: one row each, in the order they were
  given, with the slots they have in the store.\<close>

definition lists_campaigns :: "budget_store \<Rightarrow> CampaignData list \<Rightarrow> CampaignAuctionRegistry \<Rightarrow> bool" where
  "lists_campaigns s cs reg \<longleftrightarrow> Count reg = length cs \<and> CampaignIDs reg = map cp_ID cs \<and> Bids reg = map cp_Bid cs \<and>
     CTRPPM reg = map (normalizeCTRPPM \<circ> cp_CTRPPM) cs \<and> Reserves reg = map cp_Reserve cs \<and>
     DailyBudgets reg = map cp_DailyBudget cs \<and> PacingOpens reg = map (normalizePacingOpen \<circ> cp_PacingOpen) cs \<and>
     DeviceMasks reg = map cp_DeviceMask cs \<and> CategoryMasks reg = map cp_CategoryMask cs \<and>
     GeoHashes reg = map cp_GeoHashVal cs \<and> Weights reg = map cp_Weight cs \<and>
     BoostPPM reg = map (normalizeCTRPPM \<circ> cp_BoostPPM) cs \<and> DaypartMasks reg = map cp_DaypartMask cs \<and>
     TZOffsetSec reg = map cp_TZOffsetSec cs \<and> ScheduleStart reg = map cp_ScheduleStart cs \<and>
     ScheduleEnd reg = map cp_ScheduleEnd cs \<and> FreqLimits reg = map cp_FreqLimit cs \<and>
     FcapPrefixHash reg = map cp_FcapPrefixHash cs \<and>
     map Some (BudgetIndices reg) = map (slots s \<circ> cp_ID) cs \<and>
     (\<forall>i<length cs. if cp_CustomerID (cs ! i) = 0 then CustomerBudgetIndices reg ! i = invalidCustomerBudgetIdx
        else customerSlots s (cp_CustomerID (cs ! i)) = Some (CustomerBudgetIndices reg ! i))"

lemma filled_with_all: "filled_with (length ps) f ps = map f ps"
  by (simp add: filled_with_def)

lemma filled_lists:
  assumes "\<forall>p\<in>set ps. slotted s p"
  shows "lists_campaigns s (map fst ps) (filled (length ps) ps)"
  using assms
  by (auto simp: lists_campaigns_def filled_def filled_with_all sized_shard_def slotted_def)

lemma lists_truncate:
  assumes "lists_campaigns s cs reg" "campaign_columns.truncate reg' = campaign_columns.truncate reg"
  shows "lists_campaigns s cs reg'"
  using assms by (simp add: lists_campaigns_def campaign_columns.truncate_def)

lemma lists_slotted: "lists_campaigns s cs reg \<Longrightarrow> list_all campaign_fits cs \<Longrightarrow> shard_slotted s reg"
proof -
  assume l: "lists_campaigns s cs reg" and fits: "list_all campaign_fits cs"
  have "slots s (CampaignIDs reg ! i) = Some (BudgetIndices reg ! i)" if "i < length cs" for i
    using l that by (simp add: lists_campaigns_def) (metis comp_apply length_map nth_map)
  moreover have "in_i64 (DailyBudgets reg ! i)" if "i < length cs" for i
    using l fits that by (simp add: lists_campaigns_def list_all_length campaign_fits_def)
  ultimately show ?thesis using l by (simp add: shard_slotted_def lists_campaigns_def)
qed

context go_sorter
begin

lemma build_filled:
  assumes small: "length ps + length crs < 2 ^ 23" and slot: "\<forall>p\<in>set ps. slotted s p"
  shows "\<exists>reg'. build_shard pb sched en crs (filled (length ps) ps) = Some reg' \<and> shard_ok reg' \<and>
    lists_campaigns s (map fst ps) reg'"
proof -
  let ?reg = "filled (length ps) ps"
  let ?cached = "buildCreativeCache pb crs ?reg"
  have count: "Count ?reg = length ps" by (simp add: filled_def sized_shard_def)
  have same: "Count ?cached = length ps"
    using buildCreativeCache_wf(2) [of pb crs ?reg] count by (simp add: campaign_columns.truncate_def)
  have "(\<Sum>i<length ps. length (campaign_rows ?cached i)) < 2 ^ 23"
    using campaign_rows_bound [of ?reg crs pb] small by (simp add: count)
  then have rows: "length (geo_rows ?cached) < 2 ^ 32" "length (target_rows ?cached) < 2 ^ 32"
    using geo_rows_bound [of ?cached] target_rows_bound [of ?cached] by (simp_all add: same)
  have cols: "columns_wf ?reg" using columns_wf_filled [of ps "length ps"] small by simp
  have fresh: "TargetBucketSoA ?reg = empty_bucket" "TargetBucketCount ?reg = 0"
    by (simp_all add: filled_def sized_shard_def)
  obtain reg' where reg': "build_shard pb sched en crs ?reg = Some reg'" "shard_ok reg'" "same_campaigns ?cached reg'"
    using build_shard_ok [OF cols fresh rows(1), of en] rows(2) by blast
  have "lists_campaigns s (map fst ps) reg'"
    using lists_truncate [OF filled_lists [OF slot]] reg'(3) buildCreativeCache_wf(2) unfolding same_campaigns_def by metis
  then show ?thesis using reg' by blast
qed

lemma UpdateCampaigns_spec:
  assumes small: "length campaigns + length (pendingCreatives r) < 2 ^ 23" and inv: "store_inv (store r)"
    and room: "length (budgets (store r)) + length campaigns < 2 ^ 32"
      "length (customerBudgets (store r)) + length campaigns < 2 ^ 32"
    and fits: "list_all campaign_fits campaigns"
  shows "\<exists>r'. UpdateCampaigns pb sched campaigns r = Some r' \<and> registry_ok r' \<and>
    grown (2 * length campaigns) (store r) (store r') \<and>
    (\<forall>k<geoShardCount. lists_campaigns (store r') (filter (\<lambda>c. cp_shard c = k) campaigns) (catalog r' ! k)) \<and>
    snapGen r' = snapGen r + 1 \<and> clearingMode r' = clearingMode r \<and>
    targetingIndexEnabled r' = targetingIndexEnabled r \<and> fcap r' = fcap r \<and> pendingCreatives r' = pendingCreatives r"
proof -
  let ?ns = "shard_counts campaigns" and ?crs = "partitionCreativesByShard campaigns (pendingCreatives r)"
  let ?start = "(map sized_shard ?ns, replicate geoShardCount 0, store r)"
  have "placing ?ns (\<lambda>_. []) ?start"
    by (auto simp: placing_def filled_Nil shard_counts_spec intro!: nth_equalityI)
  from place_campaigns_placing [OF this, of campaigns] obtain P where
      P: "placing ?ns P (fold place_campaign campaigns ?start)"
        "\<And>k. map fst (P k) = filter (\<lambda>c. cp_shard c = k) campaigns"
        "snd (snd (fold place_campaign campaigns ?start)) = fold (\<lambda>c s. fst (alloc c s)) campaigns (store r)"
    by (auto simp: shard_counts_spec)
  obtain regs ws s where st: "fold place_campaign campaigns ?start = (regs, ws, s)" by (metis prod_cases3)
  have len: "length (P k) = length (filter (\<lambda>c. cp_shard c = k) campaigns)" for k by (metis P(2) length_map)
  have regs: "regs = map (\<lambda>k. filled (length (P k)) (P k)) [0..<geoShardCount]"
    using P(1) st by (auto simp: placing_def len shard_counts_spec)
  have slot: "slotted s p" if "p \<in> set (P k)" for p k using P(1) st that by (auto simp: placing_def)
  have s: "store_inv s" "grown (2 * length campaigns) (store r) s"
    using allocs_store_inv [OF inv room] fits P(3) st by (auto simp: list_all_iff campaign_fits_def)
  define bs where "bs = map2 (build_shard pb sched (targetingIndexEnabled r)) ?crs regs"
  have "\<exists>reg'. bs ! k = Some reg' \<and> shard_ok reg' \<and> lists_campaigns s (filter (\<lambda>c. cp_shard c = k) campaigns) reg'"
    if k: "k < geoShardCount" for k
  proof -
    have "length (P k) + length (?crs ! k) < 2 ^ 23"
      using len [of k] small partition_bound [OF k, of campaigns "pendingCreatives r"]
        length_filter_le [of "\<lambda>c. cp_shard c = k" campaigns] by linarith
    from build_filled [OF this] show ?thesis using slot k by (auto simp: bs_def regs P(2) [symmetric])
  qed
  moreover have "length bs = geoShardCount" by (simp add: bs_def regs)
  ultimately obtain shards where shards: "those bs = Some shards" "length shards = geoShardCount"
      "\<And>k. k < geoShardCount \<Longrightarrow> shard_ok (shards ! k)"
      "\<And>k. k < geoShardCount \<Longrightarrow> lists_campaigns s (filter (\<lambda>c. cp_shard c = k) campaigns) (shards ! k)"
    using those_all [of bs "\<lambda>k reg'. shard_ok reg' \<and> lists_campaigns s (filter (\<lambda>c. cp_shard c = k) campaigns) reg'"] by auto
  have "shard_slotted s (shards ! k)" if "k < geoShardCount" for k
    using lists_slotted [OF shards(4) [OF that]] fits by (simp add: list_all_iff)
  then have "registry_ok (publishCatalog shards (r\<lparr>store := s\<rparr>))"
    using shards s by (auto simp: registry_ok_def publishCatalog_def in_set_conv_nth)
  then show ?thesis
    using shards s st by (intro exI [of _ "publishCatalog shards (r\<lparr>store := s\<rparr>)"])
      (simp add: UpdateCampaigns_def bs_def publishCatalog_def)
qed

end

text \<open>C6. Publishing campaigns never panics and gives a registry in which every shard lists the
  campaigns of its geos, one row each and in the given order, with the budget slots they have
  in the store, and in which the bucket of a geo holds the creatives of its campaigns with
  the best one first. Slots and balances that exist are kept.\<close>

theorem UpdateCampaigns_publishes:
  assumes "go_sorter sched" and "length campaigns + length (pendingCreatives r) < 2 ^ 23"
    and "store_inv (store r)" and "length (budgets (store r)) + length campaigns < 2 ^ 32"
    and "length (customerBudgets (store r)) + length campaigns < 2 ^ 32" and "list_all campaign_fits campaigns"
  shows "\<exists>r'. UpdateCampaigns pb sched campaigns r = Some r' \<and> registry_ok r' \<and>
    grown (2 * length campaigns) (store r) (store r') \<and> snapGen r' = snapGen r + 1 \<and>
    (\<forall>k<geoShardCount. lists_campaigns (store r') (filter (\<lambda>c. cp_shard c = k) campaigns) (catalog r' ! k))"
  using go_sorter.UpdateCampaigns_spec [OF assms, of pb] by blast

end
