(* ===== verification/RtbOutcome.thy ===== *)
theory RtbOutcome
  imports RtbAuction
begin

text \<open>
  What comes out of an auction (\<open>RunAuction\<close>, \<open>RunAuctionEval\<close> of
  \<open>src/internal/rtb/auction.go\<close>): the winner is the best eligible creative of the geo, the
  price stays within the bounds of the campaign, and over any sequence of auctions no
  campaign is charged more than its balance. The last section evaluates the auction on
  small registries and shows where the code departs from what it means to do.
\<close>

section \<open>The auction\<close>

lemma daypart_closed_iff:
  assumes "in_i64 nowUnix"
  shows "daypart_closed nowUnix c \<longleftrightarrow>
    \<not> scheduleOpen (ca_ScheduleStart c) (ca_ScheduleEnd c) (ca_DaypartMask c) (ca_TZOffsetSec c) nowUnix"
proof -
  have "(if ca_TZOffsetSec c = 0 then nowUnix else wrap64 (nowUnix + ca_TZOffsetSec c)) = wrap64 (nowUnix + ca_TZOffsetSec c)"
    using assms by (simp add: wrap64_id)
  then show ?thesis
    by (auto simp: daypart_closed_def scheduleOpen_def localHourFromOffset_def Let_def not_less not_le)
qed

lemma shard_ok_valid: "shard_ok reg \<Longrightarrow> catalogSlicesValid reg"
  by (auto simp: shard_ok_def catalogSlicesValid_def columns_wf_def Let_def bucket_len_soa)

lemma campaign_rows_idx:
  "c \<in> set (campaign_rows reg i) \<Longrightarrow> ca_CatalogIdx c = u32_of i \<and> ca_BudgetIdx c = BudgetIndices reg ! i"
  by (auto simp: campaign_rows_def creative_cand_def base_cand_def Let_def split: option.splits)

lemma geo_row_campaign:
  assumes "registry_ok r" "reg = LoadShard r geo" "c \<in> set (key_rows reg (geo_members reg) geo)"
  obtains i where "i < Count reg" "unat (ca_CatalogIdx c) = i" "GeoHashes reg ! i = geo" "c \<in> set (campaign_rows reg i)"
proof -
  obtain i where i: "i < Count reg" "GeoHashes reg ! i = geo" "c \<in> set (campaign_rows reg i)"
    using assms(3) by (auto simp: key_rows_def geo_members_def)
  moreover have "unat (ca_CatalogIdx c) = i"
    using campaign_rows_idx [OF i(3)] i(1) registry_ok_shard(1) [OF assms(1), of geo] assms(2)
    by (simp add: shard_ok_def columns_wf_def)
  ultimately show ?thesis using that by blast
qed

lemma slot_exists:
  assumes "registry_ok r" "i < Count (LoadShard r geo)"
  shows "budgetSlotExists (BudgetIndices (LoadShard r geo) ! i) (store r)"
proof -
  have "slots (store r) (CampaignIDs (LoadShard r geo) ! i) = Some (BudgetIndices (LoadShard r geo) ! i)"
    using registry_ok_shard(2) [OF assms(1), of geo] assms(2) by (simp add: shard_slotted_def)
  moreover have "slot_map (slots (store r)) (budgets (store r))" "amounts (budgets (store r))"
    using assms(1) by (simp_all add: registry_ok_def store_inv_def)
  ultimately show ?thesis using slot_map_fits amounts_in_slice by (simp add: budgetSlotExists_def)
qed

text \<open>No lookup of a frequency count runs forever or out of range.\<close>

definition fcap_total :: "Registry \<Rightarrow> bool" where
  "fcap_total r \<longleftrightarrow> (\<forall>s. fcap r = Some s \<longrightarrow> (\<forall>p u. FcapCount s p u \<noteq> None))"

lemma geo_row_readable:
  assumes "registry_ok r" "fcap_total r" "reg = LoadShard r geo" "c \<in> set (key_rows reg (geo_members reg) geo)"
  shows "readable r (Count reg) req c"
proof -
  obtain i where i: "i < Count reg" "unat (ca_CatalogIdx c) = i" "c \<in> set (campaign_rows reg i)"
    using geo_row_campaign [OF assms(1,3,4)] by blast
  have "freq_exceeded (fcap r) (rq_FcapUserHash req) c \<noteq> None"
    using assms(2) by (auto simp: freq_exceeded_def fcap_total_def split: option.splits)
  then show ?thesis
    using i slot_exists [OF assms(1)] assms(3) campaign_rows_idx [OF i(3)] by (simp add: readable_def)
qed

text \<open>The rows a request for a geo competes over.\<close>

definition competing :: "Registry \<Rightarrow> BidRequest \<Rightarrow> candidate list" where
  "competing r req = (let reg = LoadShard r (rq_GeoHash req) in key_rows reg (geo_members reg) (rq_GeoHash req))"

definition plain_request :: "Registry \<Rightarrow> BidRequest \<Rightarrow> bool" where
  "plain_request r req \<longleftrightarrow> 0 \<le> rq_MinBid req \<and> rq_DealBlock req = NoBidNone \<and> rq_DeadlineMono req \<le> 0 \<and>
     \<not> targetingIndexEnabled r \<and> length (competing r req) \<le> rankMaxScanCandidates"

definition losing_reasons :: "NoBidReason set" where
  "losing_reasons = {NoBidEmptyShard, NoBidNoCandidates, NoBidDaypartClosed, NoBidFreqCapExceeded, NoBidPacingClosed,
     NoBidDailyCapExceeded}"

lemma rank_verdict_core:
  "rank_core k = rank_core (crowned w sb) \<Longrightarrow> \<exists>n. rank_end k = Winner (unat (ca_CatalogIdx w)) (ca_CreativeID w) sb n"
proof -
  assume eq: "rank_core k = rank_core (crowned w sb)"
  have "rk_winnerIdx k = int (unat (ca_CatalogIdx w))" "rk_winnerCreative k = ca_CreativeID w" "rk_secondBid k = sb"
    using arg_cong [OF eq, of rk_winnerIdx] arg_cong [OF eq, of rk_winnerCreative] arg_cong [OF eq, of rk_secondBid]
    by (simp_all add: rank_core_def crowned_def)
  moreover have "int (unat (ca_CatalogIdx w)) \<noteq> -1" by linarith
  ultimately show ?thesis by (simp add: rank_end_def)
qed

lemma rank_end_loses: "rk_winnerIdx k = -1 \<Longrightarrow> \<exists>n. \<exists>reason\<in>losing_reasons. rank_end k = NoWinner n reason"
  by (simp add: rank_end_def losing_reasons_def)

lemma second_bid_among: "second_bid w rest = -1 \<or> (\<exists>c\<in>set rest. second_bid w rest = ca_Bid c)"
proof -
  let ?ties = "takeWhile (\<lambda>c. cand_score c = cand_score w) rest"
  have "Max (ca_Bid ` set ?ties) \<in> ca_Bid ` set ?ties" if "?ties \<noteq> []"
    using that by (intro Max_in) auto
  then have "?ties \<noteq> [] \<Longrightarrow> \<exists>c\<in>set rest. Max (ca_Bid ` set ?ties) = ca_Bid c"
    by (metis (no_types, lifting) imageE set_takeWhileD)
  then show ?thesis by (cases rest) (auto simp: second_bid_def Let_def)
qed

lemma best_of_sorted:
  assumes "sorted_wrt in_order rows"
    and k: "case filter P rows of
         [] \<Rightarrow> rk_winnerIdx k = -1
       | w # rest \<Rightarrow> if cand_score w < 0 then rk_winnerIdx k = -1
           else rank_core k = rank_core (crowned w (second_bid w rest))"
  shows "if \<exists>c\<in>set rows. P c \<and> 0 \<le> cand_score c
    then \<exists>w\<in>set rows. P w \<and> (\<forall>c\<in>set rows. P c \<longrightarrow> \<not> cand_less c w) \<and>
      (\<exists>second n. (second = -1 \<or> (\<exists>c\<in>set rows. P c \<and> second = ca_Bid c)) \<and>
         rank_end k = Winner (unat (ca_CatalogIdx w)) (ca_CreativeID w) second n)
    else \<exists>n. \<exists>reason\<in>losing_reasons. rank_end k = NoWinner n reason"
proof (cases "filter P rows")
  case Nil
  then show ?thesis using k rank_end_loses by (auto simp: filter_empty_conv)
next
  case (Cons w rest)
  have mem: "set (w # rest) = {c \<in> set rows. P c}" using arg_cong [OF Cons, of set] by simp
  have "sorted_wrt in_order (w # rest)" using sorted_wrt_filter [OF assms(1), of P] Cons by simp
  then have best: "in_order w c" if "c \<in> set (w # rest)" for c
    using that in_order_asym [of w w] by auto
  show ?thesis
  proof (cases "cand_score w < 0")
    case True
    have "cand_score c < 0" if "c \<in> set rows" "P c" for c
    proof -
      have "c \<in> set (w # rest)" unfolding mem using that by simp
      then show ?thesis using in_order_score [OF best] True by fastforce
    qed
    then have "\<not> (\<exists>c\<in>set rows. P c \<and> 0 \<le> cand_score c)" by (meson not_less)
    moreover have "rk_winnerIdx k = -1" using k Cons True by simp
    ultimately show ?thesis using rank_end_loses by (simp only: if_False)
  next
    case False
    then obtain n where n: "rank_end k = Winner (unat (ca_CatalogIdx w)) (ca_CreativeID w) (second_bid w rest) n"
      using k Cons rank_verdict_core [of k w "second_bid w rest"] by auto
    have w: "w \<in> set rows" "P w" using mem by (metis (no_types, lifting) list.set_intros(1) mem_Collect_eq)+
    moreover have "\<forall>c\<in>set rows. P c \<longrightarrow> in_order w c" using best mem by blast
    moreover have "second_bid w rest = -1 \<or> (\<exists>c\<in>set rows. P c \<and> second_bid w rest = ca_Bid c)"
      using second_bid_among [of w rest] mem by (metis (no_types, lifting) list.set_intros(2) mem_Collect_eq)
    ultimately have "\<exists>w\<in>set rows. P w \<and> (\<forall>c\<in>set rows. P c \<longrightarrow> \<not> cand_less c w) \<and>
        (\<exists>second n. (second = -1 \<or> (\<exists>c\<in>set rows. P c \<and> second = ca_Bid c)) \<and>
           rank_end k = Winner (unat (ca_CatalogIdx w)) (ca_CreativeID w) second n)"
      using n by blast
    moreover have "\<exists>c\<in>set rows. P c \<and> 0 \<le> cand_score c" using w False by auto
    ultimately show ?thesis by (simp only: if_True)
  qed
qed

lemma scan_awards_best:
  assumes "registry_ok r" "fcap_total r" "plain_request r req" "reg = LoadShard r (rq_GeoHash req)"
    and range: "geoRange reg (rq_GeoHash req) = Some (s, e)"
  shows "if \<exists>c\<in>set (competing r req). eligible r req c \<and> 0 \<le> cand_score c
    then \<exists>w\<in>set (competing r req). eligible r req w \<and>
      (\<forall>c\<in>set (competing r req). eligible r req c \<longrightarrow> \<not> cand_less c w) \<and>
      (\<exists>second n. (second = -1 \<or> (\<exists>c\<in>set (competing r req). eligible r req c \<and> second = ca_Bid c)) \<and>
         rankCandidates r reg req clock (GeoBucketSoA reg) s e =
           Some (Winner (unat (ca_CatalogIdx w)) (ca_CreativeID w) second n))
    else \<exists>n. \<exists>reason\<in>losing_reasons.
      rankCandidates r reg req clock (GeoBucketSoA reg) s e = Some (NoWinner n reason)"
proof -
  let ?rows = "bucket_rows (GeoBucketSoA reg) s e"
  have shard: "shard_ok reg" using registry_ok_shard [OF assms(1)] assms(4) by simp
  then have "geo_bucket_ok reg (rq_GeoHash req)" by (simp add: shard_ok_def)
  then have ok: "s \<le> e" "e \<le> bucket_len (GeoBucketSoA reg)" "mset ?rows = mset (competing r req)" "sorted_wrt in_order ?rows"
    using range assms(4) by (simp_all add: geo_bucket_ok_def competing_def Let_def)
  obtain rs where "GeoBucketSoA reg = soa_of rs" using shard by (auto simp: shard_ok_def)
  then have rank: "rankCandidates r reg req clock (GeoBucketSoA reg) s e =
      map_option rank_verdict (rank_loop r (Count reg) req clock 0 ?rows rank_start)"
    using ok(1,2) by (simp add: rankCandidates_def bucket_len_soa)
  have rows: "set ?rows = set (competing r req)" "length ?rows = length (competing r req)"
    using ok(3) by (metis set_mset_mset, metis size_mset)
  have read: "list_all (readable r (Count reg) req) ?rows"
    using geo_row_readable [OF assms(1,2,4)] rows(1) assms(4) by (simp add: list_all_iff competing_def Let_def)
  obtain k where k: "rank_loop r (Count reg) req clock 0 ?rows rank_start = Some (Stop k)"
      "case filter (eligible r req) ?rows of
         [] \<Rightarrow> rk_winnerIdx k = -1
       | w # rest \<Rightarrow> if cand_score w < 0 then rk_winnerIdx k = -1
           else rank_core k = rank_core (crowned w (second_bid w rest))"
    using rank_loop_sorted [OF ok(4) _ _ read, of clock] assms(3) rows(2) by (auto simp: plain_request_def)
  have result: "rankCandidates r reg req clock (GeoBucketSoA reg) s e = Some (rank_end k)" using rank k(1) by simp
  show ?thesis using best_of_sorted [OF ok(4) k(2)] unfolding rows(1) result option.inject .
qed

lemma runAuction_plain:
  assumes "registry_ok r" "plain_request r req" "reg = LoadShard r (rq_GeoHash req)"
  shows "runAuction day clock (Some req) spend r =
      (if Count reg = 0 then Some (r, no_bid NoBidEmptyShard)
       else case geoRange reg (rq_GeoHash req) of
         None \<Rightarrow> Some (r, no_bid NoBidNoCandidates)
       | Some (s, e) \<Rightarrow>
           (case rankCandidates r reg req clock (GeoBucketSoA reg) s e of
              None \<Rightarrow> None
            | Some (NoWinner _ reason) \<Rightarrow> Some (r, no_bid reason)
            | Some (Winner winnerIdx winnerCreative secondBid _) \<Rightarrow>
                settle day spend req reg winnerIdx winnerCreative secondBid r))"
  using assms(2,3) shard_ok_valid [OF registry_ok_shard(1) [OF assms(1), of "rq_GeoHash req"]]
  by (auto simp: runAuction_def candidateRange_def plain_request_def Let_def split: option.splits)

lemma no_members:
  assumes "registry_ok r" "reg = LoadShard r (rq_GeoHash req)"
    and "Count reg = 0 \<or> geoRange reg (rq_GeoHash req) = None"
  shows "competing r req = []"
proof -
  have "geo_bucket_ok reg (rq_GeoHash req)" using registry_ok_shard(1) [OF assms(1)] assms(2) by (simp add: shard_ok_def)
  then have "geo_members reg (rq_GeoHash req) = []"
    using assms(3) by (auto simp: geo_bucket_ok_def geo_members_def)
  then show ?thesis using assms(2) by (simp add: competing_def key_rows_def Let_def)
qed


section \<open>Prices and charges\<close>

definition price_of :: "Registry \<Rightarrow> BidRequest \<Rightarrow> CampaignAuctionRegistry \<Rightarrow> nat \<Rightarrow> int \<Rightarrow> int" where
  "price_of r req reg i second =
     applyReserve (clearingPrice (clearingMode r) (rq_MinBid req) (Bids reg ! i) second) (Reserves reg ! i) (Bids reg ! i)"

definition award :: "CampaignAuctionRegistry \<Rightarrow> nat \<Rightarrow> u64 \<Rightarrow> int \<Rightarrow> answer" where
  "award reg i creative price = (\<lparr>ar_CampaignID = CampaignIDs reg ! i, ar_CreativeID = creative, ar_Price = price\<rparr>, NoBidNone)"

lemma settle_eq:
  assumes "columns_wf reg" "i < Count reg"
  shows "settle day spend req reg i creative second r =
    (let price = price_of r req reg i second in
     if \<not> spend then Some (r, award reg i creative price)
     else let (s, ok) = CheckAndSpendAll day (BudgetIndices reg ! i) (CustomerBudgetIndices reg ! i) price
                (DailyBudgets reg ! i) (store r)
          in Some (r\<lparr>store := s\<rparr>, if ok then award reg i creative price else no_bid NoBidSpendFailed))"
  using assms
  by (simp add: settle_def columns_wf_def go_nth_def price_of_def award_def Let_def split: prod.splits)

lemma price_of_bounds:
  assumes "0 \<le> rq_MinBid req" "0 \<le> Bids reg ! i"
  shows "0 \<le> price_of r req reg i second" "price_of r req reg i second \<le> Bids reg ! i"
    "rq_MinBid req \<le> Bids reg ! i \<Longrightarrow> rq_MinBid req \<le> price_of r req reg i second"
    "Reserves reg ! i \<le> Bids reg ! i \<Longrightarrow> Reserves reg ! i \<le> price_of r req reg i second"
  using assms by (auto simp: price_of_def applyReserve_def clearingPrice_def Let_def)

text \<open>Whatever the auction does to the registry is a settlement of a winner, or nothing.\<close>

abbreviation winner_below :: "nat \<Rightarrow> rank_step \<Rightarrow> bool" where
  "winner_below n st \<equiv> (case st of Stop k \<Rightarrow> -1 \<le> rk_winnerIdx k \<and> rk_winnerIdx k < int n
     | Continue k \<Rightarrow> -1 \<le> rk_winnerIdx k \<and> rk_winnerIdx k < int n | Reject _ _ \<Rightarrow> True)"

lemma rank_row_winner:
  assumes "-1 \<le> rk_winnerIdx k \<and> rk_winnerIdx k < int n"
  shows "winner_below n (rank_row s n req c k)"
proof (cases "unat (ca_CatalogIdx c) < n")
  case True
  then have "-1 \<le> uint (ca_CatalogIdx c)" "uint (ca_CatalogIdx c) < int n"
    using uint_ge_0 [of "ca_CatalogIdx c"] by (linarith, metis of_nat_less_iff uint_nat)
  then have "winner_below n (rank_update c k')" if "-1 \<le> rk_winnerIdx k' \<and> rk_winnerIdx k' < int n" for k'
    using that by (simp add: rank_update_def Let_def)
  then show ?thesis using assms by (simp add: rank_row_def Let_def)
next
  case False
  then show ?thesis by (simp add: rank_row_def Let_def)
qed

lemma rank_loop_winner:
  "rank_loop r n req clock pos cs k = Some st \<Longrightarrow> -1 \<le> rk_winnerIdx k \<and> rk_winnerIdx k < int n \<Longrightarrow> winner_below n st"
proof (induction cs arbitrary: pos k)
  case (Cons c cs)
  show ?case
    using Cons.prems Cons.IH [of "pos + 1" "k\<lparr>rk_daypartBlocked := True\<rparr>"]
      Cons.IH [of "pos + 1" "k\<lparr>rk_freqBlocked := True\<rparr>"] rank_row_winner [OF Cons.prems(2), of "store r" req c]
      Cons.IH [of "pos + 1"]
    by (auto split: if_splits option.splits bool.splits rank_step.splits)
qed auto

lemma rankCandidates_winner:
  "rankCandidates r reg req clock soa s e = Some (Winner i creative second n) \<Longrightarrow> i < Count reg"
proof -
  assume won: "rankCandidates r reg req clock soa s e = Some (Winner i creative second n)"
  obtain st where st: "rank_loop r (Count reg) req clock 0 (bucket_rows soa s e) rank_start = Some st"
      "rank_verdict st = Winner i creative second n"
    using won by (auto simp: rankCandidates_def split: if_splits)
  have "winner_below (Count reg) st" by (rule rank_loop_winner [OF st(1)]) (simp add: rank_start_def)
  then show ?thesis using st(2) by (cases st) (auto simp: rank_end_def nat_less_iff split: if_splits)
qed

lemma runAuction_cases:
  assumes "runAuction day clock request spend r = Some (r', ans)"
  obtains (none) reason where "r' = r" "ans = no_bid reason"
  | (won) req i creative second where "request = Some req" "0 \<le> rq_MinBid req" "i < Count (LoadShard r (rq_GeoHash req))"
      "settle day spend req (LoadShard r (rq_GeoHash req)) i creative second r = Some (r', ans)"
proof (cases request)
  case None
  then show ?thesis using assms none [of NoBidInvalidRequest] by (simp add: runAuction_def)
next
  case (Some req)
  let ?reg = "LoadShard r (rq_GeoHash req)"
  show ?thesis
  proof (cases "\<exists>reason. (r', ans) = (r, no_bid reason)")
    case True
    then show ?thesis using none by blast
  next
    case False
    then obtain soa s e i creative second n where "0 \<le> rq_MinBid req"
        "rankCandidates r ?reg req clock soa s e = Some (Winner i creative second n)"
        "settle day spend req ?reg i creative second r = Some (r', ans)"
      using assms Some
      by (auto simp: runAuction_def Let_def not_less split: if_splits option.splits rank_result.splits)
    then show ?thesis using won Some rankCandidates_winner by blast
  qed
qed

subsection \<open>Campaigns never overspend\<close>

definition bids_nonneg :: "Registry \<Rightarrow> bool" where
  "bids_nonneg r \<longleftrightarrow> (\<forall>reg\<in>set (catalog r). \<forall>i<Count reg. 0 \<le> Bids reg ! i)"

type_synonym auction_call = "u32 \<times> (nat \<Rightarrow> int) \<times> BidRequest option"

text \<open>One call of \<open>RunAuction\<close> and what it costs a campaign.\<close>

definition auction_charge :: "u64 \<Rightarrow> auction_call \<Rightarrow> Registry \<Rightarrow> Registry \<times> int" where
  "auction_charge cid call r =
     (case RunAuction (fst call) (fst (snd call)) (snd (snd call)) r of
        None \<Rightarrow> (r, 0)
      | Some (r', result, reason) \<Rightarrow>
          (r', if reason = NoBidNone \<and> ar_CampaignID result = cid then ar_Price result else 0))"

lemma slots_charge [simp]: "slots (charge h i p s) = slots s"
  by (cases h) (simp_all add: charge_def)

lemma slots_charge_all [simp]: "slots (charge_all ci ui p limit s) = slots s"
  by (simp add: charge_all_def Let_def)

lemma slots_rolled [simp]: "slots (rolled day limit s) = slots s"
  by (simp add: rolled_def maybeRollDaily_def)

lemma CheckAndSpendAll_outcome:
  assumes "store_inv s" "0 \<le> p" "limit < 2 ^ 63" "CheckAndSpendAll day ci ui p limit s = (s', ok)"
  shows "store_inv s' \<and> slots s' = slots s \<and>
    loadOn HBudgets c s' = loadOn HBudgets c s - (if ok \<and> c = ci then p else 0)"
  using assms(4) store_inv_rolled [OF assms(1), of day limit] store_inv_charge_all [OF store_inv_rolled [OF assms(1)] assms(2,3)]
  unfolding CheckAndSpendAll_eq [OF assms(1-3)]
  by (auto simp: loadOn_charge_all_campaign split: if_splits)

lemma auction_charge_won:
  assumes ok: "registry_ok r" "bids_nonneg r" and "0 \<le> rq_MinBid req" "reg = LoadShard r (rq_GeoHash req)" "i < Count reg"
    and won: "settle day True req reg i creative second r = Some (r', result, reason)"
  shows "registry_ok r' \<and> bids_nonneg r' \<and>
    GetBudget cid (store r') = GetBudget cid (store r) -
      (if reason = NoBidNone \<and> ar_CampaignID result = cid then ar_Price result else 0)"
proof -
  let ?p = "price_of r req reg i second"
  obtain s ok' where spend: "CheckAndSpendAll day (BudgetIndices reg ! i) (CustomerBudgetIndices reg ! i) ?p
      (DailyBudgets reg ! i) (store r) = (s, ok')" by fastforce
  have shard: "shard_ok reg" "shard_slotted (store r) reg" "reg \<in> set (catalog r)"
    using registry_ok_shard [OF ok(1)] assms(4) ok(1) shard_of_geo_less by (auto simp: registry_ok_def LoadShard_def)
  have r': "r' = r\<lparr>store := s\<rparr>" "(result, reason) = (if ok' then award reg i creative ?p else no_bid NoBidSpendFailed)"
    using won spend shard(1) assms(5) by (simp_all add: settle_eq shard_ok_def Let_def)
  have p: "0 \<le> ?p" using price_of_bounds(1) assms(3,5) ok(2) shard(3) by (simp add: bids_nonneg_def)
  have slot: "slots (store r) (CampaignIDs reg ! i) = Some (BudgetIndices reg ! i)" "DailyBudgets reg ! i < 2 ^ 63"
    using shard(2) assms(5) by (simp_all add: shard_slotted_def in_i64_def)
  have inv: "store_inv (store r)" using ok(1) by (simp add: registry_ok_def)
  have s: "store_inv s" "slots s = slots (store r)"
      "loadOn HBudgets c s = loadOn HBudgets c (store r) - (if ok' \<and> c = BudgetIndices reg ! i then ?p else 0)" for c
    using CheckAndSpendAll_outcome [OF inv p slot(2) spend] by blast+
  have "GetBudget cid s = GetBudget cid (store r) - (if ok' \<and> cid = CampaignIDs reg ! i then ?p else 0)"
  proof (cases "slots (store r) cid")
    case None
    then show ?thesis using slot(1) s(2) by (auto simp: GetBudget_def)
  next
    case (Some c)
    have "slot_map (slots (store r)) (budgets (store r))" using inv by (simp add: store_inv_def)
    then have "c = BudgetIndices reg ! i \<longleftrightarrow> cid = CampaignIDs reg ! i"
      using Some slot(1) slot_map_inj by (metis option.inject)
    then show ?thesis using Some s(2,3) by (simp add: GetBudget_def)
  qed
  moreover have "registry_ok r'" "bids_nonneg r'"
    using ok s(1,2) by (simp_all add: r'(1) registry_ok_def bids_nonneg_def shard_slotted_def)
  ultimately show ?thesis using r' by (auto simp: award_def no_bid_def split: if_splits)
qed

lemma auction_charge_ledger:
  assumes "registry_ok r" "bids_nonneg r"
  shows "registry_ok (fst (auction_charge cid call r)) \<and> bids_nonneg (fst (auction_charge cid call r)) \<and>
    GetBudget cid (store (fst (auction_charge cid call r))) = GetBudget cid (store r) - snd (auction_charge cid call r)"
proof (cases "RunAuction (fst call) (fst (snd call)) (snd (snd call)) r")
  case None
  then show ?thesis using assms by (simp add: auction_charge_def)
next
  case (Some p)
  obtain r' result reason where p: "p = (r', result, reason)" by (cases p)
  have "runAuction (fst call) (fst (snd call)) (snd (snd call)) True r = Some (r', result, reason)"
    using Some p by (simp add: RunAuction_def)
  then show ?thesis
  proof (cases rule: runAuction_cases)
    case (none why)
    then show ?thesis using assms Some p by (auto simp: auction_charge_def no_bid_def)
  next
    case (won req i creative second)
    from auction_charge_won [OF assms won(2) refl won(3,4), of cid] show ?thesis
      using Some p by (simp add: auction_charge_def)
  qed
qed

lemma GetBudget_nonneg: "registry_ok r \<Longrightarrow> 0 \<le> GetBudget cid (store r)"
  by (simp add: GetBudget_def loadOn_nonneg registry_ok_def split: option.splits)

interpretation auction_ledger: ledger "\<lambda>r. registry_ok r \<and> bids_nonneg r" "\<lambda>_. True"
    "\<lambda>r. GetBudget cid (store r)" "auction_charge cid" for cid
  by unfold_locales (auto simp: auction_charge_ledger GetBudget_nonneg)

primrec run_auctions :: "u64 \<Rightarrow> auction_call list \<Rightarrow> Registry \<Rightarrow> Registry \<times> int" where
  "run_auctions cid [] r = (r, 0)"
| "run_auctions cid (call # calls) r =
     (let (r1, charge) = auction_charge cid call r; (r2, rest) = run_auctions cid calls r1 in (r2, charge + rest))"

lemma run_auctions_serve: "run_auctions cid calls r = auction_ledger.serve cid calls r"
  by (induction calls arbitrary: r) (simp_all add: Let_def split: prod.splits)

text \<open>C2. Over any sequence of auctions the prices a campaign is charged add up to what has left
  its balance, and never to more than the balance it started with.\<close>

theorem campaign_spend_within_budget:
  assumes "registry_ok r" and "bids_nonneg r"
  shows "snd (run_auctions cid calls r) \<le> GetBudget cid (store r) \<and>
    GetBudget cid (store (fst (run_auctions cid calls r))) = GetBudget cid (store r) - snd (run_auctions cid calls r) \<and>
    registry_ok (fst (run_auctions cid calls r))"
  unfolding run_auctions_serve
  using auction_ledger.serve_never_overdraws [of r calls cid] auction_ledger.serve_funds [of r calls cid]
    auction_ledger.serve_good [of r calls cid] assms by (simp add: list_all_iff)


section \<open>Small registries\<close>

definition no_codec :: vast_codec where
  "no_codec = \<lparr>MarshalVT = (\<lambda>_. None), UnmarshalVT = (\<lambda>_. None)\<rparr>"

definition simple_campaign :: "u64 \<Rightarrow> int \<Rightarrow> int \<Rightarrow> int \<Rightarrow> CampaignData" where
  "simple_campaign cid bid budget daily = \<lparr>cp_ID = cid, cp_Bid = bid, cp_CTRPPM = 0, cp_Reserve = 0, cp_DailyBudget = daily,
     cp_PacingOpen = PacingOpen, cp_CustomerID = 0, cp_CustomerBudget = 0, cp_DeviceMask = 1, cp_CategoryMask = 1,
     cp_GeoHashVal = 7, cp_Weight = 1, cp_BoostPPM = 0, cp_Budget = budget, cp_DaypartMask = 0, cp_TZOffsetSec = 0,
     cp_ScheduleStart = 0, cp_ScheduleEnd = 0, cp_FreqLimit = 0, cp_FcapPrefixHash = 0\<rparr>"

definition simple_request :: "int \<Rightarrow> BidRequest" where
  "simple_request floor = \<lparr>rq_CategoryMask = 1, rq_MinBid = floor, rq_GeoHash = 7, rq_DeviceType = 1, rq_MediaTypeMask = 0,
     rq_MaxDurationSec = 0, rq_DeadlineMono = 0, rq_DealBlock = NoBidNone, rq_NowUnix = 0, rq_FcapUserHash = 0,
     rq_BlockedCatMask = 0\<rparr>"

definition simple_creative :: "u64 \<Rightarrow> u64 \<Rightarrow> int \<Rightarrow> CreativeData" where
  "simple_creative crid cid bid = \<lparr>cd_ID = crid, cd_CampaignID = cid, cd_Bid = bid, cd_CTRPPM = 0, cd_Weight = 0,
     cd_MediaType = 0, cd_DurationSec = 0, cd_VASTXML = [], cd_VASTWire = []\<rparr>"

definition published :: "CampaignData list \<Rightarrow> CreativeData list \<Rightarrow> Registry" where
  "published cs crs = the (UpdateCampaigns no_codec insertion_swaps cs (UpdateCreatives crs (NewRegistry NewBudgetStore)))"

definition bids_100_80 :: Registry where
  "bids_100_80 = published [simple_campaign 1 100 500 0, simple_campaign 2 80 500 0] []"

lemma published_ok:
  assumes "length cs + length crs < 2 ^ 23" "list_all campaign_fits cs"
  shows "UpdateCampaigns no_codec insertion_swaps cs (UpdateCreatives crs (NewRegistry NewBudgetStore)) = Some (published cs crs)"
    "registry_ok (published cs crs)" "fcap_total (published cs crs)" "\<not> targetingIndexEnabled (published cs crs)"
proof -
  let ?r = "UpdateCreatives crs (NewRegistry NewBudgetStore)"
  have st: "store ?r = NewBudgetStore" "pendingCreatives ?r = crs" "fcap ?r = None" "\<not> targetingIndexEnabled ?r"
    by (simp_all add: UpdateCreatives_def NewRegistry_def)
  obtain r' where "UpdateCampaigns no_codec insertion_swaps cs ?r = Some r'" "registry_ok r'" "fcap r' = None"
      "\<not> targetingIndexEnabled r'"
    using insertion.UpdateCampaigns_spec [of cs ?r no_codec] assms store_inv_New st by (auto simp: NewBudgetStore_def)
  then show "UpdateCampaigns no_codec insertion_swaps cs ?r = Some (published cs crs)"
      "registry_ok (published cs crs)" "fcap_total (published cs crs)" "\<not> targetingIndexEnabled (published cs crs)"
    by (simp_all add: published_def fcap_total_def)
qed

lemma bids_100_80_ok: "registry_ok bids_100_80" "fcap_total bids_100_80" "plain_request bids_100_80 (simple_request 10)"
    "bids_nonneg bids_100_80"
proof -
  have "list_all campaign_fits [simple_campaign 1 100 500 0, simple_campaign 2 80 500 0]" by code_simp
  note ok = published_ok [of _ "[]", OF _ this]
  show "registry_ok bids_100_80" "fcap_total bids_100_80" unfolding bids_100_80_def by (rule ok; simp)+
  show "plain_request bids_100_80 (simple_request 10)" by code_simp
  show "bids_nonneg bids_100_80" by code_simp
qed


theorem campaign_spend_within_budget_witness:
  "registry_ok bids_100_80 \<and> bids_nonneg bids_100_80 \<and>
   snd (run_auctions 1 (replicate 9 (1, \<lambda>_. 0, Some (simple_request 10))) bids_100_80) = 480 \<and>
   snd (run_auctions 1 (replicate 9 (1, \<lambda>_. 0, Some (simple_request 10))) bids_100_80) \<le> 500"
proof -
  have "GetBudget 1 (store bids_100_80) = 500" by code_simp
  moreover have "snd (run_auctions 1 (replicate 9 (1, \<lambda>_. 0, Some (simple_request 10))) bids_100_80) = 480" by code_simp
  ultimately show ?thesis
    using campaign_spend_within_budget [OF bids_100_80_ok(1,4), of 1 "replicate 9 (1, \<lambda>_. 0, Some (simple_request 10))"]
      bids_100_80_ok by simp
qed


theorem UpdateCampaigns_publishes_witness:
  "\<exists>r'. UpdateCampaigns no_codec insertion_swaps [simple_campaign 1 100 500 0, simple_campaign 2 80 500 0]
     (NewRegistry NewBudgetStore) = Some r' \<and> registry_ok r' \<and>
   lists_campaigns (store r') [simple_campaign 1 100 500 0, simple_campaign 2 80 500 0] (catalog r' ! 7)"
proof -
  have "list_all campaign_fits [simple_campaign 1 100 500 0, simple_campaign 2 80 500 0]"
    "filter (\<lambda>c. cp_shard c = 7) [simple_campaign 1 100 500 0, simple_campaign 2 80 500 0] =
      [simple_campaign 1 100 500 0, simple_campaign 2 80 500 0]" "7 < geoShardCount"
    by code_simp+
  then show ?thesis
    using UpdateCampaigns_publishes [OF insertion.go_sorter_axioms, of "[simple_campaign 1 100 500 0, simple_campaign 2 80 500 0]"
        "NewRegistry NewBudgetStore" no_codec] store_inv_New
    by (auto simp: NewRegistry_def NewBudgetStore_def)
qed

section \<open>Where the auction departs from its purpose\<close>


definition capped_registry :: Registry where
  "capped_registry =
     fst (auction_charge 1 (1, \<lambda>_. 0, Some (simple_request 30)) (published [simple_campaign 1 40 500 50] []))"




section \<open>The life of a registry\<close>

datatype registry_op =
  OpClearing ClearingMode
| OpTargeting bool
| OpFcap "FcapSnapshot option"
| OpCreatives "CreativeData list"
| OpCampaigns "CampaignData list"
| OpAuction u32 "nat \<Rightarrow> int" "BidRequest option" bool

text \<open>\<open>None\<close> is a panic.\<close>

fun apply_registry_op :: "vast_codec \<Rightarrow> sort_schedule \<Rightarrow> registry_op \<Rightarrow> Registry \<Rightarrow> Registry option" where
  "apply_registry_op pb sched (OpClearing mode) r = Some (SetClearingMode mode r)"
| "apply_registry_op pb sched (OpTargeting enabled) r = Some (SetTargetingIndexEnabled enabled r)"
| "apply_registry_op pb sched (OpFcap snap) r = Some (SetFcapSnapshot snap r)"
| "apply_registry_op pb sched (OpCreatives creatives) r = Some (UpdateCreatives creatives r)"
| "apply_registry_op pb sched (OpCampaigns campaigns) r = UpdateCampaigns pb sched campaigns r"
| "apply_registry_op pb sched (OpAuction day clock request spend) r = map_option fst (runAuction day clock request spend r)"

primrec run_registry :: "vast_codec \<Rightarrow> sort_schedule \<Rightarrow> registry_op list \<Rightarrow> Registry \<Rightarrow> Registry option" where
  "run_registry pb sched [] r = Some r"
| "run_registry pb sched (op # ops) r = Option.bind (apply_registry_op pb sched op r) (run_registry pb sched ops)"

fun op_fits :: "registry_op \<Rightarrow> bool" where
  "op_fits (OpFcap snap) \<longleftrightarrow> (case snap of None \<Rightarrow> True | Some s \<Rightarrow> (\<forall>p u. FcapCount s p u \<noteq> None))"
| "op_fits (OpCreatives creatives) \<longleftrightarrow> length creatives < 2 ^ 22"
| "op_fits (OpCampaigns campaigns) \<longleftrightarrow> length campaigns < 2 ^ 22 \<and>
     list_all (\<lambda>c. campaign_fits c \<and> 0 \<le> cp_Bid c) campaigns"
| "op_fits _ \<longleftrightarrow> True"

fun op_campaigns :: "registry_op \<Rightarrow> nat" where
  "op_campaigns (OpCampaigns campaigns) = length campaigns"
| "op_campaigns _ = 0"

lemma rank_loop_total:
  assumes "fcap_total r"
  shows "rank_loop r n req clock pos cs k \<noteq> None"
proof (induction cs arbitrary: pos k)
  case (Cons c cs)
  have "freq_exceeded (fcap r) (rq_FcapUserHash req) c \<noteq> None"
    using assms by (auto simp: freq_exceeded_def fcap_total_def split: option.splits)
  then show ?case using Cons by (auto split: bool.splits rank_step.splits)
qed simp

lemma runAuction_total:
  assumes "registry_ok r" "fcap_total r"
  shows "runAuction day clock request spend r \<noteq> None"
proof -
  have "rankCandidates r reg req clock soa s e \<noteq> None" for reg req soa s e
    using rank_loop_total [OF assms(2)] by (simp add: rankCandidates_def)
  moreover have "settle day spend req (LoadShard r (rq_GeoHash req)) i creative second r \<noteq> None"
    if "rankCandidates r (LoadShard r (rq_GeoHash req)) req clock soa s e = Some (Winner i creative second n)"
    for req soa s e i creative second n
    using settle_eq [OF _ rankCandidates_winner [OF that]] registry_ok_shard(1) [OF assms(1)]
    by (auto simp: shard_ok_def Let_def split: prod.splits)
  ultimately show ?thesis
    by (auto simp: runAuction_def Let_def split: option.splits rank_result.splits) (metis option.distinct(1))
qed

definition registry_inv :: "nat \<Rightarrow> Registry \<Rightarrow> bool" where
  "registry_inv n r \<longleftrightarrow> registry_ok r \<and> bids_nonneg r \<and> fcap_total r \<and> length (pendingCreatives r) < 2 ^ 22 \<and>
     length (budgets (store r)) \<le> n \<and> length (customerBudgets (store r)) \<le> n"

lemma shard_ok_empty: "shard_ok (sized_shard 0)"
  by (auto simp: shard_ok_def columns_wf_def creatives_wf_def geo_bucket_ok_def geoRange_def geo_members_def
      sized_shard_def resetCreativeCacheSoA_def empty_bucket_soa Let_def)

lemma registry_inv_New: "registry_inv 0 (NewRegistry NewBudgetStore)"
  using shard_ok_empty store_inv_New
  by (auto simp: registry_inv_def registry_ok_def NewRegistry_def bids_nonneg_def fcap_total_def shard_slotted_def
      sized_shard_def NewBudgetStore_def)

lemma runAuction_keeps:
  assumes inv: "registry_inv n r" and run: "runAuction day clock request spend r = Some (r', ans)"
  shows "registry_inv n r'"
  using run
proof (cases rule: runAuction_cases)
  case (none reason)
  then show ?thesis using inv by simp
next
  case (won req i creative second)
  let ?reg = "LoadShard r (rq_GeoHash req)"
  have ok: "registry_ok r" "bids_nonneg r" "store_inv (store r)" using inv by (simp_all add: registry_inv_def registry_ok_def)
  have wf: "columns_wf ?reg" using registry_ok_shard(1) [OF ok(1)] by (simp add: shard_ok_def)
  show ?thesis
  proof (cases spend)
    case False
    then show ?thesis using won(4) inv by (simp add: settle_eq [OF wf won(3)] Let_def)
  next
    case True
    obtain result reason where ans: "ans = (result, reason)" by (cases ans)
    have "settle day True req ?reg i creative second r = Some (r', result, reason)" using won(4) True ans by simp
    from auction_charge_won [OF ok(1,2) won(2) refl won(3) this]
    have keep: "registry_ok r'" "bids_nonneg r'" by blast+
    let ?p = "price_of r req ?reg i second"
    obtain s b where s: "CheckAndSpendAll day (BudgetIndices ?reg ! i) (CustomerBudgetIndices ?reg ! i) ?p
        (DailyBudgets ?reg ! i) (store r) = (s, b)" by fastforce
    have "?reg \<in> set (catalog r)" using ok(1) shard_of_geo_less by (simp add: registry_ok_def LoadShard_def)
    then have p: "0 \<le> ?p" using price_of_bounds(1) won(2,3) ok(2) by (simp add: bids_nonneg_def)
    have "DailyBudgets ?reg ! i < 2 ^ 63"
      using registry_ok_shard(2) [OF ok(1), of "rq_GeoHash req"] won(3) by (simp add: shard_slotted_def in_i64_def)
    then have "length (budgets s) = length (budgets (store r)) \<and> length (customerBudgets s) = length (customerBudgets (store r))"
      using s by (auto simp: CheckAndSpendAll_eq [OF ok(3) p] split: if_splits)
    moreover have "r' = r\<lparr>store := s\<rparr>" using won(4) True s by (simp add: settle_eq [OF wf won(3)] Let_def)
    ultimately show ?thesis using inv keep by (simp add: registry_inv_def fcap_total_def)
  qed
qed

context go_sorter
begin

lemma UpdateCampaigns_keeps:
  assumes inv: "registry_inv n r" and fits: "op_fits (OpCampaigns cs)" and room: "n + 2 * length cs < 2 ^ 32"
  shows "\<exists>r'. UpdateCampaigns pb sched cs r = Some r' \<and> registry_inv (n + 2 * length cs) r'"
proof -
  have small: "length cs + length (pendingCreatives r) < 2 ^ 23" "store_inv (store r)"
      "length (budgets (store r)) + length cs < 2 ^ 32" "length (customerBudgets (store r)) + length cs < 2 ^ 32"
      "list_all campaign_fits cs"
    using inv fits room by (auto simp: registry_inv_def registry_ok_def list_all_iff)
  obtain r' where r': "UpdateCampaigns pb sched cs r = Some r'" "registry_ok r'" "grown (2 * length cs) (store r) (store r')"
      "\<And>k. k < geoShardCount \<Longrightarrow> lists_campaigns (store r') (filter (\<lambda>c. cp_shard c = k) cs) (catalog r' ! k)"
      "fcap r' = fcap r" "pendingCreatives r' = pendingCreatives r"
    using UpdateCampaigns_spec [OF small, of pb] by blast
  have "0 \<le> Bids reg ! i" if mem: "reg \<in> set (catalog r')" "i < Count reg" for reg i
  proof -
    obtain k where "k < length (catalog r')" "reg = catalog r' ! k" using mem(1) by (metis in_set_conv_nth)
    then have k: "k < geoShardCount" "reg = catalog r' ! k" using r'(2) by (simp_all add: registry_ok_def)
    have "Bids reg = map cp_Bid (filter (\<lambda>c. cp_shard c = k) cs)" "Count reg = length (filter (\<lambda>c. cp_shard c = k) cs)"
      using r'(4) [OF k(1)] k(2) by (simp_all add: lists_campaigns_def)
    moreover have "filter (\<lambda>c. cp_shard c = k) cs ! i \<in> set cs" 
      using mem(2) calculation(2) nth_mem [of i "filter (\<lambda>c. cp_shard c = k) cs"] by simp
    ultimately show ?thesis using mem(2) fits by (simp add: list_all_iff)
  qed
  then have "bids_nonneg r'" by (simp add: bids_nonneg_def)
  moreover have "length (budgets (store r')) \<le> n + 2 * length cs" "length (customerBudgets (store r')) \<le> n + 2 * length cs"
    using r'(3) inv by (simp_all add: registry_inv_def grown_def)
  ultimately have "registry_inv (n + 2 * length cs) r'"
    using r'(2,5,6) inv by (simp add: registry_inv_def fcap_total_def)
  then show ?thesis using r'(1) by blast
qed

lemma apply_registry_op_keeps:
  assumes inv: "registry_inv n r" and fits: "op_fits op" and room: "n + 2 * op_campaigns op < 2 ^ 32"
  shows "\<exists>r'. apply_registry_op pb sched op r = Some r' \<and> registry_inv (n + 2 * op_campaigns op) r'"
proof (cases op)
  case (OpCampaigns cs)
  then show ?thesis using UpdateCampaigns_keeps [OF inv, of cs pb] fits room by simp
next
  case (OpAuction day clock request spend)
  have "runAuction day clock request spend r \<noteq> None"
    using runAuction_total inv by (simp add: registry_inv_def)
  then show ?thesis using runAuction_keeps [OF inv] OpAuction by auto
next
  case (OpFcap snap)
  have "FcapCount \<lparr>Keys = [], Values = [], Mask = 0\<rparr> p u = Some (0, False)" for p u by (simp add: FcapCount_def)
  then show ?thesis
    using inv fits OpFcap
    by (auto simp: registry_inv_def registry_ok_def bids_nonneg_def fcap_total_def SetFcapSnapshot_def split: option.splits)
qed (use inv fits in \<open>auto simp: registry_inv_def registry_ok_def bids_nonneg_def fcap_total_def
    SetClearingMode_def SetTargetingIndexEnabled_def UpdateCreatives_def\<close>)

lemma run_registry_keeps:
  assumes "registry_inv n r" "list_all op_fits ops" "n + 2 * sum_list (map op_campaigns ops) < 2 ^ 32"
  shows "\<exists>r'. run_registry pb sched ops r = Some r' \<and> registry_inv (n + 2 * sum_list (map op_campaigns ops)) r'"
  using assms
proof (induction ops arbitrary: n r)
  case (Cons op ops)
  obtain r1 where r1: "apply_registry_op pb sched op r = Some r1" "registry_inv (n + 2 * op_campaigns op) r1"
    using apply_registry_op_keeps [OF Cons.prems(1), of op pb] Cons.prems(2,3) by auto
  show ?case using Cons.IH [OF r1(2)] Cons.prems(2,3) r1(1) by (auto simp: algebra_simps)
qed simp

end


definition demo_ops :: "registry_op list" where
  "demo_ops = [OpCampaigns [simple_campaign 1 100 500 0], OpAuction 1 (\<lambda>_. 0) (Some (simple_request 10)) True,
     OpFcap None, OpClearing ClearingFirstPrice, OpAuction 2 (\<lambda>_. 0) (Some (simple_request 10)) True]"


section \<open>A shard of two campaigns\<close>

definition two_rows :: CampaignAuctionRegistry where
  "two_rows = filled 2 [(simple_campaign 1 100 500 0, 0, invalidCustomerBudgetIdx),
     (simple_campaign 2 80 500 0, 1, invalidCustomerBudgetIdx)]"

lemma two_rows_wf: "columns_wf two_rows" "creatives_wf two_rows" "0 < Count two_rows"
    "length (geo_rows two_rows) < 2 ^ 32" "length (target_rows two_rows) < 2 ^ 32"
proof -
  show "columns_wf two_rows" unfolding two_rows_def by (rule columns_wf_filled) simp_all
  show "creatives_wf two_rows" "0 < Count two_rows" by code_simp+
  have "length (geo_rows two_rows) = 2" "length (target_rows two_rows) = 2" by code_simp+
  then show "length (geo_rows two_rows) < 2 ^ 32" "length (target_rows two_rows) < 2 ^ 32" by simp_all
qed

lemma two_rows_geo: "buildGeoIndex two_rows = Some (the (buildGeoIndex two_rows))"
  using buildGeoIndex_result [OF two_rows_wf(1-3)] by simp

lemma two_rows_target:
  "buildTargetingIndex (the (buildGeoIndex two_rows)) = Some (the (buildTargetingIndex (the (buildGeoIndex two_rows))))"
proof -
  let ?reg = "the (buildGeoIndex two_rows)"
  have "same_campaigns two_rows ?reg"
    using buildGeoIndex_result [OF two_rows_wf(1-3)] by (simp add: same_campaigns_def campaign_columns.truncate_def)
  then have "columns_wf ?reg" "creatives_wf ?reg" "0 < Count ?reg"
    using two_rows_wf(1-3) same_campaigns_rows same_campaigns_columns(1) by metis+
  from buildTargetingIndex_result [OF this] show ?thesis by simp
qed


theorem targetingRange_equivalent_to_geoRange_witness:
  "targetingRange (the (buildTargetingIndex (the (buildGeoIndex two_rows)))) 7 1 1 = Some (0, 2) \<and>
   filter (fits_request 1 1) (bucket_rows (TargetBucketSoA (the (buildTargetingIndex (the (buildGeoIndex two_rows))))) 0 2) =
   filter (fits_request 1 1) (bucket_rows (GeoBucketSoA (the (buildGeoIndex two_rows))) 0 2)"
proof -
  have r: "targetingRange (the (buildTargetingIndex (the (buildGeoIndex two_rows)))) 7 1 1 = Some (0, 2)"
      "geoRange (the (buildGeoIndex two_rows)) 7 = Some (0, 2)" by code_simp+
  then show ?thesis
    using targetingRange_equivalent_to_geoRange [OF two_rows_wf(1,2,4,5) two_rows_geo two_rows_target, of 0 0 1 1 7] by simp
qed

end
