(* ===== verification/RtbSnapshot.thy ===== *)
theory RtbSnapshot
  imports RtbOutcome
begin

text \<open>
  The snapshot file of the registry (\<open>src/internal/rtb/persistence.go\<close>): what
  \<open>SaveSnapshot\<close> writes, byte by byte, and what \<open>LoadSnapshot\<close> makes of it.

  The code copies slices as memory; the model writes their elements in little-endian order,
  as the supported platforms hold them. The file is what the rename leaves behind; a failing
  file system call is an argument of the save loop. The order in which Go iterates over the
  slot map, the swaps of \<open>sort.Sort\<close> and what other goroutines publish during a save are
  arguments too.
\<close>

section \<open>Arrays of fixed-size elements\<close>

datatype snapshot_error = SnapEOF | SnapMagic | SnapVersion u32 | SnapPanic | SnapWrite | ErrSnapshotUnstable

definition i64_word :: "int \<Rightarrow> u64" where "i64_word x = word_of_int x"

definition put_i64 :: "int \<Rightarrow> bytes" where "put_i64 x = le64 (i64_word x)"
definition get_i64 :: "bytes \<Rightarrow> int" where "get_i64 bs = sint (getle64 bs)"

text \<open>\<open>AlignedBudget\<close>: the value and 56 bytes of padding.\<close>

definition put_budget :: "int \<Rightarrow> bytes" where "put_budget x = put_i64 x @ replicate 56 0"
definition get_budget :: "bytes \<Rightarrow> int" where "get_budget bs = get_i64 (take 8 bs)"

definition put_u8 :: "u8 \<Rightarrow> bytes" where "put_u8 x = [x]"
definition get_u8 :: "bytes \<Rightarrow> u8" where "get_u8 bs = hd bs"

definition put_array :: "('a \<Rightarrow> bytes) \<Rightarrow> nat \<Rightarrow> 'a list \<Rightarrow> bytes" where
  "put_array enc n xs = concat (map enc (take n xs))"

text \<open>Reading into \<open>make([]T, n)\<close>: the size \<open>n*k\<close> is computed in \<open>uint32\<close>, and what is not
  read stays zero.\<close>

definition get_array :: "nat \<Rightarrow> (bytes \<Rightarrow> 'a) \<Rightarrow> u32 \<Rightarrow> bytes \<Rightarrow> snapshot_error + 'a list \<times> bytes" where
  "get_array k dec n bs =
     (let m = unat (n * u32_of k);
          mem = take m bs @ replicate (unat n * k - m) 0
      in if length bs < m then Inl SnapEOF
         else Inr (map (\<lambda>i. dec (window mem (i * k) (i * k + k))) [0..<unat n], drop m bs))"

definition writeUint32 :: "u32 \<Rightarrow> bytes" where
  "writeUint32 val = [ucast val, ucast (drop_bit 8 val), ucast (drop_bit 16 val), ucast (drop_bit 24 val)]"

definition readUint32 :: "bytes \<Rightarrow> snapshot_error + u32 \<times> bytes" where
  "readUint32 r =
     (case r of
        b1 # b2 # b3 # b4 # rest \<Rightarrow>
          Inr (ucast b1 OR push_bit 8 (ucast b2) OR push_bit 16 (ucast b3) OR push_bit 24 (ucast b4), rest)
      | _ \<Rightarrow> Inl SnapEOF)"

definition bind_sum :: "'e + 'a \<Rightarrow> ('a \<Rightarrow> 'e + 'b) \<Rightarrow> 'e + 'b" where
  "bind_sum x f = (case x of Inl e \<Rightarrow> Inl e | Inr y \<Rightarrow> f y)"

section \<open>Writing\<close>

definition snapshotMagic :: bytes where
  "snapshotMagic = [0x45, 0x53, 0x50, 0x52, 0x52, 0x54, 0x42, 0x53]"

definition snapshotVersion :: u32 where "snapshotVersion = 4"
definition snapshotVersionP1 :: u32 where "snapshotVersionP1 = 3"
definition snapshotVersionLegacy :: u32 where "snapshotVersionLegacy = 2"
definition legacyGeoShardCount :: nat where "legacyGeoShardCount = 16"
definition maxSnapshotRetries :: nat where "maxSnapshotRetries = 8"

record snapshotCapture =
  sc_gen :: u64
  sc_keys :: "u64 list"
  sc_vals :: "u32 list"
  sc_budgetsCopy :: "int list"
  sc_snap :: "CampaignAuctionRegistry list"

definition captureSnapshot :: "u64 list \<Rightarrow> Registry \<Rightarrow> snapshotCapture" where
  "captureSnapshot order r = \<lparr>sc_gen = snapGen r, sc_keys = order, sc_vals = map (the \<circ> slots (store r)) order,
     sc_budgetsCopy = budgets (store r), sc_snap = catalog r\<rparr>"

definition stale :: "snapshotCapture \<Rightarrow> u64 \<Rightarrow> bool" where
  "stale c gen \<longleftrightarrow> gen \<noteq> sc_gen c"

definition write_shard :: "CampaignAuctionRegistry \<Rightarrow> bytes" where
  "write_shard shard =
     (let count = Count shard in
      writeUint32 (u32_of count) @
      (if count > 0
       then put_array le64 count (CampaignIDs shard) @ put_array put_i64 count (Bids shard) @
            put_array le32 count (CTRPPM shard) @ put_array put_i64 count (Reserves shard) @
            put_array put_i64 count (DailyBudgets shard) @ put_array put_u8 (length (PacingOpens shard)) (PacingOpens shard) @
            put_array le32 count (CustomerBudgetIndices shard) @
            put_array put_u8 (length (DeviceMasks shard)) (DeviceMasks shard) @
            put_array le64 count (CategoryMasks shard) @ put_array le32 count (GeoHashes shard) @
            put_array le32 count (Weights shard) @ put_array le32 count (BudgetIndices shard)
       else []))"

definition writeSnapshotFile :: "snapshotCapture \<Rightarrow> bytes" where
  "writeSnapshotFile c =
     (let slotsCount = length (sc_keys c); budgetsCount = length (sc_budgetsCopy c) in
      snapshotMagic @ writeUint32 snapshotVersion @ writeUint32 (u32_of slotsCount) @
      put_array le64 slotsCount (sc_keys c) @ put_array le32 slotsCount (sc_vals c) @
      writeUint32 (u32_of budgetsCount) @ put_array put_budget budgetsCount (sc_budgetsCopy c) @
      concat (map write_shard (sc_snap c)))"

text \<open>One round of \<open>SaveSnapshot\<close>: the registry at the capture and the iteration order of its
  slot map, the generation before and after the write, and whether the write fails.\<close>

record save_round =
  sv_registry :: Registry
  sv_order :: "u64 list"
  sv_before :: u64
  sv_fails :: bool
  sv_after :: u64

fun save_loop :: "save_round list \<Rightarrow> bytes option \<Rightarrow> (snapshot_error + unit) \<times> bytes option" where
  "save_loop [] file = (Inl ErrSnapshotUnstable, file)"
| "save_loop (x # xs) file =
     (let captured = captureSnapshot (sv_order x) (sv_registry x) in
      if stale captured (sv_before x) then save_loop xs file
      else if sv_fails x then (Inl SnapWrite, file)
      else if \<not> stale captured (sv_after x) then (Inr (), Some (writeSnapshotFile captured))
      else save_loop xs (Some (writeSnapshotFile captured)))"

definition SaveSnapshot :: "save_round list \<Rightarrow> bytes option \<Rightarrow> (snapshot_error + unit) \<times> bytes option" where
  "SaveSnapshot rounds file = save_loop (take maxSnapshotRetries rounds) file"

section \<open>Reading\<close>

definition read_shard ::
  "sort_schedule \<Rightarrow> u32 \<Rightarrow> bytes \<Rightarrow> snapshot_error + CampaignAuctionRegistry \<times> bytes" where
  "read_shard sched version bs =
     bind_sum (readUint32 bs) (\<lambda>(count, bs).
     if count > 0
     then let n = unat count in
          bind_sum (get_array 8 getle64 count bs) (\<lambda>(ids, bs).
          bind_sum (get_array 8 get_i64 count bs) (\<lambda>(bids, bs).
          bind_sum (if version \<ge> snapshotVersionP1
                    then bind_sum (get_array 4 getle32 count bs) (\<lambda>(ctr, bs).
                         bind_sum (get_array 8 get_i64 count bs) (\<lambda>(reserves, bs). Inr (ctr, reserves, bs)))
                    else Inr (replicate n CTRPPMUnit, replicate n 0, bs)) (\<lambda>(ctr, reserves, bs).
          bind_sum (if version \<ge> snapshotVersion
                    then bind_sum (get_array 8 get_i64 count bs) (\<lambda>(daily, bs).
                         bind_sum (get_array 1 get_u8 count bs) (\<lambda>(pacing, bs).
                         bind_sum (get_array 4 getle32 count bs) (\<lambda>(cust, bs). Inr (daily, pacing, cust, bs))))
                    else Inr (replicate n 0, replicate n PacingOpen, replicate n invalidCustomerBudgetIdx, bs))
            (\<lambda>(daily, pacing, cust, bs).
          bind_sum (get_array 1 get_u8 count bs) (\<lambda>(devices, bs).
          bind_sum (get_array 8 getle64 count bs) (\<lambda>(cats, bs).
          bind_sum (get_array 4 getle32 count bs) (\<lambda>(geos, bs).
          bind_sum (get_array 4 getle32 count bs) (\<lambda>(weights, bs).
          bind_sum (get_array 4 getle32 count bs) (\<lambda>(slotIdx, bs).
          let reg = (sized_shard 0)\<lparr>Count := n, CampaignIDs := ids, Bids := bids, CTRPPM := ctr, Reserves := reserves,
                DailyBudgets := daily, PacingOpens := pacing, DeviceMasks := devices, CategoryMasks := cats,
                GeoHashes := geos, Weights := weights, BoostPPM := replicate n 0, BudgetIndices := slotIdx,
                CustomerBudgetIndices := cust\<rparr>
          in case buildGeoIndex reg of
               None \<Rightarrow> Inl SnapPanic
             | Some reg1 \<Rightarrow> Inr (sortRegistryBuckets sched reg1, bs))))))))))
     else Inr (sized_shard 0, bs))"

fun read_shards ::
  "sort_schedule \<Rightarrow> u32 \<Rightarrow> nat \<Rightarrow> bytes \<Rightarrow> snapshot_error + CampaignAuctionRegistry list \<times> bytes" where
  "read_shards sched version 0 bs = Inr ([], bs)"
| "read_shards sched version (Suc n) bs =
     bind_sum (read_shard sched version bs) (\<lambda>(reg, bs).
     bind_sum (read_shards sched version n bs) (\<lambda>(regs, bs). Inr (reg # regs, bs)))"

definition LoadSnapshot :: "sort_schedule \<Rightarrow> bytes \<Rightarrow> Registry \<Rightarrow> snapshot_error + Registry" where
  "LoadSnapshot sched file r =
     (if length file < 8 then Inl SnapEOF
      else if take 8 file \<noteq> snapshotMagic then Inl SnapMagic
      else bind_sum (readUint32 (drop 8 file)) (\<lambda>(version, bs).
      if version \<noteq> snapshotVersion \<and> version \<noteq> snapshotVersionP1 \<and> version \<noteq> snapshotVersionLegacy
      then Inl (SnapVersion version)
      else bind_sum (readUint32 bs) (\<lambda>(slotsCount, bs).
      bind_sum (get_array 8 getle64 slotsCount bs) (\<lambda>(keys, bs).
      bind_sum (get_array 4 getle32 slotsCount bs) (\<lambda>(vals, bs).
      bind_sum (readUint32 bs) (\<lambda>(budgetsCount, bs).
      bind_sum (get_array 64 get_budget budgetsCount bs) (\<lambda>(budgetsData, bs).
      let shardLimit = (if version = snapshotVersionLegacy then legacyGeoShardCount else geoShardCount) in
      bind_sum (read_shards sched version shardLimit bs) (\<lambda>(regs, _).
      let newSlots = fold (\<lambda>(k, v) m. m(k \<mapsto> v)) (zip keys vals) Map.empty;
          shards = regs @ replicate (geoShardCount - shardLimit) (sized_shard 0)
      in Inr (publishCatalog shards (r\<lparr>store := (store r)\<lparr>slots := newSlots, budgets := budgetsData\<rparr>\<rparr>))))))))))"

section \<open>Round trip of the elements\<close>

lemma bind_sum_simps [simp]: "bind_sum (Inr x) f = f x" "bind_sum (Inl e) f = Inl e"
  by (simp_all add: bind_sum_def)

lemma readUint32_write [simp]: "readUint32 (writeUint32 v @ rest) = Inr (v, rest)"
proof -
  have "ucast (ucast v :: u8) OR push_bit 8 (ucast (ucast (drop_bit 8 v) :: u8)) OR
      push_bit 16 (ucast (ucast (drop_bit 16 v) :: u8)) OR push_bit 24 (ucast (ucast (drop_bit 24 v) :: u8)) = (v :: u32)"
  proof (rule bit_word_eqI)
    fix n assume "n < LENGTH(32)"
    then consider "n < 8" | "8 \<le> n" "n < 16" | "16 \<le> n" "n < 24" | "24 \<le> n" "n < 32" by fastforce
    then show "bit (ucast (ucast v :: u8) OR push_bit 8 (ucast (ucast (drop_bit 8 v) :: u8)) OR
      push_bit 16 (ucast (ucast (drop_bit 16 v) :: u8)) OR push_bit 24 (ucast (ucast (drop_bit 24 v) :: u8)) :: u32) n = bit v n"
      by cases (auto simp: bit_or_iff bit_push_bit_iff bit_ucast_iff bit_drop_bit_eq)
  qed
  then show ?thesis by (simp add: readUint32_def writeUint32_def)
qed

lemma length_writeUint32 [simp]: "length (writeUint32 v) = 4"
  by (simp add: writeUint32_def)

lemma length_put_i64 [simp]: "length (put_i64 x) = 8"
  by (simp add: put_i64_def)

lemma get_put_i64: "in_i64 x \<Longrightarrow> get_i64 (put_i64 x) = x"
  by (simp add: get_i64_def put_i64_def i64_word_def in_i64_def signed_of_int signed_take_bit_int_eq_self)

lemma get_put_budget: "in_i64 x \<Longrightarrow> get_budget (put_budget x) = x"
  using get_put_i64 [of x] by (simp add: get_budget_def put_budget_def put_i64_def)

lemma length_put_budget [simp]: "length (put_budget x) = 64"
  by (simp add: put_budget_def)

lemma window_chunks:
  assumes "\<forall>x\<in>set xs. length (enc x) = k" "i < length xs"
  shows "window (concat (map enc xs) @ rest) (i * k) (i * k + k) = enc (xs ! i)"
  using assms
proof (induction xs arbitrary: i)
  case (Cons x xs)
  show ?case
  proof (cases i)
    case 0
    then show ?thesis using Cons.prems by (simp add: window_def)
  next
    case (Suc j)
    have "window (enc x @ concat (map enc xs) @ rest) (Suc j * k) (Suc j * k + k) =
        window (concat (map enc xs) @ rest) (j * k) (j * k + k)"
      using Cons.prems by (subst window_append_right) (auto simp: add.commute)
    then show ?thesis using Cons.IH [of j] Cons.prems Suc by simp
  qed
qed simp

lemma length_chunks: "\<forall>x\<in>set xs. length (enc x) = k \<Longrightarrow> length (concat (map enc xs)) = length xs * k"
  by (induction xs) auto

lemma get_put_array:
  assumes "length xs = n" "n * k < 2 ^ 32" "n < 2 ^ 32" "\<forall>x\<in>set xs. length (enc x) = k \<and> dec (enc x) = x"
  shows "get_array k dec (u32_of n) (put_array enc n xs @ rest) = Inr (xs, rest)"
proof -
  have m: "unat (u32_of n * u32_of k) = n * k"
    using assms(2) by (simp add: u32_of_def unat_of_nat flip: of_nat_mult)
  have len: "length (concat (map enc xs)) = n * k" using length_chunks [of xs enc k] assms(1,4) by simp
  have "map (\<lambda>i. dec (window (concat (map enc xs)) (i * k) (i * k + k))) [0..<n] = xs"
    using window_chunks [of xs enc k _ "[]"] assms(1,4) by (intro nth_equalityI) auto
  then show ?thesis
    using len assms(1,3) by (simp add: get_array_def put_array_def m Let_def)
qed

section \<open>Round trip of a shard\<close>

text \<open>The columns that survive, and a shard made of them alone.\<close>

definition restored :: "CampaignAuctionRegistry \<Rightarrow> CampaignAuctionRegistry" where
  "restored reg = (sized_shard 0)\<lparr>Count := Count reg, CampaignIDs := CampaignIDs reg, Bids := Bids reg, CTRPPM := CTRPPM reg,
     Reserves := Reserves reg, DailyBudgets := DailyBudgets reg, PacingOpens := PacingOpens reg,
     DeviceMasks := DeviceMasks reg, CategoryMasks := CategoryMasks reg, GeoHashes := GeoHashes reg,
     Weights := Weights reg, BoostPPM := replicate (Count reg) 0, BudgetIndices := BudgetIndices reg,
     CustomerBudgetIndices := CustomerBudgetIndices reg\<rparr>"

definition savable :: "CampaignAuctionRegistry \<Rightarrow> bool" where
  "savable reg \<longleftrightarrow> columns_wf reg \<and> Count reg < 2 ^ 29 \<and>
     list_all in_i64 (Bids reg) \<and> list_all in_i64 (Reserves reg) \<and> list_all in_i64 (DailyBudgets reg)"

lemma restored_wf: "columns_wf reg \<Longrightarrow> columns_wf (restored reg)" "creatives_wf (restored reg)"
    "Count (restored reg) = Count reg" "TargetBucketSoA (restored reg) = empty_bucket" "TargetBucketCount (restored reg) = 0"
  by (simp_all add: restored_def columns_wf_def creatives_wf_def sized_shard_def resetCreativeCacheSoA_def Let_def)

lemma get_columns:
  assumes "n < 2 ^ 29"
  shows "length ws = n \<Longrightarrow> get_array 8 getle64 (u32_of n) (put_array le64 n ws @ rest) = Inr (ws, rest)"
    "length ks = n \<Longrightarrow> get_array 4 getle32 (u32_of n) (put_array le32 n ks @ rest) = Inr (ks, rest)"
    "length bs = n \<Longrightarrow> get_array 1 get_u8 (u32_of n) (put_array put_u8 n bs @ rest) = Inr (bs, rest)"
    "length is = n \<Longrightarrow> list_all in_i64 is \<Longrightarrow>
       get_array 8 get_i64 (u32_of n) (put_array put_i64 n is @ rest) = Inr (is, rest)"
proof -
  have small: "n * 8 < 2 ^ 32" "n * 4 < 2 ^ 32" "n * 1 < 2 ^ 32" "n < 2 ^ 32" using assms by simp_all
  show "length ws = n \<Longrightarrow> get_array 8 getle64 (u32_of n) (put_array le64 n ws @ rest) = Inr (ws, rest)"
    by (rule get_put_array [OF _ small(1,4)]) simp_all
  show "length ks = n \<Longrightarrow> get_array 4 getle32 (u32_of n) (put_array le32 n ks @ rest) = Inr (ks, rest)"
    by (rule get_put_array [OF _ small(2,4)]) simp_all
  show "length bs = n \<Longrightarrow> get_array 1 get_u8 (u32_of n) (put_array put_u8 n bs @ rest) = Inr (bs, rest)"
    by (rule get_put_array [OF _ small(3,4)]) (simp_all add: put_u8_def get_u8_def)
  show "length is = n \<Longrightarrow> list_all in_i64 is \<Longrightarrow>
      get_array 8 get_i64 (u32_of n) (put_array put_i64 n is @ rest) = Inr (is, rest)"
    by (rule get_put_array [OF _ small(1,4)]) (auto simp: get_put_i64 list_all_iff)
qed

lemma read_write_shard:
  assumes "savable reg" "0 < Count reg" "buildGeoIndex (restored reg) = Some reg1"
  shows "read_shard sched snapshotVersion (write_shard reg @ rest) = Inr (sortRegistryBuckets sched reg1, rest)"
proof -
  have cols: "length (CampaignIDs reg) = Count reg" "length (Bids reg) = Count reg" "length (CTRPPM reg) = Count reg"
      "length (Reserves reg) = Count reg" "length (DailyBudgets reg) = Count reg" "length (PacingOpens reg) = Count reg"
      "length (DeviceMasks reg) = Count reg" "length (CategoryMasks reg) = Count reg" "length (GeoHashes reg) = Count reg"
      "length (Weights reg) = Count reg" "length (BudgetIndices reg) = Count reg"
      "length (CustomerBudgetIndices reg) = Count reg" and small: "Count reg < 2 ^ 29"
      and i64: "list_all in_i64 (Bids reg)" "list_all in_i64 (Reserves reg)" "list_all in_i64 (DailyBudgets reg)"
    using assms(1) by (simp_all add: savable_def columns_wf_def)
  have n: "unat (u32_of (Count reg)) = Count reg" "0 < u32_of (Count reg)"
    using small assms(2) by (simp_all add: word_less_nat_alt)
  have v: "snapshotVersionP1 \<le> snapshotVersion" by (simp add: snapshotVersionP1_def snapshotVersion_def)
  show ?thesis
    using assms(2,3) n v
    by (simp add: read_shard_def write_shard_def cols i64 get_columns [OF small] restored_def Let_def del: One_nat_def)
qed

lemma restored_rows: "(\<Sum>i<Count reg. length (campaign_rows (restored reg) i)) \<le> Count reg"
proof -
  have "campaignCreativeRange (restored reg) i = None" for i
    by (simp add: campaignCreativeRange_def restored_def sized_shard_def)
  then have "length (campaign_rows (restored reg) i) = 1" for i by (simp add: campaign_rows_def)
  then show ?thesis by simp
qed

context go_sorter
begin

lemma read_back_shard:
  assumes "savable reg"
  shows "\<exists>reg'. read_shard sched snapshotVersion (write_shard reg @ rest) = Inr (reg', rest) \<and> shard_ok reg' \<and>
    same_campaigns (if Count reg = 0 then sized_shard 0 else restored reg) reg'"
proof (cases "Count reg = 0")
  case True
  then have "read_shard sched snapshotVersion (write_shard reg @ rest) = Inr (sized_shard 0, rest)"
    by (simp add: read_shard_def write_shard_def u32_of_def)
  then show ?thesis using True shard_ok_empty by simp
next
  case False
  let ?reg = "restored reg"
  have wf: "columns_wf ?reg" "creatives_wf ?reg" "0 < Count ?reg"
    using assms restored_wf False by (simp_all add: savable_def)
  have small: "length (geo_rows ?reg) < 2 ^ 32"
    using geo_rows_bound [of ?reg] restored_rows [of reg] assms by (simp add: restored_wf savable_def)
  define reg1 where "reg1 = ?reg\<lparr>GeoBucketCount := length (geo_keys ?reg), GeoBucketHash := geo_keys ?reg,
    GeoBucketStart := geo_starts ?reg, GeoBucketSoA := soa_of (geo_rows ?reg)\<rparr>"
  have reg1: "buildGeoIndex ?reg = Some reg1" using buildGeoIndex_result [OF wf] by (simp add: reg1_def)
  have same1: "same_campaigns ?reg reg1" by (simp add: same_campaigns_def reg1_def campaign_columns.truncate_def)
  have "shard_ok (sortRegistryBuckets sched reg1) \<and> same_campaigns ?reg (sortRegistryBuckets sched reg1)"
    using geo_indexed_ok [OF wf reg1 reg1_def same1 restored_wf(4,5) small, of False] by simp
  then show ?thesis using read_write_shard [OF assms _ reg1] False by auto
qed

lemma read_back_shards:
  assumes "list_all savable regs"
  shows "\<exists>regs'. read_shards sched snapshotVersion (length regs) (concat (map write_shard regs) @ rest) = Inr (regs', rest) \<and>
    length regs' = length regs \<and> (\<forall>k<length regs. shard_ok (regs' ! k) \<and>
      same_campaigns (if Count (regs ! k) = 0 then sized_shard 0 else restored (regs ! k)) (regs' ! k))"
  using assms
proof (induction regs)
  case (Cons reg regs)
  obtain reg' where reg': "read_shard sched snapshotVersion (write_shard reg @ concat (map write_shard regs) @ rest) =
      Inr (reg', concat (map write_shard regs) @ rest)" "shard_ok reg'"
      "same_campaigns (if Count reg = 0 then sized_shard 0 else restored reg) reg'"
    using read_back_shard [of reg "concat (map write_shard regs) @ rest"] Cons.prems by auto
  obtain regs' where "read_shards sched snapshotVersion (length regs) (concat (map write_shard regs) @ rest) = Inr (regs', rest)"
      "length regs' = length regs" "\<forall>k<length regs. shard_ok (regs' ! k) \<and>
        same_campaigns (if Count (regs ! k) = 0 then sized_shard 0 else restored (regs ! k)) (regs' ! k)"
    using Cons.IH Cons.prems by auto
  then show ?case using reg' by (intro exI [of _ "reg' # regs'"]) (auto simp: nth_Cons split: nat.splits)
qed simp

end

section \<open>Round trip of the registry\<close>

definition savable_registry :: "u64 list \<Rightarrow> Registry \<Rightarrow> bool" where
  "savable_registry order r \<longleftrightarrow> length (catalog r) = geoShardCount \<and> list_all savable (catalog r) \<and> store_inv (store r) \<and>
     length (budgets (store r)) < 2 ^ 26 \<and> length order < 2 ^ 29 \<and> distinct order \<and> set order = dom (slots (store r))"

text \<open>What a restored registry has in common with the saved one.\<close>

definition recovers :: "Registry \<Rightarrow> Registry \<Rightarrow> bool" where
  "recovers r r' \<longleftrightarrow> slots (store r') = slots (store r) \<and> budgets (store r') = budgets (store r) \<and>
     length (catalog r') = geoShardCount \<and>
     (\<forall>k<geoShardCount. shard_ok (catalog r' ! k) \<and>
        same_campaigns (if Count (catalog r ! k) = 0 then sized_shard 0 else restored (catalog r ! k)) (catalog r' ! k))"

lemma fold_map_upd: "distinct ks \<Longrightarrow>
    fold (\<lambda>(k, v) m. m(k \<mapsto> v)) (zip ks (map f ks)) m = (\<lambda>k. if k \<in> set ks then Some (f k) else m k)"
  by (induction ks arbitrary: m) (auto simp: fun_eq_iff)

lemma slots_back:
  assumes "distinct order" "set order = dom m"
  shows "fold (\<lambda>(k, v) m. m(k \<mapsto> v)) (zip order (map (the \<circ> m) order)) Map.empty = m"
  unfolding fold_map_upd [OF assms(1)] using assms(2) by (auto simp: fun_eq_iff)

lemma get_budgets:
  assumes "length xs < 2 ^ 26" "list_all in_i64 xs"
  shows "get_array 64 get_budget (u32_of (length xs)) (put_array put_budget (length xs) xs @ rest) = Inr (xs, rest)"
  by (rule get_put_array) (use assms in \<open>auto simp: get_put_budget list_all_iff\<close>)

lemma amounts_i64: "amounts xs \<Longrightarrow> list_all in_i64 xs"
  by (auto simp: amounts_def list_all_iff in_i64_def)

context go_sorter
begin

lemma load_written:
  assumes "savable_registry order r"
  shows "\<exists>r'. LoadSnapshot sched (writeSnapshotFile (captureSnapshot order r)) r0 = Inr r' \<and> recovers r r' \<and>
    snapGen r' = snapGen r0 + 1 \<and> store r' = (store r0)\<lparr>slots := slots (store r), budgets := budgets (store r)\<rparr>"
proof -
  have facts: "length (catalog r) = geoShardCount" "list_all savable (catalog r)" "length (budgets (store r)) < 2 ^ 26"
      "length order < 2 ^ 29" "distinct order" "set order = dom (slots (store r))" "list_all in_i64 (budgets (store r))"
    using assms amounts_i64 by (auto simp: savable_registry_def store_inv_def)
  obtain regs where regs: "read_shards sched snapshotVersion geoShardCount (concat (map write_shard (catalog r))) = Inr (regs, [])"
      "length regs = geoShardCount" "\<forall>k<geoShardCount. shard_ok (regs ! k) \<and>
        same_campaigns (if Count (catalog r ! k) = 0 then sized_shard 0 else restored (catalog r ! k)) (regs ! k)"
    using read_back_shards [OF facts(2), of "[]"] facts(1) by auto
  have ver: "snapshotVersion \<noteq> snapshotVersionLegacy" by (simp add: snapshotVersion_def snapshotVersionLegacy_def)
  have magic: "length snapshotMagic = 8" by (simp add: snapshotMagic_def)
  have keys: "get_array 8 getle64 (u32_of (length order)) (put_array le64 (length order) order @ rest) = Inr (order, rest)"
      "get_array 4 getle32 (u32_of (length order)) (put_array le32 (length order) (map (the \<circ> slots (store r)) order) @ rest) =
        Inr (map (the \<circ> slots (store r)) order, rest)" for rest
    by (simp_all add: get_columns [OF facts(4)])
  have "LoadSnapshot sched (writeSnapshotFile (captureSnapshot order r)) r0 =
      Inr (publishCatalog regs (r0\<lparr>store := (store r0)\<lparr>slots := slots (store r), budgets := budgets (store r)\<rparr>\<rparr>))"
    using regs(1) ver magic
    by (simp add: LoadSnapshot_def writeSnapshotFile_def captureSnapshot_def Let_def keys get_budgets [OF facts(3,7)]
        slots_back [OF facts(5,6)])
  then show ?thesis using regs by (simp add: recovers_def publishCatalog_def)
qed

end

lemma save_loop_success:
  "save_loop rounds disk = (Inr (), disk') \<Longrightarrow> \<exists>x\<in>set rounds. sv_before x = snapGen (sv_registry x) \<and>
     sv_after x = snapGen (sv_registry x) \<and> disk' = Some (writeSnapshotFile (captureSnapshot (sv_order x) (sv_registry x)))"
  by (induction rounds disk rule: save_loop.induct) (auto simp: stale_def captureSnapshot_def Let_def split: if_splits)


section \<open>What a restart loses\<close>

definition no_daily :: "CampaignData list \<Rightarrow> budget_store \<Rightarrow> bool" where
  "no_daily cs s \<longleftrightarrow> dailySpent s = [] \<and> (\<forall>c\<in>set cs. slots s (cp_ID c) \<noteq> None)"

lemma place_campaign_no_daily:
  assumes "c \<in> set cs" "no_daily cs (snd (snd st))"
  shows "no_daily cs (snd (snd (place_campaign c st)))"
proof -
  obtain regs ws s where st: "st = (regs, ws, s)" by (cases st)
  obtain idx where "slots s (cp_ID c) = Some idx" using assms st by (auto simp: no_daily_def)
  then have "GetOrAllocateSlot (cp_ID c) (cp_Budget c) s = (s, idx)" by (simp add: GetOrAllocateSlot_def)
  then show ?thesis
    using assms st
    by (auto simp: place_campaign_def GetOrAllocateCustomerSlot_def appendCustomerSlotLocked_def no_daily_def Let_def
        split: option.splits)
qed

lemma UpdateCampaigns_no_daily:
  assumes "UpdateCampaigns pb sched cs r = Some r'" "no_daily cs (store r)"
  shows "dailySpent (store r') = []"
proof -
  have "no_daily cs (snd (snd (fold place_campaign ds st)))" if "set ds \<subseteq> set cs" "no_daily cs (snd (snd st))" for ds st
    using that place_campaign_no_daily by (induction ds arbitrary: st) auto
  from this [of cs "(map sized_shard (shard_counts cs), replicate geoShardCount 0, store r)"]
  show ?thesis
    using assms by (auto simp: UpdateCampaigns_def publishCatalog_def no_daily_def Let_def bind_eq_Some_conv split: prod.splits)
qed

lemma no_counter_no_spend: "dailySpent s = [] \<Longrightarrow> 0 < limit \<Longrightarrow> \<not> snd (CheckAndSpendAll day ci ui price limit s)"
  by (auto simp: CheckAndSpendAll_def maybeRollDaily_def checkAndAddDailySpend_def checkAndSpendOn_def creditOn_def
      in_slice_def u32_of_def Let_def split: prod.splits if_splits)

lemma LoadSnapshot_store:
  "LoadSnapshot sched bytes r = Inr r' \<Longrightarrow> dailySpent (store r') = dailySpent (store r)"
  by (auto simp: LoadSnapshot_def bind_sum_def publishCatalog_def Let_def split: sum.splits if_splits)


definition daily_registry :: Registry where
  "daily_registry = published [simple_campaign 1 40 500 50] []"

definition daily_file :: bytes where
  "daily_file = writeSnapshotFile (captureSnapshot [1] daily_registry)"

definition restarted :: Registry where
  "restarted = projr (LoadSnapshot insertion_swaps daily_file (NewRegistry NewBudgetStore))"

lemma UpdateCampaigns_store:
  "UpdateCampaigns pb sched cs r = Some r' \<Longrightarrow>
     store r' = snd (snd (fold place_campaign cs (map sized_shard (shard_counts cs), replicate geoShardCount 0, store r)))"
  by (auto simp: UpdateCampaigns_def publishCatalog_def Let_def bind_eq_Some_conv split: prod.splits)

lemma daily_registry_ok:
  "UpdateCampaigns no_codec insertion_swaps [simple_campaign 1 40 500 50] (UpdateCreatives [] (NewRegistry NewBudgetStore)) =
     Some daily_registry" "registry_ok daily_registry"
  unfolding daily_registry_def
  by (rule published_ok; simp add: campaign_fits_def simple_campaign_def in_i64_def)+

lemma daily_slots: "slots (store daily_registry) = [1 \<mapsto> 0]"
  unfolding UpdateCampaigns_store [OF daily_registry_ok(1)]
  by (simp add: place_campaign_def GetOrAllocateSlot_def GetOrAllocateCustomerSlot_def appendSlotLocked_def growDailyLocked_def
      simple_campaign_def UpdateCreatives_def NewRegistry_def NewBudgetStore_def u32_of_def Let_def split: prod.splits)

lemma daily_savable: "savable_registry [1] daily_registry"
proof -
  have "list_all (\<lambda>reg. Count reg \<le> 1 \<and> list_all in_i64 (Bids reg) \<and> list_all in_i64 (Reserves reg) \<and>
      list_all in_i64 (DailyBudgets reg)) (catalog daily_registry)" "length (budgets (store daily_registry)) = 1"
    by code_simp+
  then show ?thesis
    using daily_registry_ok(2) daily_slots
    by (auto simp: savable_registry_def savable_def registry_ok_def shard_ok_def list_all_iff)
qed

definition daily_round :: save_round where
  "daily_round = \<lparr>sv_registry = daily_registry, sv_order = [1], sv_before = 1, sv_fails = False, sv_after = 1\<rparr>"

lemma daily_saved: "SaveSnapshot [daily_round] None = (Inr (), Some daily_file)"
proof -
  have "snapGen daily_registry = 1" by code_simp
  then show ?thesis
    by (simp add: SaveSnapshot_def maxSnapshotRetries_def daily_round_def stale_def captureSnapshot_def daily_file_def)
qed


lemma LoadSnapshot_keeps:
  assumes "LoadSnapshot sched bs reg = Inr reg'"
  shows "targetingIndexEnabled reg' = targetingIndexEnabled reg \<and> pendingCreatives reg' = pendingCreatives reg"
  using assms by (auto simp: LoadSnapshot_def bind_sum_def publishCatalog_def Let_def split: sum.splits if_splits)

lemma restarted_loaded:
  "LoadSnapshot insertion_swaps daily_file (NewRegistry NewBudgetStore) = Inr restarted"
  "store restarted = NewBudgetStore\<lparr>slots := [1 \<mapsto> 0], budgets := [500]\<rparr>"
  "\<not> targetingIndexEnabled restarted" "pendingCreatives restarted = []"
proof -
  obtain r' where r': "LoadSnapshot insertion_swaps daily_file (NewRegistry NewBudgetStore) = Inr r'"
      "store r' = NewBudgetStore\<lparr>slots := slots (store daily_registry), budgets := budgets (store daily_registry)\<rparr>"
    using insertion.load_written [OF daily_savable, of "NewRegistry NewBudgetStore"]
    by (auto simp: daily_file_def NewRegistry_def)
  then have eq: "restarted = r'" by (simp add: restarted_def)
  have "budgets (store daily_registry) = [500]" by code_simp
  then show "LoadSnapshot insertion_swaps daily_file (NewRegistry NewBudgetStore) = Inr restarted"
      "store restarted = NewBudgetStore\<lparr>slots := [1 \<mapsto> 0], budgets := [500]\<rparr>"
    using r' eq daily_slots by simp_all
  show "\<not> targetingIndexEnabled restarted" "pendingCreatives restarted = []"
    using LoadSnapshot_keeps [OF r'(1)] eq by (simp_all add: NewRegistry_def)
qed

lemma UpdateCampaigns_cong:
  assumes "store r = store r'" "targetingIndexEnabled r = targetingIndexEnabled r'" "pendingCreatives r = pendingCreatives r'"
    and "\<not> Option.is_none (UpdateCampaigns pb sched cs r')"
  shows "\<not> Option.is_none (UpdateCampaigns pb sched cs r)"
  using assms by (auto simp: UpdateCampaigns_def Option.is_none_def Let_def bind_eq_Some_conv split: prod.splits bind_splits)


end
