(* ===== verification/Spec2Isabelle.thy ===== *)
theory Spec2Isabelle
  imports BrokerWire BrokerRegistry BrokerPartition RtbSnapshot
begin

text \<open>
  Verification of the BidShard ad exchange.
\<close>

end
